(* ===== verification/Go_Prelude.thy ===== *)
theory Go_Prelude
  imports Main "HOL-Library.Word"
begin

text \<open>
  The vocabulary every component shares: bytes and machine words, Go's \<open>error\<close> values and
  the three ways a Go call can end (a result, an error value, a run-time panic), slice
  expressions with their bounds checks, and the big-endian codecs of
  \<^verbatim>\<open>encoding/binary\<close>.  The lemmas are collected in \<open>go_simps\<close> (rewriting of the
  primitives) and \<open>be_simps\<close> (the codecs), which the component theories pass to the simplifier.
\<close>

unbundle bit_operations_syntax

named_theorems go_simps \<open>rewrite rules for the Go primitives\<close>
named_theorems be_simps \<open>round trips of the big-endian codecs\<close>

subsection \<open>Types\<close>

type_synonym byte = "8 word"
type_synonym bytes = "byte list"
type_synonym u16 = "16 word"
type_synonym u32 = "32 word"

text \<open>
  The error values the program itself creates or compares against.  \<open>Errorf\<close> is an error made
  by \<^verbatim>\<open>fmt.Errorf\<close> or \<^verbatim>\<open>errors.New\<close> with its message; \<open>OpError\<close> is a
  \<^verbatim>\<open>net.OpError\<close> with its operation and cause; \<open>NetErr\<close> stands for an error of the
  operating system or of a peer (the flag is Go's \<^verbatim>\<open>Temporary()\<close>); \<open>CloseError\<close> is the close code of a
  WebSocket.
\<close>

datatype error =
    EOF
  | ErrUnexpectedEOF
  | ErrClosedPipe
  | ErrTooLong
  | ErrClosedPacketConn
  | ErrNotImplemented
  | ErrUnsupportedVersion
  | ErrUnsupportedCommand
  | ErrUnsupportedAddr
  | ErrInvalidCiphertext
  | Errorf string
  | OpError string error
  | NetErr bool string
  | CloseError nat

text \<open>How a call ends: with a value, with a non-nil error, or in a run-time panic.\<close>

datatype 'a go = Ok 'a | Err error | Panic string

subsection \<open>Slices\<close>

text \<open>
  The slice expression \<open>xs[a:b]\<close>: Go panics unless \<open>a \<le> b\<close> and \<open>b\<close> is within the capacity;
  the program slices only up to the length, so the capacity is the length here.
\<close>

definition go_slice :: "'a list \<Rightarrow> nat \<Rightarrow> nat \<Rightarrow> 'a list go" where
  "go_slice xs a b =
     (if a \<le> b \<and> b \<le> length xs then Ok (drop a (take b xs))
      else Panic ''slice bounds out of range'')"

lemma go_slice_ok [go_simps]:
  "a \<le> b \<Longrightarrow> b \<le> length xs \<Longrightarrow> go_slice xs a b = Ok (drop a (take b xs))"
  by (simp add: go_slice_def)

lemma go_slice_panic [go_simps]:
  "b < a \<or> length xs < b \<Longrightarrow> go_slice xs a b = Panic ''slice bounds out of range''"
  by (auto simp: go_slice_def)

text \<open>\<^verbatim>\<open>copy(dst, src)\<close> into a buffer of \<open>k\<close> bytes delivers this prefix of the source.\<close>

definition go_copy :: "nat \<Rightarrow> 'a list \<Rightarrow> 'a list" where
  "go_copy k src = take k src"

lemma length_go_copy [simp]: "length (go_copy k src) = min k (length src)"
  by (simp add: go_copy_def min.commute)

lemma go_copy_all [simp]: "length src \<le> k \<Longrightarrow> go_copy k src = src"
  by (simp add: go_copy_def)

subsection \<open>Big-endian integers (\<^verbatim>\<open>encoding/binary\<close>)\<close>

definition put_be16 :: "u16 \<Rightarrow> bytes" where
  "put_be16 v = [ucast (drop_bit 8 v), ucast v]"

definition put_be32 :: "u32 \<Rightarrow> bytes" where
  "put_be32 v = [ucast (drop_bit 24 v), ucast (drop_bit 16 v), ucast (drop_bit 8 v), ucast v]"

fun be16 :: "bytes \<Rightarrow> u16" where
  "be16 (b0 # b1 # _) = push_bit 8 (ucast b0) OR ucast b1"
| "be16 _ = 0"

fun be32 :: "bytes \<Rightarrow> u32" where
  "be32 (b0 # b1 # b2 # b3 # _) =
     push_bit 24 (ucast b0) OR push_bit 16 (ucast b1) OR push_bit 8 (ucast b2) OR ucast b3"
| "be32 _ = 0"

lemma length_put_be16 [simp]: "length (put_be16 v) = 2"
  by (simp add: put_be16_def)

lemma length_put_be32 [simp]: "length (put_be32 v) = 4"
  by (simp add: put_be32_def)

lemma be16_put_be16 [be_simps]: "be16 (put_be16 v @ xs) = v"
  by (simp add: put_be16_def) (rule bit_word_eqI, auto simp: bit_simps)

lemma be32_put_be32 [be_simps]: "be32 (put_be32 v @ xs) = v"
proof (rule bit_word_eqI)
  fix n assume "n < LENGTH(32)"
  then show "bit (be32 (put_be32 v @ xs)) n = bit v n"
    by (cases "n < 8"; cases "n < 16"; cases "n < 24") (auto simp: put_be32_def bit_simps)
qed

lemma be16_put_be16_Nil [be_simps]: "be16 (put_be16 v) = v"
  using be16_put_be16 [of v "[]"] by simp

lemma be32_put_be32_Nil [be_simps]: "be32 (put_be32 v) = v"
  using be32_put_be32 [of v "[]"] by simp

lemma put_be16_be16 [be_simps]: "length bs = 2 \<Longrightarrow> put_be16 (be16 bs) = bs"
proof -
  assume "length bs = 2"
  then obtain a b where "bs = [a, b]"
    by (auto simp: numeral_2_eq_2 length_Suc_conv)
  then show ?thesis
    by (auto simp: put_be16_def bit_eq_iff bit_simps dest: bit_imp_le_length)
qed

end
