(* ===== verification/Go_IO.thy ===== *)
theory Go_IO
  imports Go_Prelude
begin

text \<open>
  The parts of \<^verbatim>\<open>io\<close> and \<^verbatim>\<open>bufio\<close> the program reads and writes with.

  A reader is the sequence of chunks its successive \<open>Read\<close> calls find, followed by the error
  it ends with (\<open>EOF\<close> when the peer closed in an orderly way).  \<open>Read\<close> hands out at most one
  chunk per call, so how the bytes are split over calls is visible to a caller that looks;
  \<open>ReadFull\<close> and \<open>CopyN\<close> are the library's own loops over \<open>Read\<close>.  The relation \<open>reads r s e\<close>
  forgets the chunk boundaries.  The locale \<open>exact_reader\<close> states what an exact read promises
  about the remaining byte string, and \<open>ReadFull\<close> is interpreted as one.

  A writer collects what was accepted and can be given a budget after which it fails; a buffered
  writer is \<^verbatim>\<open>bufio.Writer\<close> with its 4096-byte buffer and sticky error.  The locale
  \<open>byte_sink\<close> states what a writer promises while it does not fail; both are interpreted.
\<close>

subsection \<open>Readers\<close>

record reader =
  chunks :: "bytes list"
  fin :: error

definition stream :: "reader \<Rightarrow> bytes" where
  "stream r = concat (chunks r)"

text \<open>A reader that never returns zero bytes without an error, as a pipe or a socket does not.\<close>

definition productive :: "reader \<Rightarrow> bool" where
  "productive r \<longleftrightarrow> [] \<notin> set (chunks r)"

definition reads :: "reader \<Rightarrow> bytes \<Rightarrow> error \<Rightarrow> bool" where
  "reads r s e \<longleftrightarrow> productive r \<and> stream r = s \<and> fin r = e"

definition Read :: "nat \<Rightarrow> reader \<Rightarrow> (bytes \<times> error option) \<times> reader" where
  "Read k r =
     (if k = 0 then (([], None), r)
      else case chunks r of
        [] \<Rightarrow> (([], Some (fin r)), r)
      | c # cs \<Rightarrow>
          if length c \<le> k then ((c, None), r\<lparr>chunks := cs\<rparr>)
          else ((take k c, None), r\<lparr>chunks := drop k c # cs\<rparr>))"

text \<open>The number of bytes and chunks still to come: every \<open>Read\<close> of at least one byte lowers it.\<close>

definition pending :: "reader \<Rightarrow> nat" where
  "pending r = length (stream r) + length (chunks r)"

lemma Read_pending:
  "0 < k \<Longrightarrow> Read k r = ((p, None), r') \<Longrightarrow> pending r' < pending r"
  by (auto simp: Read_def pending_def stream_def split: if_splits list.splits)

lemma Read_pending_min:
  "0 < m \<Longrightarrow> ((p, None), r') = Read (min 8192 m) r \<Longrightarrow> pending r' < pending r"
  using Read_pending [of "min 8192 m" r p r'] by simp

lemma Read_error:
  "Read k r = ((p, Some e), r') \<Longrightarrow> p = [] \<and> e = fin r \<and> r' = r \<and> chunks r = []"
  by (auto simp: Read_def split: if_splits list.splits)

lemma Read_pending_le: "Read k r = (x, r') \<Longrightarrow> pending r' \<le> pending r"
  by (auto simp: Read_def pending_def stream_def split: if_splits list.splits)

text \<open>\<^verbatim>\<open>io.ReadAtLeast\<close> with the buffer exactly the minimum, the loop of \<open>ReadFull\<close>.\<close>

function read_loop :: "nat \<Rightarrow> reader \<Rightarrow> (bytes \<times> error option) \<times> reader" where
  "read_loop m r =
     (if m = 0 then (([], None), r)
      else case Read m r of
        ((p, Some e), r') \<Rightarrow> ((p, Some e), r')
      | ((p, None), r') \<Rightarrow>
          (case read_loop (m - length p) r' of ((q, e), r'') \<Rightarrow> ((p @ q, e), r'')))"
  by pat_completeness auto
termination
  by (relation "measure (\<lambda>(m, r). pending r)") (auto dest: Read_pending [OF _ sym])

declare read_loop.simps [simp del]

definition ReadFull :: "nat \<Rightarrow> reader \<Rightarrow> (error + bytes) \<times> reader" where
  "ReadFull k r =
     (case read_loop k r of
        ((p, None), r') \<Rightarrow> (Inr p, r')
      | ((p, Some e), r') \<Rightarrow>
          (if k \<le> length p then Inr p
           else if p \<noteq> [] \<and> e = EOF then Inl ErrUnexpectedEOF
           else Inl e, r'))"

text \<open>
  \<^verbatim>\<open>io.CopyN(io.Discard, r, n)\<close>: \<open>Discard\<close> reads through an 8192-byte buffer from a
  reader limited to \<open>n\<close> bytes until that reports the end.
\<close>

function discard_loop :: "nat \<Rightarrow> reader \<Rightarrow> (nat \<times> error option) \<times> reader" where
  "discard_loop m r =
     (if m = 0 then ((0, None), r)
      else case Read (min 8192 m) r of
        ((p, Some e), r') \<Rightarrow> ((length p, if e = EOF then None else Some e), r')
      | ((p, None), r') \<Rightarrow>
          (case discard_loop (m - length p) r' of ((n, e), r'') \<Rightarrow> ((length p + n, e), r'')))"
  by pat_completeness auto
termination
  by (relation "measure (\<lambda>(m, r). pending r)") (auto dest: Read_pending_min)

declare discard_loop.simps [simp del]

definition CopyN :: "nat \<Rightarrow> reader \<Rightarrow> (nat \<times> error option) \<times> reader" where
  "CopyN n r =
     (case discard_loop n r of ((written, e), r') \<Rightarrow>
        ((written, if written = n then None
                   else if written < n \<and> e = None then Some EOF else e), r'))"

lemma read_loop_pending: "read_loop m r = (x, r') \<Longrightarrow> pending r' \<le> pending r"
proof (induction m r arbitrary: x r' rule: read_loop.induct)
  case (1 m r)
  show ?case
  proof (cases "m = 0")
    case True
    with "1.prems" show ?thesis by (simp add: read_loop.simps)
  next
    case False
    obtain p e r1 where rd: "Read m r = ((p, e), r1)" by (metis prod.exhaust)
    then have le: "pending r1 \<le> pending r" by (rule Read_pending_le)
    show ?thesis
    proof (cases e)
      case None
      with "1.IH" False rd have "\<And>x r'. read_loop (m - length p) r1 = (x, r') \<Longrightarrow> pending r' \<le> pending r1"
        by auto
      with "1.prems" rd None False le show ?thesis
        by (subst (asm) read_loop.simps) (fastforce split: prod.splits)
    next
      case (Some e')
      with "1.prems" rd False le show ?thesis by (subst (asm) read_loop.simps) auto
    qed
  qed
qed

lemma discard_loop_pending: "discard_loop m r = (x, r') \<Longrightarrow> pending r' \<le> pending r"
proof (induction m r arbitrary: x r' rule: discard_loop.induct)
  case (1 m r)
  show ?case
  proof (cases "m = 0")
    case True
    with "1.prems" show ?thesis by (simp add: discard_loop.simps)
  next
    case False
    obtain p e r1 where rd: "Read (min 8192 m) r = ((p, e), r1)" by (metis prod.exhaust)
    then have le: "pending r1 \<le> pending r" by (rule Read_pending_le)
    show ?thesis
    proof (cases e)
      case None
      with "1.IH" False rd have "\<And>x r'. discard_loop (m - length p) r1 = (x, r') \<Longrightarrow> pending r' \<le> pending r1"
        by auto
      with "1.prems" rd None False le show ?thesis
        by (subst (asm) discard_loop.simps) (fastforce split: prod.splits)
    next
      case (Some e')
      with "1.prems" rd False le show ?thesis by (subst (asm) discard_loop.simps) auto
    qed
  qed
qed

lemma ReadFull_pending: "ReadFull k r = (x, r') \<Longrightarrow> pending r' \<le> pending r"
  by (auto simp: ReadFull_def split: prod.splits option.splits dest: read_loop_pending)

lemma CopyN_pending: "CopyN k r = (x, r') \<Longrightarrow> pending r' \<le> pending r"
  by (auto simp: CopyN_def split: prod.splits dest: discard_loop_pending)

subsection \<open>Reading without looking at the chunk boundaries\<close>

lemma reads_Nil: "reads r [] e \<longleftrightarrow> chunks r = [] \<and> fin r = e"
  by (cases "chunks r") (auto simp: reads_def productive_def stream_def)

lemma Read_end: "reads r [] e \<Longrightarrow> 0 < k \<Longrightarrow> Read k r = (([], Some e), r)"
  by (simp add: reads_Nil Read_def)

lemma Read_some:
  assumes "reads r s e" "s \<noteq> []" "0 < k"
  obtains p s' r' where "Read k r = ((p, None), r')" "p \<noteq> []" "length p \<le> k" "s = p @ s'"
    "reads r' s' e"
proof -
  obtain c cs where c: "chunks r = c # cs" "c \<noteq> []"
    using assms(1,2) by (cases "chunks r") (auto simp: reads_def productive_def stream_def)
  show thesis
  proof (cases "length c \<le> k")
    case True
    with c assms show thesis
      by (intro that [of c "r\<lparr>chunks := cs\<rparr>" "concat cs"])
        (auto simp: Read_def reads_def productive_def stream_def)
  next
    case False
    with c assms show thesis
      by (intro that [of "take k c" "r\<lparr>chunks := drop k c # cs\<rparr>" "drop k c @ concat cs"])
        (auto simp: Read_def reads_def productive_def stream_def simp flip: append_assoc)
  qed
qed

lemma Read_one:
  assumes "reads r (b # s) e"
  obtains r' where "Read 1 r = (([b], None), r')" "reads r' s e"
proof -
  obtain p s' r' where *: "Read 1 r = ((p, None), r')" "p \<noteq> []" "length p \<le> 1" "b # s = p @ s'"
    "reads r' s' e"
    by (rule Read_some [OF assms _ zero_less_one]) auto
  then have "p = [b]" "s' = s" by (cases p; auto)+
  with * show thesis using that by blast
qed

lemma read_loop_ok:
  "reads r (xs @ ys) e \<Longrightarrow> length xs = m \<Longrightarrow> \<exists>r'. read_loop m r = ((xs, None), r') \<and> reads r' ys e"
proof (induction m r arbitrary: xs rule: read_loop.induct)
  case (1 m r)
  show ?case
  proof (cases "m = 0")
    case True
    with "1.prems" show ?thesis by (auto simp: read_loop.simps)
  next
    case False
    with "1.prems" have "xs @ ys \<noteq> []" by auto
    then obtain p s' r1 where rd: "Read m r = ((p, None), r1)" "p \<noteq> []" "length p \<le> m"
      "xs @ ys = p @ s'" "reads r1 s' e"
      using Read_some [OF "1.prems"(1)] False by blast
    define xs' where "xs' = drop (length p) xs"
    have xs: "xs = p @ xs'" and s': "s' = xs' @ ys"
      using rd(3,4) "1.prems"(2) by (auto simp: xs'_def append_eq_append_conv_if append_eq_conv_conj)
    have "\<exists>r'. read_loop (m - length p) r1 = ((xs', None), r') \<and> reads r' ys e"
      using "1.IH" [OF False rd(1) [symmetric] refl refl, of xs'] rd(5) s' xs "1.prems"(2) by simp
    with rd xs False show ?thesis by (subst read_loop.simps) auto
  qed
qed

lemma read_loop_short:
  "reads r s e \<Longrightarrow> length s < m \<Longrightarrow> \<exists>r'. read_loop m r = ((s, Some e), r') \<and> reads r' [] e"
proof (induction m r arbitrary: s rule: read_loop.induct)
  case (1 m r)
  show ?case
  proof (cases "s = []")
    case True
    with "1.prems" show ?thesis by (subst read_loop.simps) (auto simp: Read_end)
  next
    case False
    have m: "m \<noteq> 0" using "1.prems"(2) by simp
    obtain p s' r1 where rd: "Read m r = ((p, None), r1)" "p \<noteq> []" "length p \<le> m"
      "s = p @ s'" "reads r1 s' e"
      using Read_some [OF "1.prems"(1) False] m by blast
    then have "\<exists>r'. read_loop (m - length p) r1 = ((s', Some e), r') \<and> reads r' [] e"
      using "1.IH" [OF m rd(1) [symmetric] refl refl, of s'] "1.prems"(2) by auto
    with rd m show ?thesis by (subst read_loop.simps) auto
  qed
qed

lemma ReadFull_ok:
  "reads r (xs @ ys) e \<Longrightarrow> \<exists>r'. ReadFull (length xs) r = (Inr xs, r') \<and> reads r' ys e"
  using read_loop_ok [of r xs ys e "length xs"] by (auto simp: ReadFull_def)

definition short_read :: "bytes \<Rightarrow> error \<Rightarrow> error" where
  "short_read s e = (if s \<noteq> [] \<and> e = EOF then ErrUnexpectedEOF else e)"

lemma ReadFull_short:
  "reads r s e \<Longrightarrow> length s < k \<Longrightarrow>
     \<exists>r'. ReadFull k r = (Inl (short_read s e), r') \<and> reads r' [] e"
  using read_loop_short [of r s e k] by (auto simp: ReadFull_def short_read_def)

lemma discard_loop_ok:
  "reads r (xs @ ys) e \<Longrightarrow> length xs = m \<Longrightarrow> \<exists>r'. discard_loop m r = ((m, None), r') \<and> reads r' ys e"
proof (induction m r arbitrary: xs rule: discard_loop.induct)
  case (1 m r)
  show ?case
  proof (cases "m = 0")
    case True
    with "1.prems" show ?thesis by (auto simp: discard_loop.simps)
  next
    case False
    with "1.prems" have "xs @ ys \<noteq> []" "0 < min 8192 m" by auto
    then obtain p s' r1 where rd: "Read (min 8192 m) r = ((p, None), r1)" "p \<noteq> []"
      "length p \<le> min 8192 m" "xs @ ys = p @ s'" "reads r1 s' e"
      using Read_some [OF "1.prems"(1)] by blast
    define xs' where "xs' = drop (length p) xs"
    have xs: "xs = p @ xs'" and s': "s' = xs' @ ys"
      using rd(3,4) "1.prems"(2) by (auto simp: xs'_def append_eq_append_conv_if append_eq_conv_conj)
    have "\<exists>r'. discard_loop (m - length p) r1 = ((m - length p, None), r') \<and> reads r' ys e"
      using "1.IH" [OF False rd(1) [symmetric] refl refl, of xs'] rd(5) s' xs "1.prems"(2) by simp
    with rd xs False "1.prems"(2) show ?thesis by (subst discard_loop.simps) auto
  qed
qed

lemma discard_loop_short:
  "reads r s e \<Longrightarrow> length s < m \<Longrightarrow>
     \<exists>r'. discard_loop m r = ((length s, if e = EOF then None else Some e), r') \<and> reads r' [] e"
proof (induction m r arbitrary: s rule: discard_loop.induct)
  case (1 m r)
  show ?case
  proof (cases "s = []")
    case True
    with "1.prems" show ?thesis by (subst discard_loop.simps) (auto simp: Read_end)
  next
    case False
    have m: "m \<noteq> 0" "0 < min 8192 m" using "1.prems"(2) by auto
    obtain p s' r1 where rd: "Read (min 8192 m) r = ((p, None), r1)" "p \<noteq> []"
      "length p \<le> min 8192 m" "s = p @ s'" "reads r1 s' e"
      using Read_some [OF "1.prems"(1) False m(2)] by blast
    then have "\<exists>r'. discard_loop (m - length p) r1 =
        ((length s', if e = EOF then None else Some e), r') \<and> reads r' [] e"
      using "1.IH" [OF m(1) rd(1) [symmetric] refl refl, of s'] "1.prems"(2) by auto
    with rd m show ?thesis by (subst discard_loop.simps) auto
  qed
qed

lemma CopyN_ok:
  "reads r (xs @ ys) e \<Longrightarrow> \<exists>r'. CopyN (length xs) r = ((length xs, None), r') \<and> reads r' ys e"
  using discard_loop_ok [of r xs ys e "length xs"] by (auto simp: CopyN_def)

lemma CopyN_short:
  "reads r s e \<Longrightarrow> length s < k \<Longrightarrow> \<exists>r'. CopyN k r = ((length s, Some e), r') \<and> reads r' [] e"
  using discard_loop_short [of r s e k] by (auto simp: CopyN_def)

subsection \<open>The contract of an exact read\<close>

text \<open>
  What a caller of \<open>ReadFull\<close> relies on: the bytes it asked for, or, when the source ends
  first, the source's error (an end of file in the middle becoming \<open>ErrUnexpectedEOF\<close>).
\<close>

locale exact_reader =
  fixes rd :: "nat \<Rightarrow> 'r \<Rightarrow> (error + bytes) \<times> 'r"
    and src :: "'r \<Rightarrow> bytes \<Rightarrow> error \<Rightarrow> bool"
  assumes rd_ok: "src r (xs @ ys) e \<Longrightarrow> \<exists>r'. rd (length xs) r = (Inr xs, r') \<and> src r' ys e"
    and rd_short: "src r s e \<Longrightarrow> length s < k \<Longrightarrow>
      \<exists>r'. rd k r = (Inl (short_read s e), r') \<and> src r' [] e"
begin

lemma rd_cases:
  assumes "src r s e"
  obtains (ok) r' where "k \<le> length s" "rd k r = (Inr (take k s), r')" "src r' (drop k s) e"
  | (short) r' where "length s < k" "rd k r = (Inl (short_read s e), r')" "src r' [] e"
proof (cases "k \<le> length s")
  case True
  then have "src r (take k s @ drop k s) e" "length (take k s) = k" using assms by simp_all
  then show thesis using rd_ok [of r "take k s" "drop k s" e] True ok by auto
next
  case False
  then show thesis using rd_short [OF assms, of k] short by auto
qed

lemma rd_field:
  assumes "src r (xs @ ys) e" "k = length xs"
  obtains r' where "rd k r = (Inr xs, r')" "src r' ys e"
  using rd_ok [OF assms(1)] assms(2) by blast

lemma rd_byte:
  assumes "src r (b # ys) e"
  obtains r' where "rd 1 r = (Inr [b], r')" "src r' ys e"
  by (rule rd_field [of r "[b]" ys e 1]) (use assms in auto)

lemma rd_result_length: "src r s e \<Longrightarrow> rd k r = (Inr xs, r') \<Longrightarrow> length xs = k"
  by (rule rd_cases [of r s e k]) auto

end

interpretation full: exact_reader ReadFull reads
  by unfold_locales (simp_all add: ReadFull_ok ReadFull_short)

subsection \<open>Writers\<close>

text \<open>
  \<open>budget = Some b\<close>: the destination accepts \<open>b\<close> more bytes and then fails with \<open>werr\<close>,
  reporting the short count, as \<^verbatim>\<open>io.Writer\<close> demands.
\<close>

record writer =
  sent :: bytes
  budget :: "nat option"
  werr :: error

definition Write :: "writer \<Rightarrow> bytes \<Rightarrow> (nat \<times> error option) \<times> writer" where
  "Write w p =
     (case budget w of
        None \<Rightarrow> ((length p, None), w\<lparr>sent := sent w @ p\<rparr>)
      | Some b \<Rightarrow>
          if length p \<le> b then
            ((length p, None), w\<lparr>sent := sent w @ p, budget := Some (b - length p)\<rparr>)
          else ((b, Some (werr w)), w\<lparr>sent := sent w @ take b p, budget := Some 0\<rparr>))"

text \<open>\<^verbatim>\<open>bufio.Writer\<close> with the default buffer.\<close>

record bufwriter =
  wbuf :: bytes
  berr :: "error option"
  under :: writer

abbreviation bufio_size :: nat where "bufio_size \<equiv> 4096"

definition NewWriter :: "writer \<Rightarrow> bufwriter" where
  "NewWriter w = \<lparr>wbuf = [], berr = None, under = w\<rparr>"

definition Flush :: "bufwriter \<Rightarrow> error option \<times> bufwriter" where
  "Flush b =
     (case berr b of
        Some e \<Rightarrow> (Some e, b)
      | None \<Rightarrow>
          if wbuf b = [] then (None, b)
          else case Write (under b) (wbuf b) of
            ((n, Some e), w) \<Rightarrow> (Some e, b\<lparr>wbuf := drop n (wbuf b), berr := Some e, under := w\<rparr>)
          | ((n, None), w) \<Rightarrow> (None, b\<lparr>wbuf := [], under := w\<rparr>))"

function bufio_Write :: "bufwriter \<Rightarrow> bytes \<Rightarrow> (nat \<times> error option) \<times> bufwriter" where
  "bufio_Write b p =
     (if bufio_size - length (wbuf b) < length p \<and> berr b = None then
        if wbuf b = [] then
          (case Write (under b) p of ((n, e), w) \<Rightarrow>
             if e = None then ((n, None), b\<lparr>under := w\<rparr>)
             else ((n, e), b\<lparr>under := w, berr := e\<rparr>))
        else
          (let n = bufio_size - length (wbuf b);
               b1 = snd (Flush (b\<lparr>wbuf := wbuf b @ take n p\<rparr>))
           in case berr b1 of
                Some e \<Rightarrow> ((n, Some e), b1)
              | None \<Rightarrow> (case bufio_Write b1 (drop n p) of ((m, e), b2) \<Rightarrow> ((n + m, e), b2)))
      else case berr b of
        Some e \<Rightarrow> ((0, Some e), b)
      | None \<Rightarrow> ((length p, None), b\<lparr>wbuf := wbuf b @ p\<rparr>))"
  by pat_completeness auto
termination
  by (relation "measure (\<lambda>(b, p). length p + (if wbuf b = [] then 0 else 1))")
    (auto simp: Flush_def Let_def split: option.splits prod.splits if_splits)

declare bufio_Write.simps [simp del]

text \<open>What every writer promises as long as it does not fail.\<close>

locale byte_sink =
  fixes wr :: "'w \<Rightarrow> bytes \<Rightarrow> (nat \<times> error option) \<times> 'w"
    and healthy :: "'w \<Rightarrow> bool"
    and content :: "'w \<Rightarrow> bytes"
  assumes wr_ok: "healthy w \<Longrightarrow>
    \<exists>w'. wr w p = ((length p, None), w') \<and> healthy w' \<and> content w' = content w @ p"
begin

lemma wr_result:
  assumes "healthy w"
  obtains w' where "wr w p = ((length p, None), w')" "healthy w'" "content w' = content w @ p"
  using wr_ok [OF assms] by blast

end

definition unlimited :: "writer \<Rightarrow> bool" where
  "unlimited w \<longleftrightarrow> budget w = None"

interpretation plain: byte_sink Write unlimited sent
  by unfold_locales (simp add: Write_def unlimited_def)

definition buf_healthy :: "bufwriter \<Rightarrow> bool" where
  "buf_healthy b \<longleftrightarrow> berr b = None \<and> unlimited (under b) \<and> length (wbuf b) \<le> bufio_size"

definition buf_content :: "bufwriter \<Rightarrow> bytes" where
  "buf_content b = sent (under b) @ wbuf b"

lemma Flush_healthy:
  assumes "buf_healthy b"
  obtains b' where "Flush b = (None, b')" "buf_healthy b'" "wbuf b' = []"
    "sent (under b') = buf_content b"
proof
  define b' where "b' = (if wbuf b = [] then b else
    b\<lparr>wbuf := [], under := (under b)\<lparr>sent := sent (under b) @ wbuf b\<rparr>\<rparr>)"
  show "Flush b = (None, b')"
    using assms by (auto simp: b'_def buf_healthy_def Flush_def Write_def unlimited_def)
  show "buf_healthy b'" "wbuf b' = []" "sent (under b') = buf_content b"
    using assms by (auto simp: b'_def buf_healthy_def buf_content_def unlimited_def)
qed

lemma bufio_Write_ok:
  "buf_healthy b \<Longrightarrow>
     \<exists>b'. bufio_Write b p = ((length p, None), b') \<and> buf_healthy b' \<and> buf_content b' = buf_content b @ p"
proof (induction b p rule: bufio_Write.induct)
  case (1 b p)
  let ?n = "bufio_size - length (wbuf b)"
  let ?f = "b\<lparr>wbuf := wbuf b @ take ?n p\<rparr>"
  consider (fits) "length p \<le> ?n" | (direct) "?n < length p" "wbuf b = []"
    | (fill) "?n < length p" "wbuf b \<noteq> []" by linarith
  then show ?case
  proof cases
    case fits
    with "1.prems" show ?thesis
      by (subst bufio_Write.simps) (auto simp: buf_healthy_def buf_content_def)
  next
    case direct
    with "1.prems" show ?thesis
      by (subst bufio_Write.simps) (auto simp: buf_healthy_def buf_content_def Write_def unlimited_def)
  next
    case fill
    have "buf_healthy ?f" using "1.prems" by (auto simp: buf_healthy_def)
    then obtain b1 where b1: "Flush ?f = (None, b1)" "buf_healthy b1" "wbuf b1 = []"
      "sent (under b1) = buf_content ?f" by (rule Flush_healthy)
    have e: "berr b = None" "berr b1 = None" using "1.prems" b1(2) by (auto simp: buf_healthy_def)
    obtain b2 where b2: "bufio_Write b1 (drop ?n p) = ((length (drop ?n p), None), b2)"
      "buf_healthy b2" "buf_content b2 = buf_content b1 @ drop ?n p"
      using "1.IH" [of ?n b1] fill e b1 by auto
    have "buf_content b1 = buf_content b @ take ?n p"
      using b1(3,4) by (simp add: buf_content_def)
    with b2 fill e b1(1) show ?thesis
      by (subst bufio_Write.simps) (auto simp: Let_def)
  qed
qed

interpretation buffered: byte_sink bufio_Write buf_healthy buf_content
  by unfold_locales (rule bufio_Write_ok)

end
