(* ===== verification/Encapsulation.thy ===== *)
theory Encapsulation
  imports Go_IO
begin

text \<open>
  \<^verbatim>\<open>snowflake/common/encapsulation/encapsulation.go\<close>: data and padding chunks in a byte
  stream, each behind a length prefix of one to three bytes.  \<open>ReadData\<close>, \<open>dataPrefixForLength\<close>,
  \<open>WriteData\<close>, \<open>WritePadding\<close> and \<open>MaxDataForSize\<close> follow the source; a writer is passed as its
  \<open>Write\<close> method, the way the interface value carries it.  \<open>decode\<close> is the format as the package
  comment describes it, on plain byte strings with arithmetic instead of masks and shifts, and
  \<open>ReadData_decode\<close> is the proof that the reader implements it for every way the bytes are split
  over \<open>Read\<close> calls.
\<close>

unbundle bit_operations_syntax

subsection \<open>The reader\<close>

text \<open>
  The loop over the continuation bytes.  \<open>b\<close> is the one-byte buffer: a \<open>Read\<close> that returns no
  byte and no error leaves the previous byte in it.
\<close>

function read_length :: "nat \<Rightarrow> bool \<Rightarrow> byte \<Rightarrow> int \<Rightarrow> reader \<Rightarrow> (error + int) \<times> reader" where
  "read_length i moreLength b n r =
     (if \<not> moreLength then (Inr n, r)
      else if 2 \<le> i then (Inl ErrTooLong, r)
      else case Read 1 r of
        ((p, Some e), r') \<Rightarrow> (Inl (if e = EOF then ErrUnexpectedEOF else e), r')
      | ((p, None), r') \<Rightarrow>
          (let b' = (case p of [] \<Rightarrow> b | x # _ \<Rightarrow> x)
           in read_length (Suc i) (b' AND 0x80 \<noteq> 0) b' (push_bit 7 n OR uint (b' AND 0x7f)) r'))"
  by pat_completeness auto
termination
  by (relation "measure (\<lambda>(i, _). 2 - i)") auto

declare read_length.simps [simp del]

lemma read_length_pending: "read_length i cont b n r = (x, r') \<Longrightarrow> pending r' \<le> pending r"
proof (induction i cont b n r arbitrary: x r' rule: read_length.induct)
  case (1 i cont b n r)
  show ?case
  proof (cases "\<not> cont \<or> 2 \<le> i")
    case True
    with "1.prems" show ?thesis by (subst (asm) read_length.simps) (auto split: if_splits)
  next
    case False
    obtain p e r1 where rd: "Read 1 r = ((p, e), r1)" by (metis prod.exhaust)
    then have le: "pending r1 \<le> pending r" by (rule Read_pending_le)
    show ?thesis
    proof (cases e)
      case None
      with "1.IH" False rd have "\<And>b' x r'. b' = (case p of [] \<Rightarrow> b | x # _ \<Rightarrow> x) \<Longrightarrow>
        read_length (Suc i) (b' AND 0x80 \<noteq> 0) b' (push_bit 7 n OR uint (b' AND 0x7f)) r1 = (x, r') \<Longrightarrow>
        pending r' \<le> pending r1" by simp
      with "1.prems" rd None False le show ?thesis
        by (subst (asm) read_length.simps) (auto simp: Let_def intro: order_trans)
    next
      case (Some e')
      with "1.prems" rd False le show ?thesis by (subst (asm) read_length.simps) auto
    qed
  qed
qed

function ReadData :: "reader \<Rightarrow> (error + bytes) \<times> reader" where
  "ReadData r =
     (case Read 1 r of
        ((p, Some e), r1) \<Rightarrow> (Inl e, r1)
      | ((p, None), r1) \<Rightarrow>
          (let b = (case p of [] \<Rightarrow> 0 | x # _ \<Rightarrow> x);
               isData = (b AND 0x80 \<noteq> 0);
               moreLength = (b AND 0x40 \<noteq> 0)
           in case read_length 0 moreLength b (uint (b AND 0x3f)) r1 of
                (Inl e, r2) \<Rightarrow> (Inl e, r2)
              | (Inr n, r2) \<Rightarrow>
                  if isData then
                    (case ReadFull (nat n) r2 of
                       (Inl e, r3) \<Rightarrow> (Inl (if e = EOF then ErrUnexpectedEOF else e), r3)
                     | (Inr p, r3) \<Rightarrow> (Inr p, r3))
                  else
                    (case CopyN (nat n) r2 of
                       ((_, Some e), r3) \<Rightarrow> (Inl (if e = EOF then ErrUnexpectedEOF else e), r3)
                     | ((_, None), r3) \<Rightarrow> ReadData r3)))"
  by pat_completeness auto
termination
proof (relation "measure pending", goal_cases)
  case 1
  then show ?case by simp
next
  case (2 r x r1 p e b isData cont y r2 n z r3 w err)
  then have "pending r1 < pending r" using Read_pending [of 1 r p r1] by simp
  moreover have "pending r2 \<le> pending r1"
    using "2" read_length_pending [of 0 cont b "uint (b AND 0x3f)" r1 y r2] by simp
  moreover have "pending r3 \<le> pending r2"
    using "2" CopyN_pending [of "nat n" r2 z r3] by simp
  ultimately show ?case by simp
qed

declare ReadData.simps [simp del]

subsection \<open>The writer\<close>

definition dataPrefixForLength :: "int \<Rightarrow> error + bytes" where
  "dataPrefixForLength n =
     (if drop_bit 0 n AND 0x3f = drop_bit 0 n then
        Inr [0x80 OR word_of_int (drop_bit 0 n AND 0x3f)]
      else if drop_bit 7 n AND 0x3f = drop_bit 7 n then
        Inr [0xc0 OR word_of_int (drop_bit 7 n AND 0x3f), word_of_int (drop_bit 0 n AND 0x7f)]
      else if drop_bit 14 n AND 0x3f = drop_bit 14 n then
        Inr [0xc0 OR word_of_int (drop_bit 14 n AND 0x3f),
             0x80 OR word_of_int (drop_bit 7 n AND 0x7f),
             word_of_int (drop_bit 0 n AND 0x7f)]
      else Inl ErrTooLong)"

definition WriteData ::
  "('w \<Rightarrow> bytes \<Rightarrow> (nat \<times> error option) \<times> 'w) \<Rightarrow> 'w \<Rightarrow> bytes \<Rightarrow> (nat \<times> error option) \<times> 'w" where
  "WriteData wr w data =
     (case dataPrefixForLength (int (length data)) of
        Inl e \<Rightarrow> ((0, Some e), w)
      | Inr prefix \<Rightarrow>
          (case wr w prefix of
             ((n, Some e), w1) \<Rightarrow> ((n, Some e), w1)
           | ((n, None), w1) \<Rightarrow>
               (case wr w1 data of ((m, e), w2) \<Rightarrow> ((n + m, e), w2))))"

definition paddingBuffer :: bytes where
  "paddingBuffer = replicate 1024 0"

text \<open>One round of the padding loop: the prefix written for a chunk of \<open>p\<close> bytes in all, and how much follows.\<close>

definition padding_prefix :: "int \<Rightarrow> bytes \<times> int" where
  "padding_prefix p =
     (if drop_bit 0 (p - 1) AND 0x3f = drop_bit 0 (p - 1) then
        (let p = p - 1 in ([word_of_int (drop_bit 0 p AND 0x3f)], p))
      else if drop_bit 7 (p - 2) AND 0x3f = drop_bit 7 (p - 2) then
        (let p = p - 2 in
          ([0x40 OR word_of_int (drop_bit 7 p AND 0x3f), word_of_int (drop_bit 0 p AND 0x7f)], p))
      else if drop_bit 14 (p - 3) AND 0x3f = drop_bit 14 (p - 3) then
        (let p = p - 3 in
          ([0x40 OR word_of_int (drop_bit 14 p AND 0x3f), 0x80 OR word_of_int (drop_bit 7 p AND 0x3f),
            word_of_int (drop_bit 0 p AND 0x7f)], p))
      else ([], p))"

function padding_loop ::
  "('w \<Rightarrow> bytes \<Rightarrow> (nat \<times> error option) \<times> 'w) \<Rightarrow> 'w \<Rightarrow> int \<Rightarrow> nat \<Rightarrow> (nat \<times> error option) \<times> 'w"
where
  "padding_loop wr w n tot =
     (if \<not> 0 < n then ((tot, None), w)
      else
        (let p = min (int (length paddingBuffer)) n;
             (prefix, q) = padding_prefix p
         in case wr w prefix of
              ((nn, Some e), w1) \<Rightarrow> ((tot + nn, Some e), w1)
            | ((nn, None), w1) \<Rightarrow>
                (case wr w1 (take (nat q) paddingBuffer) of
                   ((mm, Some e), w2) \<Rightarrow> ((tot + nn + mm, Some e), w2)
                 | ((mm, None), w2) \<Rightarrow> padding_loop wr w2 (n - p) (tot + nn + mm))))"
  by pat_completeness auto
termination
  by (relation "measure (\<lambda>(_, _, n, _). nat n)") (auto simp: paddingBuffer_def)

declare padding_loop.simps [simp del]

definition WritePadding ::
  "('w \<Rightarrow> bytes \<Rightarrow> (nat \<times> error option) \<times> 'w) \<Rightarrow> 'w \<Rightarrow> int \<Rightarrow> ((nat \<times> error option) \<times> 'w) go" where
  "WritePadding wr w n = (if n < 0 then Panic ''negative length'' else Ok (padding_loop wr w n 0))"

definition MaxDataForSize :: "int \<Rightarrow> int go" where
  "MaxDataForSize n =
     (if n = 0 then Panic ''zero length''
      else case dataPrefixForLength n of
        Inl e \<Rightarrow> if e = ErrTooLong then Ok (2 ^ (6 + 7 + 7) - 1 - 3) else Panic ''dataPrefixForLength''
      | Inr prefix \<Rightarrow> Ok (n - int (length prefix)))"

subsection \<open>The format, as the package comment states it\<close>

text \<open>
  \<open>Hdr d n rest\<close>: a complete prefix with its \<open>d\<close> bit and length, and what follows it.
\<close>

datatype header = HdrEnd | HdrTrunc | HdrTooLong bytes | Hdr bool nat bytes

definition parse_prefix :: "bytes \<Rightarrow> header" where
  "parse_prefix s =
     (case s of
        [] \<Rightarrow> HdrEnd
      | b0 # s0 \<Rightarrow>
          (let x = unat b0 mod 64 in
           if \<not> bit b0 6 then Hdr (bit b0 7) x s0
           else case s0 of
             [] \<Rightarrow> HdrTrunc
           | b1 # s1 \<Rightarrow>
               (let y = x * 128 + unat b1 mod 128 in
                if \<not> bit b1 7 then Hdr (bit b0 7) y s1
                else case s1 of
                  [] \<Rightarrow> HdrTrunc
                | b2 # s2 \<Rightarrow>
                    if \<not> bit b2 7 then Hdr (bit b0 7) (y * 128 + unat b2 mod 128) s2
                    else HdrTooLong s2)))"

definition mid_eof :: "error \<Rightarrow> error" where
  "mid_eof e = (if e = EOF then ErrUnexpectedEOF else e)"

lemma parse_prefix_shorter: "parse_prefix s = Hdr d n s' \<Longrightarrow> length s' < length s"
  by (auto simp: parse_prefix_def Let_def split: list.splits if_splits)

function decode :: "error \<Rightarrow> bytes \<Rightarrow> (error + bytes) \<times> bytes" where
  "decode e s =
     (case parse_prefix s of
        HdrEnd \<Rightarrow> (Inl e, [])
      | HdrTrunc \<Rightarrow> (Inl (mid_eof e), [])
      | HdrTooLong s' \<Rightarrow> (Inl ErrTooLong, s')
      | Hdr d n s' \<Rightarrow>
          if length s' < n then (Inl (mid_eof e), [])
          else if d then (Inr (take n s'), drop n s')
          else decode e (drop n s'))"
  by pat_completeness auto
termination
  by (relation "measure (length \<circ> snd)") (auto dest: parse_prefix_shorter)

declare decode.simps [simp del]

subsection \<open>Masks and shifts as arithmetic\<close>

lemma and_0x80: "(b :: byte) AND 0x80 = 0 \<longleftrightarrow> \<not> bit b 7"
  using and_exp_eq_0_iff_not_bit [of b 7] by simp

lemma and_0x40: "(b :: byte) AND 0x40 = 0 \<longleftrightarrow> \<not> bit b 6"
  using and_exp_eq_0_iff_not_bit [of b 6] by simp

lemma uint_take_bit: "uint (take_bit k (b :: byte)) = int (unat b mod 2 ^ k)"
  by (simp only: unsigned_take_bit_eq) (simp add: take_bit_eq_mod zmod_int)

lemma and_0x3f: "uint ((b :: byte) AND 0x3f) = int (unat b mod 64)"
  using uint_take_bit [of 6 b] take_bit_eq_mask [of 6 b] by (simp add: mask_eq_exp_minus_1)

lemma and_0x7f: "uint ((b :: byte) AND 0x7f) = int (unat b mod 128)"
  using uint_take_bit [of 7 b] take_bit_eq_mask [of 7 b] by (simp add: mask_eq_exp_minus_1)

lemma shift7_or: "push_bit 7 (int n) OR int (m mod 128) = int (n * 128 + m mod 128)"
proof -
  have "int (m mod 128) = take_bit 7 (int m)" by (simp add: take_bit_eq_mod zmod_int)
  then have "push_bit 7 (int n) AND int (m mod 128) = 0"
    by (auto simp: bit_eq_iff bit_simps)
  then show ?thesis
    by (simp add: disjunctive_add_eq_or [symmetric] push_bit_eq_mult)
qed

lemmas mask_simps = and_0x80 and_0x40 and_0x3f and_0x7f shift7_or

subsection \<open>The reader implements the format\<close>

lemma read_length_done: "read_length i False b n r = (Inr n, r)"
  by (subst read_length.simps) simp

lemma read_length_limit: "read_length (Suc (Suc 0)) True b n r = (Inl ErrTooLong, r)"
  by (subst read_length.simps) simp

lemma read_length_end:
  "reads r [] e \<Longrightarrow> i < 2 \<Longrightarrow> read_length i True b n r = (Inl (mid_eof e), r)"
  by (subst read_length.simps) (auto simp: Read_end mid_eof_def)

lemma read_length_step:
  assumes "reads r (b' # s) e" "i < 2"
  obtains r' where "reads r' s e"
    "read_length i True b (int x) r =
       read_length (Suc i) (bit b' 7) b' (int (x * 128 + unat b' mod 128)) r'"
proof -
  obtain r' where "Read 1 r = (([b'], None), r')" "reads r' s e"
    using assms(1) by (rule Read_one)
  moreover from this assms(2) have "read_length i True b (int x) r =
      read_length (Suc i) (bit b' 7) b' (int (x * 128 + unat b' mod 128)) r'"
    by (subst read_length.simps) (simp add: mask_simps)
  ultimately show thesis using that by blast
qed

lemmas read_length_simps = read_length_done read_length_limit read_length_end

text \<open>The prefix loop, from the first byte on, computes \<open>parse_prefix\<close>.\<close>

lemma read_length_prefix:
  assumes "reads r s e"
  shows "\<exists>r'. case parse_prefix (b # s) of
      HdrEnd \<Rightarrow> False
    | HdrTrunc \<Rightarrow> read_length 0 (bit b 6) b (int (unat b mod 64)) r = (Inl (mid_eof e), r') \<and> reads r' [] e
    | HdrTooLong s' \<Rightarrow> read_length 0 (bit b 6) b (int (unat b mod 64)) r = (Inl ErrTooLong, r') \<and> reads r' s' e
    | Hdr d n s' \<Rightarrow> d = bit b 7 \<and>
        read_length 0 (bit b 6) b (int (unat b mod 64)) r = (Inr (int n), r') \<and> reads r' s' e"
proof (cases "bit b 6")
  case False
  with assms show ?thesis by (auto simp: parse_prefix_def read_length_simps)
next
  case True
  show ?thesis
  proof (cases s)
    case Nil
    with True assms show ?thesis by (auto simp: parse_prefix_def read_length_simps)
  next
    case (Cons b1 s1)
    obtain r1 where r1: "reads r1 s1 e" "read_length 0 True b (int (unat b mod 64)) r =
       read_length (Suc 0) (bit b1 7) b1 (int (unat b mod 64 * 128 + unat b1 mod 128)) r1"
      by (rule read_length_step [of r b1 s1 e 0 b "unat b mod 64"]) (use assms Cons in auto)
    show ?thesis
    proof (cases "bit b1 7 \<and> s1 \<noteq> []")
      case False
      with True Cons r1 show ?thesis
        by (cases "bit b1 7") (auto simp: parse_prefix_def read_length_simps)
    next
      case 2: True
      then obtain b2 s2 where s1: "s1 = b2 # s2" by (cases s1) auto
      obtain r2 where r2: "reads r2 s2 e"
        "read_length (Suc 0) True b1 (int (unat b mod 64 * 128 + unat b1 mod 128)) r1 =
         read_length (Suc (Suc 0)) (bit b2 7) b2
           (int ((unat b mod 64 * 128 + unat b1 mod 128) * 128 + unat b2 mod 128)) r2"
        by (rule read_length_step [of r1 b2 s2 e "Suc 0" b1 "unat b mod 64 * 128 + unat b1 mod 128"]) (use r1(1) s1 in auto)
      with True Cons r1 2 s1 show ?thesis
        by (cases "bit b2 7") (auto simp: parse_prefix_def read_length_simps)
    qed
  qed
qed

text \<open>One packet or padding chunk after its prefix; \<open>IH\<close> covers what follows a padding chunk.\<close>

lemma ReadData_chunk:
  assumes r1: "Read 1 r = (([b], None), r1)" and Hdr: "parse_prefix s = Hdr d n s'" and d: "d = bit b 7"
    and r2: "read_length 0 (bit b 6) b (int (unat b mod 64)) r1 = (Inr (int n), r2)" "reads r2 s' e"
    and IH: "\<And>r3. n \<le> length s' \<Longrightarrow> \<not> d \<Longrightarrow> reads r3 (drop n s') e \<Longrightarrow>
      \<exists>r'. ReadData r3 = (fst (decode e (drop n s')), r') \<and> reads r' (snd (decode e (drop n s'))) e"
  shows "\<exists>r'. ReadData r = (fst (decode e s), r') \<and> reads r' (snd (decode e s)) e"
proof -
  note unf = ReadData.simps [of r] mask_simps decode.simps [of e s]
  consider "\<not> n \<le> length s'" | "n \<le> length s'" "d" | "n \<le> length s'" "\<not> d"
    by blast
  then show ?thesis
  proof cases
    case 1
    then show ?thesis
      using ReadFull_short [OF r2(2), of n] CopyN_short [OF r2(2), of n] Hdr r1 r2(1) d
      by (cases d) (auto simp: unf mid_eof_def short_read_def)
  next
    case 2
    then show ?thesis
      using ReadFull_ok [of r2 "take n s'" "drop n s'" e] r2 Hdr r1 d by (auto simp: unf)
  next
    case 3
    obtain r3 where "CopyN n r2 = ((n, None), r3)" "reads r3 (drop n s') e"
      using CopyN_ok [of r2 "take n s'" "drop n s'" e] 3(1) r2(2) by auto
    then show ?thesis
      using IH [OF 3] 3 Hdr r1 r2(1) d by (auto simp: unf)
  qed
qed

lemma ReadData_reads:
  "reads r s e \<Longrightarrow> \<exists>r'. ReadData r = (fst (decode e s), r') \<and> reads r' (snd (decode e s)) e"
proof (induction e s arbitrary: r rule: decode.induct)
  case (1 e s)
  show ?case
  proof (cases s)
    case Nil
    with "1.prems" show ?thesis
      by (subst ReadData.simps) (auto simp: Read_end decode.simps [of e "[]"] parse_prefix_def)
  next
    case (Cons b s0)
    obtain r1 where r1: "Read 1 r = (([b], None), r1)" "reads r1 s0 e"
      using "1.prems" Cons Read_one by blast
    note pre = read_length_prefix [OF r1(2), of b] and unf = ReadData.simps [of r]
    show ?thesis
    proof (cases "parse_prefix s")
      case (Hdr d n s')
      then obtain r2 where "d = bit b 7" "read_length 0 (bit b 6) b (int (unat b mod 64)) r1 = (Inr (int n), r2)" "reads r2 s' e"
        using pre Cons by auto
      then show ?thesis
        using "1.IH" [OF Hdr] by (intro ReadData_chunk [OF r1(1) Hdr]) auto
    qed (use pre Cons r1 in \<open>auto simp: unf mask_simps decode.simps [of e "b # s0"]\<close>)
  qed
qed

subsection \<open>The bytes of a prefix\<close>

lemma bit_byte_of_nat: "bit (word_of_nat x :: byte) k \<longleftrightarrow> k < 8 \<and> odd (x div 2 ^ k)"
  by (simp add: bit_of_nat_iff bit_iff_odd [of x])

lemma unat_mod_take_bit: "unat (b :: byte) mod 2 ^ k = unat (take_bit k b)"
  by (simp only: unsigned_take_bit_eq) (simp add: take_bit_eq_mod)

lemma unat_byte_mod:
  assumes "k \<le> 8"
  shows "unat (word_of_nat x :: byte) mod 2 ^ k = x mod 2 ^ k"
proof -
  have "(2 :: nat) ^ k dvd 2 ^ 8" using assms by (rule le_imp_power_dvd)
  then have "x mod 2 ^ 8 mod 2 ^ k = x mod 2 ^ k" by (rule mod_mod_cancel)
  then show ?thesis by (simp add: unat_of_nat)
qed

lemma unat_or_mod:
  assumes "take_bit k c = (0 :: byte)" "k \<le> 8"
  shows "unat (c OR word_of_nat x :: byte) mod 2 ^ k = x mod 2 ^ k"
proof -
  have "unat (c OR word_of_nat x :: byte) mod 2 ^ k = unat (word_of_nat x :: byte) mod 2 ^ k"
    using assms(1) by (simp add: unat_mod_take_bit take_bit_or)
  with assms(2) show ?thesis by (simp add: unat_byte_mod)
qed

lemma header_byte:
  assumes "x < 64"
  shows "bit (0x80 OR word_of_nat x :: byte) 7" "\<not> bit (0x80 OR word_of_nat x :: byte) 6"
    "bit (0xc0 OR word_of_nat x :: byte) 7" "bit (0xc0 OR word_of_nat x :: byte) 6"
    "\<not> bit (word_of_nat x :: byte) 7" "\<not> bit (word_of_nat x :: byte) 6"
    "\<not> bit (0x40 OR word_of_nat x :: byte) 7" "bit (0x40 OR word_of_nat x :: byte) 6"
  using assms by (simp_all add: bit_or_iff bit_byte_of_nat)

lemma header_value:
  assumes "x < 64"
  shows "unat (0x80 OR word_of_nat x :: byte) mod 64 = x" "unat (0xc0 OR word_of_nat x :: byte) mod 64 = x"
    "unat (word_of_nat x :: byte) mod 64 = x" "unat (0x40 OR word_of_nat x :: byte) mod 64 = x"
  using assms unat_or_mod [of 6 "0x80" x] unat_or_mod [of 6 "0xc0" x] unat_byte_mod [of 6 x]
    unat_or_mod [of 6 "0x40" x] by (simp_all add: take_bit_eq_mod)

lemma cont_byte:
  assumes "y < 128"
  shows "\<not> bit (word_of_nat y :: byte) 7" "unat (word_of_nat y :: byte) mod 128 = y"
    "bit (0x80 OR word_of_nat y :: byte) 7" "unat (0x80 OR word_of_nat y :: byte) mod 128 = y"
  using assms unat_or_mod [of 7 "0x80" y] unat_byte_mod [of 7 y]
  by (simp_all add: bit_or_iff bit_byte_of_nat take_bit_eq_mod)

lemma and_mask_mod: "(n :: int) AND 63 = n mod 64" "n AND 127 = n mod 128"
  using take_bit_eq_mask [of 6 n] take_bit_eq_mask [of 7 n]
  by (simp_all add: mask_eq_exp_minus_1 take_bit_eq_mod)

lemma mod64: "m mod 64 = m \<longleftrightarrow> 0 \<le> m \<and> m < 64" for m :: int
  by presburger

lemma fits_iff: "drop_bit k n AND 63 = drop_bit k n \<longleftrightarrow> 0 \<le> n \<and> n < 64 * 2 ^ k" for n :: int
proof -
  have "drop_bit k n AND 63 = drop_bit k n \<longleftrightarrow> 0 \<le> n div 2 ^ k \<and> n div 2 ^ k < 64"
    unfolding and_mask_mod drop_bit_eq_div by (rule mod64)
  also have "\<dots> \<longleftrightarrow> 0 \<le> n \<and> n < 64 * 2 ^ k"
  proof (cases "0 \<le> n")
    case True
    then obtain m where "n = int m" by (auto elim: nonneg_int_cases)
    moreover have "int m div 2 ^ k = int (m div 2 ^ k)" by (simp add: zdiv_int)
    moreover have "int m < 64 * 2 ^ k \<longleftrightarrow> m < 64 * 2 ^ k"
      using of_nat_less_iff [of m "64 * 2 ^ k", where 'a = int] by simp
    ultimately show ?thesis by (simp add: div_less_iff_less_mult)
  qed (simp add: pos_imp_zdiv_nonneg_iff)
  finally show ?thesis .
qed

lemma dataPrefix_nat:
  "dataPrefixForLength (int n) =
     (if n < 64 then Inr [0x80 OR word_of_nat n]
      else if n < 8192 then Inr [0xc0 OR word_of_nat (n div 128), word_of_nat (n mod 128)]
      else if n < 1048576 then
        Inr [0xc0 OR word_of_nat (n div 16384), 0x80 OR word_of_nat (n div 128 mod 128),
             word_of_nat (n mod 128)]
      else Inl ErrTooLong)"
proof -
  have w: "word_of_int (int m) = (word_of_nat m :: byte)" for m by simp
  have d: "int n div 128 = int (n div 128)" "int n div 16384 = int (n div 16384)"
    "int (n div 128) mod 128 = int (n div 128 mod 128)" "int n mod 128 = int (n mod 128)"
    "int n mod 64 = int (n mod 64)" "int (n div 128) mod 64 = int (n div 128 mod 64)"
    "int (n div 16384) mod 64 = int (n div 16384 mod 64)"
    by (simp_all add: zdiv_int zmod_int)
  have m: "n < 8192 \<Longrightarrow> n div 128 mod 64 = n div 128" "n < 1048576 \<Longrightarrow> n div 16384 mod 64 = n div 16384"
    by simp_all
  show ?thesis
    unfolding dataPrefixForLength_def fits_iff and_mask_mod
    by (simp only: drop_bit_eq_div and_mask_mod power_numeral d w) (auto simp: d m)
qed

lemma parse_dataPrefix:
  assumes "dataPrefixForLength (int n) = Inr p"
  shows "parse_prefix (p @ s) = Hdr True n s"
proof -
  have 14: "n div 128 div 128 = n div 16384" by (simp add: div_mult2_eq [symmetric])
  have "n div 16384 * 128 + n div 128 mod 128 = n div 128"
    using div_mult_mod_eq [of "n div 128" 128] by (simp only: 14)
  then have "n = (n div 16384 * 128 + n div 128 mod 128) * 128 + n mod 128"
    by (simp only: div_mult_mod_eq)
  moreover have "n < 8192 \<Longrightarrow> n div 128 < 64" "n < 1048576 \<Longrightarrow> n div 16384 < 64" by simp_all
  ultimately show ?thesis using assms
    by (auto simp: dataPrefix_nat parse_prefix_def header_byte header_value cont_byte Let_def
        split: if_splits)
qed

lemma padding_prefix_ok:
  assumes "0 < p" "p \<le> 1024"
  obtains pre q where "padding_prefix (int p) = (pre, int q)" "length pre + q = p" "q \<le> 1024"
    "\<And>s. parse_prefix (pre @ s) = Hdr False q s"
proof (cases "p \<le> 64")
  case True
  define q where "q = p - 1"
  have q: "p = Suc q" "q < 64" using assms True by (auto simp: q_def)
  have "padding_prefix (int p) = ([word_of_nat q], int q)"
    using q by (simp add: padding_prefix_def fits_iff and_mask_mod)
  with q show thesis
    by (intro that [of "[word_of_nat q]" q])
      (auto simp: parse_prefix_def header_byte header_value Let_def)
next
  case False
  define q where "q = p - 2"
  have q: "p = q + 2" "\<not> q + 1 < 64" "q < 8192" "q \<le> 1024" using assms False by (auto simp: q_def)
  have e: "int p - 1 = int (q + 1)" "int p - 2 = int q" using q by simp_all
  have d: "int q div 128 = int (q div 128)" "int q mod 128 = int (q mod 128)"
    by (simp_all add: zdiv_int zmod_int)
  have "padding_prefix (int p) = ([0x40 OR word_of_nat (q div 128), word_of_nat (q mod 128)], int q)"
    using q unfolding padding_prefix_def fits_iff and_mask_mod e
    by (simp add: d drop_bit_eq_div)
  moreover have "q div 128 < 64" using q by simp
  ultimately show thesis using q
    by (intro that [of "[0x40 OR word_of_nat (q div 128), word_of_nat (q mod 128)]" q])
      (auto simp: parse_prefix_def header_byte header_value cont_byte Let_def div_mult_mod_eq)
qed

subsection \<open>Writing through any sink\<close>

lemma decode_pad:
  assumes "parse_prefix (pre @ ps @ s) = Hdr False (length ps) (ps @ s)"
  shows "decode e (pre @ ps @ s) = decode e s"
  using assms by (subst decode.simps) simp

lemma decode_data:
  assumes "dataPrefixForLength (int (length data)) = Inr pre"
  shows "decode e (pre @ data @ s) = (Inr data, s)"
  by (subst decode.simps) (simp add: parse_dataPrefix [OF assms])

context byte_sink
begin

lemma WriteData_ok:
  assumes "healthy w" "length data < 2 ^ 20"
  obtains pre w' where "dataPrefixForLength (int (length data)) = Inr pre"
    "WriteData wr w data = ((length pre + length data, None), w')"
    "healthy w'" "content w' = content w @ pre @ data"
proof -
  have "\<exists>pre. dataPrefixForLength (int (length data)) = Inr pre"
    using assms(2) by (simp add: dataPrefix_nat)
  then obtain pre where pre: "dataPrefixForLength (int (length data)) = Inr pre" ..
  obtain w1 where w1: "wr w pre = ((length pre, None), w1)" "healthy w1" "content w1 = content w @ pre"
    using wr_result [OF assms(1)] by blast
  obtain w2 where w2: "wr w1 data = ((length data, None), w2)" "healthy w2" "content w2 = content w1 @ data"
    using wr_result [OF w1(2)] by blast
  show thesis using pre w1 w2 by (intro that [of pre w2]) (auto simp: WriteData_def)
qed

lemma WriteData_too_long:
  "2 ^ 20 \<le> length data \<Longrightarrow> WriteData wr w data = ((0, Some ErrTooLong), w)"
  by (simp add: WriteData_def dataPrefix_nat)

lemma padding_loop_ok:
  "healthy w \<Longrightarrow>
     \<exists>w' ps. padding_loop wr w (int n) t = ((t + n, None), w') \<and> healthy w' \<and>
       content w' = content w @ ps \<and> length ps = n \<and> (\<forall>e s. decode e (ps @ s) = decode e s)"
proof (induction n arbitrary: w t rule: less_induct)
  case (less n)
  show ?case
  proof (cases "n = 0")
    case True
    with less.prems show ?thesis by (subst padding_loop.simps) auto
  next
    case False
    define p where "p = min 1024 n"
    have p: "0 < p" "p \<le> 1024" "p \<le> n" "n - p < n" using False by (auto simp: p_def)
    obtain pre q where pre: "padding_prefix (int p) = (pre, int q)" "length pre + q = p" "q \<le> 1024"
      "\<And>s. parse_prefix (pre @ s) = Hdr False q s" using padding_prefix_ok [OF p(1,2)] by blast
    define zs where "zs = take q paddingBuffer"
    have zs: "length zs = q" using pre(3) by (simp add: zs_def paddingBuffer_def)
    obtain w1 where w1: "wr w pre = ((length pre, None), w1)" "healthy w1" "content w1 = content w @ pre"
      using wr_result [OF less.prems] by blast
    obtain w2 where w2: "wr w1 zs = ((length zs, None), w2)" "healthy w2" "content w2 = content w1 @ zs"
      using wr_result [OF w1(2)] by blast
    obtain w3 ps where w3: "padding_loop wr w2 (int (n - p)) (t + length pre + q) =
        ((t + length pre + q + (n - p), None), w3)" "healthy w3" "content w3 = content w2 @ ps"
      "length ps = n - p" "\<And>e s. decode e (ps @ s) = decode e s"
      using less.IH [OF p(4) w2(2)] by blast
    have "min (int (length paddingBuffer)) (int n) = int p" by (simp add: p_def paddingBuffer_def)
    moreover have "int n - int p = int (n - p)" using p by simp
    ultimately have "padding_loop wr w (int n) t = padding_loop wr w2 (int (n - p)) (t + length pre + q)"
      using False pre(1) w1(1) w2(1) zs by (subst padding_loop.simps) (simp add: zs_def Let_def)
    moreover have "decode e ((pre @ zs @ ps) @ s) = decode e s" for e s
      using decode_pad [of pre zs "ps @ s" e] pre(4) [of "zs @ ps @ s"] zs w3(5) by simp
    ultimately show ?thesis
      using w1(3) w2(3) w3 pre(2) zs p(3) by (intro exI [of _ w3] exI [of _ "pre @ zs @ ps"]) auto
  qed
qed

lemma WritePadding_ok:
  assumes "healthy w" "0 \<le> n"
  obtains w' ps where "WritePadding wr w n = Ok ((nat n, None), w')" "healthy w'"
    "content w' = content w @ ps" "length ps = nat n" "\<And>e s. decode e (ps @ s) = decode e s"
  using padding_loop_ok [OF assms(1), of "nat n" 0] assms(2) by (auto simp: WritePadding_def)

end

subsection \<open>Properties\<close>

lemma ReadData_result:
  assumes "reads r s e"
  obtains r' where "ReadData r = (fst (decode e s), r')" "reads r' (snd (decode e s)) e"
  using ReadData_reads [OF assms] by blast

text \<open>The streams in which only whole padding chunks precede the end.\<close>

inductive only_padding :: "bytes \<Rightarrow> bool" where
  only_padding_end: "only_padding []"
| only_padding_chunk:
    "parse_prefix s = Hdr False n s' \<Longrightarrow> n \<le> length s' \<Longrightarrow> only_padding (drop n s') \<Longrightarrow> only_padding s"

lemma parse_prefix_Nil [simp]: "parse_prefix [] = HdrEnd"
  by (simp add: parse_prefix_def)

lemma parse_prefix_HdrEnd [simp]: "parse_prefix s = HdrEnd \<longleftrightarrow> s = []"
  by (auto simp: parse_prefix_def Let_def split: list.splits if_splits)

lemma decode_EOF_iff: "fst (decode EOF s) = Inl EOF \<longleftrightarrow> only_padding s"
proof (induction "EOF" s rule: decode.induct)
  case (1 s)
  show ?case
  proof (cases "parse_prefix s")
    case (Hdr d n s')
    then have "s \<noteq> []" by auto
    with Hdr "1" show ?thesis
      by (subst decode.simps, subst only_padding.simps) (auto simp: mid_eof_def)
  qed (auto simp: decode.simps [of EOF s] only_padding.simps [of s] decode.simps [of EOF "[]"]
      only_padding_end mid_eof_def)
qed

lemma decode_errors:
  "fst (decode EOF s) = Inl x \<Longrightarrow> x \<in> {EOF, ErrUnexpectedEOF, ErrTooLong}"
proof (induction "EOF" s rule: decode.induct)
  case (1 s)
  then show ?case
    by (subst (asm) (2) decode.simps) (auto simp: mid_eof_def split: header.splits if_splits)
qed

text \<open>
  C1: \<open>ReadData\<close> implements the chunk format of the package comment: whatever way the bytes
  are split over \<open>Read\<close> calls, it returns the result the reference decoder gives for the byte
  string and leaves exactly the bytes after it unread.
\<close>

theorem ReadData_implements_format:
  assumes "productive r"
  shows "fst (ReadData r) = fst (decode (fin r) (stream r)) \<and>
    stream (snd (ReadData r)) = snd (decode (fin r) (stream r)) \<and>
    productive (snd (ReadData r)) \<and> fin (snd (ReadData r)) = fin r"
proof -
  have "reads r (stream r) (fin r)" using assms by (simp add: reads_def)
  then show ?thesis by (rule ReadData_result) (simp add: reads_def)
qed

theorem ReadData_implements_format_witness:
  "productive \<lparr>chunks = [[0x02], [0, 0, 0x82], [1], [2, 0x80]], fin = EOF\<rparr> \<and>
   fst (ReadData \<lparr>chunks = [[0x02], [0, 0, 0x82], [1], [2, 0x80]], fin = EOF\<rparr>) = Inr [1, 2] \<and>
   stream (snd (ReadData \<lparr>chunks = [[0x02], [0, 0, 0x82], [1], [2, 0x80]], fin = EOF\<rparr>)) = [0x80]"
proof -
  let ?R = "\<lparr>chunks = [[0x02], [0, 0, 0x82], [1], [2, 0x80]], fin = EOF\<rparr> :: reader"
  have p: "productive ?R" by (simp add: productive_def)
  have "decode EOF [0x02, 0, 0, 0x82, 1, 2, 0x80] = (Inr [1, 2], [0x80])"
    by (simp add: decode.simps [of EOF "[0x02, 0, 0, 0x82, 1, 2, 0x80]"]
        decode.simps [of EOF "[0x82, 1, 2, 0x80]"] parse_prefix_def)
  then show ?thesis using p ReadData_implements_format [OF p] by (simp add: stream_def)
qed

text \<open>
  C2: on a source that ends in an orderly way, \<open>ReadData\<close> returns \<open>io.EOF\<close> exactly when the
  source ends where a length prefix could start (only whole padding chunks came before); the other
  errors it can return are \<open>io.ErrUnexpectedEOF\<close> and \<open>ErrTooLong\<close>.
\<close>

theorem ReadData_EOF_iff:
  assumes "productive r" "fin r = EOF"
  shows "(fst (ReadData r) = Inl EOF \<longleftrightarrow> only_padding (stream r)) \<and>
    (\<forall>x. fst (ReadData r) = Inl x \<longrightarrow> x \<in> {EOF, ErrUnexpectedEOF, ErrTooLong})"
proof -
  have "reads r (stream r) EOF" using assms by (simp add: reads_def)
  then have "fst (ReadData r) = fst (decode EOF (stream r))" by (rule ReadData_result) simp
  then show ?thesis using decode_EOF_iff decode_errors by metis
qed

theorem ReadData_EOF_iff_witness:
  "productive \<lparr>chunks = [[0x01, 7], [0x00]], fin = EOF\<rparr> \<and>
   fst (ReadData \<lparr>chunks = [[0x01, 7], [0x00]], fin = EOF\<rparr>) = Inl EOF"
proof -
  let ?R = "\<lparr>chunks = [[0x01, 7], [0x00]], fin = EOF\<rparr> :: reader"
  have p: "productive ?R" by (simp add: productive_def)
  have "only_padding [0x00]"
    by (rule only_padding_chunk [of _ 0 "[]"]) (simp_all add: parse_prefix_def only_padding_end)
  then have "only_padding [0x01, 7, 0x00]"
    using only_padding_chunk [of "[0x01, 7, 0x00]" 1 "[7, 0x00]"] by (simp add: parse_prefix_def)
  then show ?thesis using p ReadData_EOF_iff [OF p] by (simp add: stream_def)
qed

text \<open>
  C3: \<open>WritePadding\<close> writes exactly \<open>n\<close> bytes, and data written after it by \<open>WriteData\<close> is what
  the next \<open>ReadData\<close> returns, from any reader that delivers those bytes, with whatever follows
  left unread.
\<close>

theorem padded_data_roundtrip:
  assumes "unlimited w" "0 \<le> n" "length data < 2 ^ 20"
  shows "\<exists>w1 w2 out. WritePadding Write w n = Ok ((nat n, None), w1) \<and>
    WriteData Write w1 data = ((length out - nat n, None), w2) \<and> sent w2 = sent w @ out \<and>
    (\<forall>r tail e. reads r (out @ tail) e \<longrightarrow> (\<exists>r'. ReadData r = (Inr data, r') \<and> reads r' tail e))"
proof -
  obtain w1 ps where w1: "WritePadding Write w n = Ok ((nat n, None), w1)" "unlimited w1"
    "sent w1 = sent w @ ps" "length ps = nat n" "\<And>e s. decode e (ps @ s) = decode e s"
    using plain.WritePadding_ok [OF assms(1,2)] by blast
  obtain pre w2 where w2: "dataPrefixForLength (int (length data)) = Inr pre"
    "WriteData Write w1 data = ((length pre + length data, None), w2)"
    "unlimited w2" "sent w2 = sent w1 @ pre @ data"
    using plain.WriteData_ok [OF w1(2) assms(3)] by blast
  have "\<exists>r'. ReadData r = (Inr data, r') \<and> reads r' tail e" if "reads r ((ps @ pre @ data) @ tail) e" for r tail e
    using ReadData_reads [OF that] by (simp add: w1(5) decode_data [OF w2(1)])
  then show ?thesis
    using w1 w2 by (intro exI [of _ w1] exI [of _ w2] exI [of _ "ps @ pre @ data"]) auto
qed

theorem padded_data_roundtrip_witness:
  "\<exists>w1 w2 out. WritePadding Write \<lparr>sent = [], budget = None, werr = EOF\<rparr> 3 = Ok ((nat 3, None), w1) \<and>
    WriteData Write w1 [7] = ((length out - nat 3, None), w2) \<and> sent w2 = [] @ out"
  using padded_data_roundtrip [of "\<lparr>sent = [], budget = None, werr = EOF\<rparr>" 3 "[7]"]
  by (simp add: unlimited_def) blast

subsection \<open>Size budgets\<close>

definition prefix_size :: "int \<Rightarrow> int" where
  "prefix_size n = (if n < 64 then 1 else if n < 8192 then 2 else 3)"

lemma dataPrefix_size:
  "dataPrefixForLength n = Inr pre \<Longrightarrow> 0 \<le> n \<and> n < 2 ^ 20 \<and> int (length pre) = prefix_size n"
proof (cases "0 \<le> n")
  case True
  assume "dataPrefixForLength n = Inr pre"
  moreover obtain k where "n = int k" using True by (auto elim: nonneg_int_cases)
  ultimately show ?thesis by (auto simp: dataPrefix_nat prefix_size_def split: if_splits)
next
  case False
  assume "dataPrefixForLength n = Inr pre"
  with False show ?thesis unfolding dataPrefixForLength_def fits_iff by auto
qed

lemma dataPrefix_exists:
  assumes "0 \<le> n" "n < 2 ^ 20"
  obtains pre where "dataPrefixForLength n = Inr pre" "int (length pre) = prefix_size n"
proof -
  obtain k where k: "n = int k" using assms(1) by (auto elim: nonneg_int_cases)
  then have "\<exists>pre. dataPrefixForLength n = Inr pre" using assms(2) by (simp add: dataPrefix_nat)
  then show thesis using that dataPrefix_size by blast
qed

lemma MaxDataForSize_value:
  assumes "0 < n"
  shows "MaxDataForSize n = Ok (if n < 2 ^ 20 then n - prefix_size n else 2 ^ 20 - 4)"
proof (cases "n < 2 ^ 20")
  case True
  then obtain pre where "dataPrefixForLength n = Inr pre" "int (length pre) = prefix_size n"
    using dataPrefix_exists [of n] assms by auto
  with True assms show ?thesis by (simp add: MaxDataForSize_def)
next
  case False
  then have "dataPrefixForLength n = Inl ErrTooLong"
    unfolding dataPrefixForLength_def fits_iff by simp
  with False assms show ?thesis by (simp add: MaxDataForSize_def)
qed

lemma longest_iff:
  "(\<forall>m' pre. m < m' \<longrightarrow> dataPrefixForLength m' = Inr pre \<longrightarrow> n < m' + int (length pre)) \<longleftrightarrow>
   2 ^ 20 \<le> m + 1 \<or> n < m + 1 + prefix_size (m + 1)"
  if "0 \<le> m"
proof
  assume *: "\<forall>m' pre. m < m' \<longrightarrow> dataPrefixForLength m' = Inr pre \<longrightarrow> n < m' + int (length pre)"
  show "2 ^ 20 \<le> m + 1 \<or> n < m + 1 + prefix_size (m + 1)"
  proof (cases "2 ^ 20 \<le> m + 1")
    case False
    then obtain pre where "dataPrefixForLength (m + 1) = Inr pre" "int (length pre) = prefix_size (m + 1)"
      using dataPrefix_exists [of "m + 1"] \<open>0 \<le> m\<close> by auto
    with * show ?thesis by force
  qed simp
next
  assume "2 ^ 20 \<le> m + 1 \<or> n < m + 1 + prefix_size (m + 1)"
  then show "\<forall>m' pre. m < m' \<longrightarrow> dataPrefixForLength m' = Inr pre \<longrightarrow> n < m' + int (length pre)"
    by (auto dest!: dataPrefix_size simp: prefix_size_def split: if_splits)
qed

text \<open>
  C36: for a positive budget \<open>n\<close>, data of length \<open>MaxDataForSize n\<close> can be written by \<open>WriteData\<close>
  and with its prefix takes at most \<open>n\<close> bytes; it is the longest such data exactly when \<open>n\<close> is
  below \<open>2 ^ 20\<close> and not one of 64, 8192, 8193.
\<close>

theorem MaxDataForSize_budget:
  assumes "0 < n"
  shows "\<exists>m pre. MaxDataForSize n = Ok m \<and> dataPrefixForLength m = Inr pre \<and> m + int (length pre) \<le> n \<and>
    ((\<forall>m' pre'. m < m' \<longrightarrow> dataPrefixForLength m' = Inr pre' \<longrightarrow> n < m' + int (length pre')) \<longleftrightarrow>
       n \<notin> {64, 8192, 8193} \<and> n < 2 ^ 20)"
proof -
  define m where "m = (if n < 2 ^ 20 then n - prefix_size n else 2 ^ 20 - 4)"
  have m: "0 \<le> m" "m < 2 ^ 20" "m + prefix_size m \<le> n"
    using assms by (auto simp: m_def prefix_size_def)
  obtain pre where "dataPrefixForLength m = Inr pre" "int (length pre) = prefix_size m"
    using dataPrefix_exists [OF m(1,2)] .
  moreover have "(2 ^ 20 \<le> m + 1 \<or> n < m + 1 + prefix_size (m + 1)) \<longleftrightarrow> n \<notin> {64, 8192, 8193} \<and> n < 2 ^ 20"
    using assms by (auto simp: m_def prefix_size_def split: if_splits)
  moreover have "MaxDataForSize n = Ok m"
    unfolding m_def by (rule MaxDataForSize_value [OF assms])
  ultimately show ?thesis using m longest_iff [OF m(1), of n] by auto
qed

theorem MaxDataForSize_budget_witness:
  "\<exists>m pre. MaxDataForSize 64 = Ok m \<and> dataPrefixForLength m = Inr pre \<and> m + int (length pre) \<le> 64 \<and>
    \<not> (\<forall>m' pre'. m < m' \<longrightarrow> dataPrefixForLength m' = Inr pre' \<longrightarrow> 64 < m' + int (length pre'))"
  using MaxDataForSize_budget [of 64] by auto

end
