(* ===== verification/Client_Map.thy ===== *)
theory Client_Map
  imports Go_Prelude "HOL-Library.AList" "HOL-Library.Multiset"
begin

text \<open>
  \<^verbatim>\<open>snowflake/common/turbotunnel/clientid.go\<close> and \<^verbatim>\<open>clientmap.go\<close>: the map from client
  addresses to send queues, kept as a binary heap ordered by the time a client was last seen
  (\<open>byAge\<close>) together with the heap position of every address (\<open>byAddr\<close>, an association list, so
  that its \<^verbatim>\<open>len\<close> is computed).  \<open>up\<close>, \<open>down\<close>, \<open>heap_Push\<close>, \<open>heap_Pop\<close> and \<open>heap_Fix\<close> are
  the procedures of \<^verbatim>\<open>container/heap\<close>, which the source calls.  Times are nanoseconds as
  \<open>int\<close>; a channel is a reference \<open>nat\<close>, the one \<^verbatim>\<open>make\<close> returns being an argument.

  The invariant \<open>cm_ok\<close> says that the index map is exact and the heap is ordered; \<open>client_of\<close> is
  the abstract map from an address to its record.  The locale \<open>expiring_registry\<close> is the
  contract the packet connection relies on, interpreted on these operations.
\<close>

subsection \<open>Data\<close>

datatype net_addr = ClientID bytes | TCPAddr bytes nat | DummyAddr

fun Network :: "net_addr \<Rightarrow> string" where
  "Network (ClientID _) = ''clientid''"
| "Network (TCPAddr _ _) = ''tcp''"
| "Network DummyAddr = ''dummy''"

text \<open>\<^verbatim>\<open>NewClientID\<close>, with the bytes the random source delivers (\<open>None\<close>: it failed).\<close>

definition NewClientID :: "bytes option \<Rightarrow> net_addr go" where
  "NewClientID rnd = (case rnd of None \<Rightarrow> Panic ''rand.Read'' | Some bs \<Rightarrow> Ok (ClientID (take 8 bs)))"

record clientRecord =
  Addr :: net_addr
  LastSeen :: int
  SendQueue :: nat

record clientMapInner =
  byAge :: "clientRecord list"
  byAddr :: "(net_addr \<times> nat) list"

definition NewClientMap :: clientMapInner where
  "NewClientMap = \<lparr>byAge = [], byAddr = []\<rparr>"

subsection \<open>The heap interface of \<open>clientMapInner\<close>\<close>

definition Len :: "clientMapInner \<Rightarrow> nat go" where
  "Len h = (if length (byAge h) \<noteq> length (byAddr h) then Panic ''inconsistent clientMap''
            else Ok (length (byAge h)))"

text \<open>
  \<^verbatim>\<open>Less\<close> and \<^verbatim>\<open>Swap\<close> are only called by the algorithms of \<^verbatim>\<open>container/heap\<close> below, on a consistent map with
  indices smaller than its length, so the panic of an index out of range is left out.
\<close>

definition Less :: "clientMapInner \<Rightarrow> nat \<Rightarrow> nat \<Rightarrow> bool" where
  "Less h i j = (LastSeen (byAge h ! i) < LastSeen (byAge h ! j))"

definition Swap :: "clientMapInner \<Rightarrow> nat \<Rightarrow> nat \<Rightarrow> clientMapInner" where
  "Swap h i j =
     (let a = (byAge h)[i := byAge h ! j, j := byAge h ! i]
      in h\<lparr>byAge := a,
           byAddr := AList.update (Addr (a ! j)) j (AList.update (Addr (a ! i)) i (byAddr h))\<rparr>)"

definition Push :: "clientMapInner \<Rightarrow> clientRecord \<Rightarrow> clientMapInner go" where
  "Push h r =
     (if map_of (byAddr h) (Addr r) \<noteq> None then Panic ''duplicate address in clientMap''
      else Ok (h\<lparr>byAddr := AList.update (Addr r) (length (byAge h)) (byAddr h),
                 byAge := byAge h @ [r]\<rparr>))"

definition Pop :: "clientMapInner \<Rightarrow> (clientRecord \<times> clientMapInner) go" where
  "Pop h =
     (let n = length (byAddr h)
      in if n = 0 \<or> length (byAge h) < n then Panic ''index out of range''
         else let r = byAge h ! (n - 1)
              in Ok (r, h\<lparr>byAge := take (n - 1) (byAge h), byAddr := AList.delete (Addr r) (byAddr h)\<rparr>))"

subsection \<open>\<^verbatim>\<open>container/heap\<close>\<close>

function up :: "clientMapInner \<Rightarrow> nat \<Rightarrow> clientMapInner" where
  "up h j =
     (let i = (j - 1) div 2
      in if i = j \<or> \<not> Less h j i then h else up (Swap h i j) i)"
  by pat_completeness auto
termination
  by (relation "measure snd") auto

declare up.simps [simp del]

function down :: "clientMapInner \<Rightarrow> nat \<Rightarrow> nat \<Rightarrow> nat \<Rightarrow> bool \<times> clientMapInner" where
  "down h i0 i n =
     (let j1 = 2 * i + 1
      in if n \<le> j1 then (i0 < i, h)
         else let j2 = j1 + 1;
                  j = (if j2 < n \<and> Less h j2 j1 then j2 else j1)
              in if \<not> Less h j i then (i0 < i, h)
                 else down (Swap h i j) i0 j n)"
  by pat_completeness auto
termination
  by (relation "measure (\<lambda>(h, i0, i, n). n - i)") (auto simp: Let_def)

declare down.simps [simp del]

definition heap_Push :: "clientMapInner \<Rightarrow> clientRecord \<Rightarrow> clientMapInner go" where
  "heap_Push h r =
     (case Push h r of
        Ok h1 \<Rightarrow> (case Len h1 of Ok n \<Rightarrow> Ok (up h1 (n - 1)) | Err e \<Rightarrow> Err e | Panic m \<Rightarrow> Panic m)
      | Err e \<Rightarrow> Err e
      | Panic m \<Rightarrow> Panic m)"

definition heap_Pop :: "clientMapInner \<Rightarrow> (clientRecord \<times> clientMapInner) go" where
  "heap_Pop h =
     (case Len h of
        Ok n \<Rightarrow> if n = 0 then Panic ''index out of range''
               else Pop (snd (down (Swap h 0 (n - 1)) 0 0 (n - 1)))
      | Err e \<Rightarrow> Err e
      | Panic m \<Rightarrow> Panic m)"

definition heap_Fix :: "clientMapInner \<Rightarrow> nat \<Rightarrow> clientMapInner go" where
  "heap_Fix h i =
     (case Len h of
        Ok n \<Rightarrow> (case down h i i n of (moved, h1) \<Rightarrow> Ok (if moved then h1 else up h1 i))
      | Err e \<Rightarrow> Err e
      | Panic m \<Rightarrow> Panic m)"

lemma length_Swap [simp]: "length (byAge (Swap h i j)) = length (byAge h)"
  by (simp add: Swap_def Let_def)

lemma length_down: "length (byAge (snd (down h i0 i n))) = length (byAge h)"
  by (induction h i0 i n rule: down.induct) (subst down.simps, simp add: Let_def)

lemma Pop_length: "Pop h = Ok (r, h') \<Longrightarrow> length (byAge h') < length (byAge h)"
  by (cases "byAddr h") (auto simp: Pop_def Let_def split: if_splits)

lemma heap_Pop_length:
  "heap_Pop h = Ok (r, h') \<Longrightarrow> length (byAge h') < length (byAge h)"
  by (auto simp: heap_Pop_def Len_def length_down split: if_splits go.splits dest: Pop_length)

subsection \<open>The operations of the map\<close>

function removeExpired :: "clientMapInner \<Rightarrow> int \<Rightarrow> int \<Rightarrow> clientMapInner go" where
  "removeExpired h now timeout =
     (if 0 < length (byAge h) \<and> timeout \<le> now - LastSeen (byAge h ! 0) then
        (case heap_Pop h of
           Ok (r, h') \<Rightarrow> removeExpired h' now timeout
         | Err e \<Rightarrow> Err e
         | Panic m \<Rightarrow> Panic m)
      else Ok h)"
  by pat_completeness auto
termination
  by (relation "measure (\<lambda>(h, _). length (byAge h))") (auto dest: heap_Pop_length)

declare removeExpired.simps [simp del]

text \<open>\<open>q\<close> is the channel \<^verbatim>\<open>make(chan []byte, queueSize)\<close> returns if a record is created.\<close>

definition inner_SendQueue :: "clientMapInner \<Rightarrow> net_addr \<Rightarrow> int \<Rightarrow> nat \<Rightarrow> (nat \<times> clientMapInner) go" where
  "inner_SendQueue h addr now q =
     (case map_of (byAddr h) addr of
        Some i \<Rightarrow>
          if length (byAge h) \<le> i then Panic ''index out of range''
          else
            (let r = (byAge h ! i)\<lparr>LastSeen := now\<rparr>
             in case heap_Fix (h\<lparr>byAge := (byAge h)[i := r]\<rparr>) i of
                  Ok h' \<Rightarrow> Ok (SendQueue r, h')
                | Err e \<Rightarrow> Err e
                | Panic m \<Rightarrow> Panic m)
      | None \<Rightarrow>
          (let r = \<lparr>Addr = addr, LastSeen = now, SendQueue = q\<rparr>
           in case heap_Push h r of
                Ok h' \<Rightarrow> Ok (SendQueue r, h')
              | Err e \<Rightarrow> Err e
              | Panic m \<Rightarrow> Panic m))"

subsection \<open>The index map is exact\<close>

definition indexed :: "clientMapInner \<Rightarrow> bool" where
  "indexed h \<longleftrightarrow>
     distinct (map Addr (byAge h)) \<and> distinct (map fst (byAddr h)) \<and>
     set (byAddr h) = set (map (\<lambda>i. (Addr (byAge h ! i), i)) [0..<length (byAge h)])"

lemma indexed_lookup:
  assumes "indexed h"
  shows "map_of (byAddr h) a = Some i \<longleftrightarrow> i < length (byAge h) \<and> Addr (byAge h ! i) = a"
  using assms by (auto simp: indexed_def)

lemma indexed_lookup_None:
  assumes "indexed h"
  shows "map_of (byAddr h) a = None \<longleftrightarrow> a \<notin> Addr ` set (byAge h)"
proof -
  have "(\<exists>i. map_of (byAddr h) a = Some i) \<longleftrightarrow> a \<in> Addr ` set (byAge h)"
    by (simp add: indexed_lookup [OF assms]) (metis image_iff in_set_conv_nth)
  then show ?thesis
    by (metis not_None_eq)
qed

lemma indexed_iff:
  "indexed h \<longleftrightarrow>
     distinct (map Addr (byAge h)) \<and> distinct (map fst (byAddr h)) \<and>
     (\<forall>a i. map_of (byAddr h) a = Some i \<longleftrightarrow> i < length (byAge h) \<and> Addr (byAge h ! i) = a)"
    (is "?l \<longleftrightarrow> ?r")
proof
  show "?l \<Longrightarrow> ?r"
    using indexed_lookup by (auto simp: indexed_def)
next
  assume r: ?r
  then have "(a, i) \<in> set (byAddr h) \<longleftrightarrow> i < length (byAge h) \<and> Addr (byAge h ! i) = a" for a i
    by (metis map_of_eq_Some_iff)
  then have "set (byAddr h) = set (map (\<lambda>i. (Addr (byAge h ! i), i)) [0..<length (byAge h)])"
    by (auto simp: image_iff)
  with r show ?l
    by (simp add: indexed_def)
qed

lemma indexedI:
  assumes "distinct (map Addr (byAge h))" "distinct (map fst (byAddr h))"
    and "\<And>a i. map_of (byAddr h) a = Some i \<longleftrightarrow> i < length (byAge h) \<and> Addr (byAge h ! i) = a"
  shows "indexed h"
  using assms by (simp add: indexed_iff)

lemma indexed_distinct:
  assumes "indexed h"
  shows "distinct (map Addr (byAge h))" "distinct (map fst (byAddr h))"
  using assms by (simp_all add: indexed_def)

lemma indexed_length:
  assumes "indexed h"
  shows "length (byAddr h) = length (byAge h)"
proof -
  let ?ix = "map (\<lambda>i. (Addr (byAge h ! i), i)) [0..<length (byAge h)]"
  have "distinct (byAddr h)" "distinct ?ix" "set (byAddr h) = set ?ix"
    using assms by (auto simp: indexed_def distinct_map inj_on_def)
  then show ?thesis
    by (metis distinct_card length_map length_upt minus_nat.diff_0)
qed

lemma Len_indexed [simp]: "indexed h \<Longrightarrow> Len h = Ok (length (byAge h))"
  by (simp add: Len_def indexed_length)

lemma Addr_inj:
  assumes "indexed h" "i < length (byAge h)" "j < length (byAge h)"
  shows "Addr (byAge h ! i) = Addr (byAge h ! j) \<longleftrightarrow> i = j"
  using assms nth_eq_iff_index_eq [of "map Addr (byAge h)" i j] by (simp add: indexed_def)

lemma byAge_Swap:
  assumes "i < length (byAge h)" "j < length (byAge h)"
  shows "byAge (Swap h i j) ! k =
           (if k = j then byAge h ! i else if k = i then byAge h ! j else byAge h ! k)"
  using assms by (simp add: Swap_def Let_def nth_list_update)

lemma mset_Swap:
  assumes "i < length (byAge h)" "j < length (byAge h)"
  shows "mset (byAge (Swap h i j)) = mset (byAge h)"
  using assms mset_swap [of j "byAge h" i] by (simp add: Swap_def Let_def)

lemma indexed_Swap:
  assumes h: "indexed h" and i: "i < length (byAge h)" and j: "j < length (byAge h)"
  shows "indexed (Swap h i j)"
proof -
  have "distinct (map Addr (byAge (Swap h i j)))"
    using h mset_Swap [OF i j] by (metis indexed_def mset_eq_imp_distinct_iff mset_map)
  moreover have "distinct (map fst (byAddr (Swap h i j)))"
    using h by (simp add: Swap_def Let_def indexed_def AList.distinct_update)
  moreover have "map_of (byAddr (Swap h i j)) a = Some k \<longleftrightarrow>
      k < length (byAge h) \<and> Addr (byAge (Swap h i j) ! k) = a" for a k
    using i j Addr_inj [OF h] indexed_lookup [OF h]
    by (auto simp: Swap_def Let_def update_conv' nth_list_update)
  ultimately show ?thesis
    by (intro indexedI) simp_all
qed

subsection \<open>The heap order\<close>

abbreviation seen :: "clientMapInner \<Rightarrow> nat \<Rightarrow> int" where
  "seen h i \<equiv> LastSeen (byAge h ! i)"

definition parent :: "nat \<Rightarrow> nat" where
  "parent k = (k - 1) div 2"

definition heap_upto :: "clientMapInner \<Rightarrow> nat \<Rightarrow> bool" where
  "heap_upto h n \<longleftrightarrow> (\<forall>k \<in> {1..<n}. seen h (parent k) \<le> seen h k)"

text \<open>Position \<open>i\<close> may be out of order, upwards or downwards, and nothing else.\<close>

definition defect_at :: "clientMapInner \<Rightarrow> nat \<Rightarrow> nat \<Rightarrow> bool" where
  "defect_at h n i \<longleftrightarrow>
     (\<forall>k \<in> {1..<n}. k \<noteq> i \<longrightarrow> parent k \<noteq> i \<longrightarrow> seen h (parent k) \<le> seen h k) \<and>
     (\<forall>k \<in> {1..<n}. parent k = i \<longrightarrow> 0 < i \<longrightarrow> seen h (parent i) \<le> seen h k)"

definition above_ok :: "clientMapInner \<Rightarrow> nat \<Rightarrow> bool" where
  "above_ok h i \<longleftrightarrow> (0 < i \<longrightarrow> seen h (parent i) \<le> seen h i)"

definition below_ok :: "clientMapInner \<Rightarrow> nat \<Rightarrow> nat \<Rightarrow> bool" where
  "below_ok h n i \<longleftrightarrow> (\<forall>k \<in> {1..<n}. parent k = i \<longrightarrow> seen h i \<le> seen h k)"

lemmas order_defs = defect_at_def above_ok_def below_ok_def heap_upto_def

lemma children: "1 \<le> k \<Longrightarrow> parent k = i \<longleftrightarrow> k = 2 * i + 1 \<or> k = 2 * i + 2"
  by (auto simp: parent_def)

lemma parent_less: "0 < k \<Longrightarrow> parent k < k"
  by (auto simp: parent_def)

lemma up_parent:
  "up h j = (if parent j = j \<or> \<not> Less h j (parent j) then h else up (Swap h (parent j) j) (parent j))"
  by (subst up.simps) (simp add: Let_def parent_def)

lemma heap_defect:
  assumes "heap_upto h n"
  shows "defect_at h n i"
proof -
  have "seen h (parent i) \<le> seen h k" if "k \<in> {1..<n}" "parent k = i" "0 < i" for k
  proof -
    have "i \<in> {1..<n}"
      using that parent_less [of k] by auto
    with assms that show ?thesis
      by (metis heap_upto_def order_trans)
  qed
  with assms show ?thesis
    by (simp add: heap_upto_def defect_at_def)
qed

lemma defect_heap: "defect_at h n i \<Longrightarrow> above_ok h i \<Longrightarrow> below_ok h n i \<Longrightarrow> heap_upto h n"
  unfolding order_defs by (metis atLeastLessThan_iff less_eq_Suc_le One_nat_def)

lemma up_step:
  assumes d: "defect_at h n j" and b: "below_ok h n j" and j: "0 < j" "j < n" "n \<le> length (byAge h)"
    and less: "seen h j < seen h (parent j)"
  shows "defect_at (Swap h (parent j) j) n (parent j)" "below_ok (Swap h (parent j) j) n (parent j)"
proof -
  let ?i = "parent j" and ?h = "Swap h (parent j) j"
  have i: "?i < j" "?i < length (byAge h)" "j < length (byAge h)"
    using j parent_less [of j] by auto
  have s: "seen ?h k = (if k = j then seen h ?i else if k = ?i then seen h j else seen h k)" for k
    by (simp add: byAge_Swap i)
  have ord: "seen h (parent k) \<le> seen h k" if "k \<in> {1..<n}" "k \<noteq> j" "parent k \<noteq> j" for k
    using d that by (simp add: defect_at_def)
  have skip: "seen h ?i \<le> seen h k" if "k \<in> {1..<n}" "parent k = j" for k
    using d that j by (simp add: defect_at_def)
  show "below_ok ?h n ?i"
    unfolding below_ok_def
  proof (intro ballI impI)
    fix k assume k: "k \<in> {1..<n}" "parent k = ?i"
    then show "seen ?h ?i \<le> seen ?h k"
      using ord [of k] i less parent_less [of k] by (auto simp: s)
  qed
  show "defect_at ?h n ?i"
    unfolding defect_at_def
  proof (intro conjI ballI impI)
    fix k assume k: "k \<in> {1..<n}" "k \<noteq> ?i" "parent k \<noteq> ?i"
    then show "seen ?h (parent k) \<le> seen ?h k"
      using ord [of k] skip [of k] by (auto simp: s)
  next
    fix k assume k: "k \<in> {1..<n}" "parent k = ?i" "0 < ?i"
    have p: "parent ?i < ?i"
      using k(3) by (rule parent_less)
    moreover have "seen h (parent ?i) \<le> seen h ?i"
      using k(3) i j p by (intro ord) auto
    ultimately show "seen ?h (parent ?i) \<le> seen ?h k"
      using k ord [of k] i by (auto simp: s)
  qed
qed

lemma up_order:
  assumes "defect_at h n j" "below_ok h n j" "j < n" "n \<le> length (byAge h)"
  shows "heap_upto (up h j) n"
  using assms
proof (induction h j rule: up.induct)
  case (1 h j)
  show ?case
  proof (cases "parent j = j \<or> \<not> Less h j (parent j)")
    case True
    then have "above_ok h j"
      using parent_less [of j] by (auto simp: above_ok_def Less_def)
    then show ?thesis
      using True 1 by (simp add: up_parent [of h j] defect_heap)
  next
    case False
    then have j: "0 < j" "seen h j < seen h (parent j)"
      by (auto simp: Less_def parent_def intro: Nat.gr0I)
    have "heap_upto (up (Swap h (parent j) j) (parent j)) n"
      using False j "1.prems" up_step [of h n j] parent_less [of j]
      by (intro "1.IH" [folded parent_def]) auto
    then show ?thesis
      using False by (simp add: up_parent [of h j])
  qed
qed

lemma down_step:
  assumes d: "defect_at h n i" and j: "parent j = i" "0 < j" "j < n" "n \<le> length (byAge h)"
    and less: "seen h j < seen h i"
    and least: "\<And>k. k \<in> {1..<n} \<Longrightarrow> parent k = i \<Longrightarrow> seen h j \<le> seen h k"
  shows "defect_at (Swap h i j) n j" "above_ok (Swap h i j) j"
proof -
  let ?h = "Swap h i j"
  have i: "i < j" "i < length (byAge h)" "j < length (byAge h)"
    using j parent_less [of j] by auto
  have s: "seen ?h k = (if k = j then seen h i else if k = i then seen h j else seen h k)" for k
    by (simp add: byAge_Swap i)
  have ord: "seen h (parent k) \<le> seen h k" if "k \<in> {1..<n}" "k \<noteq> i" "parent k \<noteq> i" for k
    using d that by (simp add: defect_at_def)
  have skip: "seen h (parent i) \<le> seen h j" if "0 < i"
    using d that j by (simp add: defect_at_def)
  show "above_ok ?h j"
    using j less i by (simp add: above_ok_def s)
  show "defect_at ?h n j"
    unfolding defect_at_def
  proof (intro conjI ballI impI)
    fix k assume k: "k \<in> {1..<n}" "k \<noteq> j" "parent k \<noteq> j"
    then show "seen ?h (parent k) \<le> seen ?h k"
      using ord [of k] skip least [of k] parent_less [of k] by (auto simp: s)
  next
    fix k assume k: "k \<in> {1..<n}" "parent k = j" "0 < j"
    then show "seen ?h (parent j) \<le> seen ?h k"
      using ord [of k] i j parent_less [of k] by (auto simp: s)
  qed
qed

definition child :: "clientMapInner \<Rightarrow> nat \<Rightarrow> nat \<Rightarrow> nat" where
  "child h i n = (if 2 * i + 2 < n \<and> Less h (2 * i + 2) (2 * i + 1) then 2 * i + 2 else 2 * i + 1)"

lemma down_child:
  "down h i0 i n =
     (if n \<le> 2 * i + 1 \<or> \<not> Less h (child h i n) i then (i0 < i, h)
      else down (Swap h i (child h i n)) i0 (child h i n) n)"
  by (subst down.simps) (simp add: Let_def child_def)

lemma child_least:
  assumes "2 * i + 1 < n"
  shows "parent (child h i n) = i" "i < child h i n" "child h i n < n"
    and "k \<in> {1..<n} \<Longrightarrow> parent k = i \<Longrightarrow> seen h (child h i n) \<le> seen h k"
  using assms children [of k i] by (auto simp: child_def parent_def Less_def)

lemma down_stop:
  assumes "n \<le> 2 * i + 1 \<or> \<not> Less h (child h i n) i"
  shows "below_ok h n i"
proof (cases "2 * i + 1 < n")
  case True
  then show ?thesis
    using assms child_least(4) [OF True, where h = h] unfolding below_ok_def Less_def
    by (metis linorder_not_less order_trans)
next
  case False
  then show ?thesis
    using children by (force simp: below_ok_def)
qed

lemma down_child_step:
  assumes "defect_at h n i" "n \<le> length (byAge h)" "\<not> (n \<le> 2 * i + 1 \<or> \<not> Less h (child h i n) i)"
  shows "defect_at (Swap h i (child h i n)) n (child h i n)"
    and "above_ok (Swap h i (child h i n)) (child h i n)"
  using assms child_least [where i = i and n = n and h = h]
  by (auto intro!: down_step simp: Less_def)

lemma down_order:
  assumes "defect_at h n i" "above_ok h i" "n \<le> length (byAge h)"
  shows "heap_upto (snd (down h i0 i n)) n"
  using assms
proof (induction h i0 i n rule: down.induct)
  case (1 h i0 i n)
  show ?case
  proof (cases "n \<le> 2 * i + 1 \<or> \<not> Less h (child h i n) i")
    case True
    then show ?thesis
      using "1.prems" down_stop by (simp add: down_child [of h] defect_heap)
  next
    case False
    have "heap_upto (snd (down (Swap h i (child h i n)) i0 (child h i n) n)) n"
      using False down_child_step [of h n i] "1.prems"
      by (intro "1.IH") (auto simp: child_def)
    then show ?thesis
      using False by (simp add: down_child [of h])
  qed
qed

lemma down_moved: "i0 < i \<Longrightarrow> fst (down h i0 i n)"
proof (induction h i0 i n rule: down.induct)
  case (1 h i0 i n)
  show ?case
  proof (cases "n \<le> 2 * i + 1 \<or> \<not> Less h (child h i n) i")
    case True
    then show ?thesis
      using "1.prems" by (simp add: down_child [of h])
  next
    case False
    have "fst (down (Swap h i (child h i n)) i0 (child h i n) n)"
      using False child_least(2) [of i n h] "1.prems"
      by (intro "1.IH") (auto simp: child_def)
    then show ?thesis
      using False by (simp add: down_child [of h])
  qed
qed

text \<open>\<^verbatim>\<open>heap.Fix\<close> repairs a heap in which one element was changed, in either direction.\<close>

lemma fix_order:
  assumes "defect_at h n i" "i < n" "n \<le> length (byAge h)"
  shows "heap_upto (case down h i i n of (moved, h1) \<Rightarrow> if moved then h1 else up h1 i) n"
proof (cases "n \<le> 2 * i + 1 \<or> \<not> Less h (child h i n) i")
  case True
  then show ?thesis
    using assms down_stop [OF True] by (simp add: down_child [of h] up_order)
next
  case False
  let ?d = "down (Swap h i (child h i n)) i (child h i n) n"
  have "fst ?d" "heap_upto (snd ?d) n"
    using False assms down_child_step child_least(2) [of i n h]
    by (auto intro!: down_moved down_order)
  then show ?thesis
    using False by (simp add: down_child [of h] case_prod_beta)
qed

lemma heap_root:
  assumes "heap_upto h n" "k < n"
  shows "seen h 0 \<le> seen h k"
  using assms(2)
proof (induction k rule: less_induct)
  case (less k)
  show ?case
  proof (cases "k = 0")
    case False
    then have "seen h 0 \<le> seen h (parent k)"
      using less parent_less [of k] by auto
    also have "\<dots> \<le> seen h k"
      using assms(1) less.prems False by (simp add: heap_upto_def)
    finally show ?thesis .
  qed simp
qed

subsection \<open>The operations keep the invariant and the records\<close>

definition cm_ok :: "clientMapInner \<Rightarrow> bool" where
  "cm_ok h \<longleftrightarrow> indexed h \<and> heap_upto h (length (byAge h))"

lemma up_keeps:
  assumes "indexed h" "j < length (byAge h)"
  shows "indexed (up h j) \<and> mset (byAge (up h j)) = mset (byAge h)"
  using assms
proof (induction h j rule: up.induct)
  case (1 h j)
  have p: "parent j < length (byAge h)"
    using "1.prems" by (simp add: parent_def)
  show ?case
    using "1.IH" [folded parent_def, OF refl] "1.prems" p
    by (simp add: up_parent [of h j] indexed_Swap mset_Swap)
qed

lemma down_keeps:
  assumes "indexed h" "n \<le> length (byAge h)"
  shows "indexed (snd (down h i0 i n)) \<and> mset (byAge (snd (down h i0 i n))) = mset (byAge h) \<and>
         (\<forall>k. n \<le> k \<longrightarrow> byAge (snd (down h i0 i n)) ! k = byAge h ! k)"
  using assms
proof (induction h i0 i n rule: down.induct)
  case (1 h i0 i n)
  show ?case
  proof (cases "n \<le> 2 * i + 1 \<or> \<not> Less h (child h i n) i")
    case True
    then show ?thesis
      using "1.prems" by (simp add: down_child [of h])
  next
    case False
    let ?j = "child h i n"
    have j: "i < ?j" "?j < n" "?j < length (byAge h)" "i < length (byAge h)"
      using False child_least(2,3) [of i n h] "1.prems" by auto
    have "indexed (snd (down (Swap h i ?j) i0 ?j n)) \<and>
        mset (byAge (snd (down (Swap h i ?j) i0 ?j n))) = mset (byAge (Swap h i ?j)) \<and>
        (\<forall>k. n \<le> k \<longrightarrow> byAge (snd (down (Swap h i ?j) i0 ?j n)) ! k = byAge (Swap h i ?j) ! k)"
      using False j "1.prems" by (intro "1.IH") (auto simp: child_def indexed_Swap)
    then show ?thesis
      using False j by (simp add: down_child [of h] mset_Swap byAge_Swap)
  qed
qed

lemma heap_cong: "(\<And>k. k < n \<Longrightarrow> byAge h' ! k = byAge h ! k) \<Longrightarrow> heap_upto h' n = heap_upto h n"
  using parent_less unfolding heap_upto_def
  by (intro ball_cong refl) (metis One_nat_def atLeastLessThan_iff less_eq_Suc_le order_less_trans)

lemma heap_last:
  assumes "heap_upto h n"
  shows "defect_at h (Suc n) n" "below_ok h (Suc n) n"
proof -
  have no: "parent k \<noteq> n" if "k \<in> {1..<Suc n}" for k
    using parent_less [of k] that by auto
  show "defect_at h (Suc n) n"
    unfolding defect_at_def using assms no by (auto simp: heap_upto_def less_Suc_eq)
  show "below_ok h (Suc n) n"
    unfolding below_ok_def using no by auto
qed

lemma heap_root_changed:
  assumes "heap_upto h n" and same: "\<And>k. 0 < k \<Longrightarrow> k < n \<Longrightarrow> byAge h' ! k = byAge h ! k"
  shows "defect_at h' n 0"
proof -
  have "seen h' (parent k) \<le> seen h' k" if k: "k \<in> {1..<n}" "parent k \<noteq> 0" for k
    using assms k same [of k] same [of "parent k"] parent_less [of k] by (auto simp: heap_upto_def)
  then show ?thesis
    by (simp add: defect_at_def)
qed

lemma heap_Push_ok:
  assumes h: "cm_ok h" and new: "Addr r \<notin> Addr ` set (byAge h)"
  obtains h' where "heap_Push h r = Ok h'" "cm_ok h'"
    "mset (byAge h') = add_mset r (mset (byAge h))"
proof -
  let ?n = "length (byAge h)"
  define h1 where "h1 = h\<lparr>byAddr := AList.update (Addr r) ?n (byAddr h), byAge := byAge h @ [r]\<rparr>"
  have ih: "indexed h" and oh: "heap_upto h ?n"
    using h by (simp_all add: cm_ok_def)
  have push: "Push h r = Ok h1"
    using indexed_lookup_None [OF ih] new by (simp add: Push_def h1_def)
  have fresh: "Addr (byAge h ! i) \<noteq> Addr r" if "i < ?n" for i
    using new nth_mem [OF that] by (metis image_eqI)
  have "map_of (byAddr h1) a = Some i \<longleftrightarrow> i < length (byAge h1) \<and> Addr (byAge h1 ! i) = a" for a i
    using indexed_lookup [OF ih, of a i] fresh [of i]
    by (auto simp: h1_def update_conv' nth_append less_Suc_eq)
  moreover have "distinct (map Addr (byAge h1))" "distinct (map fst (byAddr h1))"
    using indexed_distinct [OF ih] new by (simp_all add: h1_def AList.distinct_update)
  ultimately have i1: "indexed h1"
    by (intro indexedI)
  have "heap_upto h1 ?n"
    using oh heap_cong [of ?n h1 h] by (simp add: h1_def nth_append)
  then have "heap_upto (up h1 ?n) (Suc ?n)"
    by (intro up_order heap_last) (auto simp: h1_def)
  moreover have up: "indexed (up h1 ?n)" "mset (byAge (up h1 ?n)) = add_mset r (mset (byAge h))"
    using up_keeps [OF i1, of ?n] by (auto simp: h1_def)
  moreover have "length (byAge (up h1 ?n)) = Suc ?n"
    using mset_eq_length [of "byAge (up h1 ?n)" "r # byAge h"] up(2) by simp
  ultimately show ?thesis
    using that [of "up h1 ?n"] push i1 by (simp add: heap_Push_def cm_ok_def h1_def)
qed

lemma Pop_ok:
  assumes h: "indexed h" and n: "length (byAge h) = Suc n"
  shows "\<exists>h'. Pop h = Ok (byAge h ! n, h') \<and> indexed h' \<and> byAge h' = take n (byAge h)"
proof -
  let ?r = "byAge h ! n"
  let ?h = "h\<lparr>byAge := take n (byAge h), byAddr := AList.delete (Addr ?r) (byAddr h)\<rparr>"
  have "map_of (byAddr ?h) a = Some i \<longleftrightarrow> i < length (byAge ?h) \<and> Addr (byAge ?h ! i) = a" for a i
    using indexed_lookup [OF h, of a i] Addr_inj [OF h, of i n] n
    by (auto simp: delete_conv' less_Suc_eq)
  moreover have "distinct (map Addr (byAge ?h))"
    using h distinct_take [of "map Addr (byAge h)" n] by (simp add: indexed_def take_map)
  moreover have "distinct (map fst (byAddr ?h))"
    using indexed_distinct(2) [OF h] by (simp add: AList.distinct_delete)
  ultimately have "indexed ?h"
    by (intro indexedI)
  then show ?thesis
    using n by (simp add: Pop_def indexed_length [OF h] Let_def)
qed

lemma heap_Pop_ok:
  assumes h: "cm_ok h" and ne: "byAge h \<noteq> []"
  obtains h' where "heap_Pop h = Ok (byAge h ! 0, h')" "cm_ok h'"
    "mset (byAge h) = add_mset (byAge h ! 0) (mset (byAge h'))"
proof -
  obtain n where n: "length (byAge h) = Suc n"
    using ne by (cases "byAge h") auto
  define h1 where "h1 = Swap h 0 n"
  define h2 where "h2 = snd (down h1 0 0 n)"
  have i1: "indexed h1" "length (byAge h1) = Suc n"
    using h n by (simp_all add: h1_def cm_ok_def indexed_Swap)
  have "heap_upto h n"
    using h n by (simp add: cm_ok_def heap_upto_def)
  then have "defect_at h1 n 0"
    using n by (intro heap_root_changed [of h]) (auto simp: h1_def byAge_Swap)
  then have o2: "heap_upto h2 n"
    unfolding h2_def using i1 by (intro down_order) (auto simp: above_ok_def)
  have h2: "indexed h2" "mset (byAge h2) = mset (byAge h)" "byAge h2 ! n = byAge h ! 0"
    using down_keeps [OF i1(1), of n] i1(2) n
    by (auto simp: h2_def h1_def mset_Swap byAge_Swap)
  have l2: "length (byAge h2) = Suc n"
    using mset_eq_length [OF h2(2)] n by simp
  obtain h' where h': "Pop h2 = Ok (byAge h2 ! n, h')" "indexed h'" "byAge h' = take n (byAge h2)"
    using Pop_ok [OF h2(1) l2] by auto
  have "byAge h2 = byAge h' @ [byAge h ! 0]"
    using take_Suc_conv_app_nth [of n "byAge h2"] l2 h' h2(3) by simp
  then have "mset (byAge h) = add_mset (byAge h ! 0) (mset (byAge h'))"
    using h2(2) by simp
  moreover have "cm_ok h'"
    using o2 h' l2 heap_cong [of n h' h2] by (simp add: cm_ok_def)
  ultimately show ?thesis
    using that h' h n h2(3) by (simp add: heap_Pop_def cm_ok_def h1_def h2_def)
qed

lemma heap_Fix_ok:
  assumes "indexed h" "defect_at h (length (byAge h)) i" "i < length (byAge h)"
  obtains h' where "heap_Fix h i = Ok h'" "cm_ok h'" "mset (byAge h') = mset (byAge h)"
proof -
  define h' where
    "h' = (case down h i i (length (byAge h)) of (moved, h1) \<Rightarrow> if moved then h1 else up h1 i)"
  have d: "indexed (snd (down h i i (length (byAge h))))"
    "mset (byAge (snd (down h i i (length (byAge h))))) = mset (byAge h)"
    using down_keeps [OF assms(1), of "length (byAge h)"] by auto
  then have k: "indexed h'" "mset (byAge h') = mset (byAge h)"
    using up_keeps [OF d(1), of i] assms(3) by (auto simp: h'_def case_prod_beta length_down)
  moreover have "heap_upto h' (length (byAge h))"
    unfolding h'_def using assms by (intro fix_order) auto
  ultimately show ?thesis
    using that [of h'] assms mset_eq_length [OF k(2)]
    by (simp add: heap_Fix_def cm_ok_def h'_def case_prod_beta)
qed

subsection \<open>The abstract map\<close>

text \<open>What the map holds for an address: when the client was last seen, and its queue.\<close>

definition client_of :: "clientMapInner \<Rightarrow> net_addr \<Rightarrow> (int \<times> nat) option" where
  "client_of h = map_of (map (\<lambda>r. (Addr r, LastSeen r, SendQueue r)) (byAge h))"

lemma clientRecord_eta [simp]:
  "\<lparr>Addr = Addr r, LastSeen = LastSeen r, SendQueue = SendQueue r\<rparr> = (r :: clientRecord)"
  by (cases r) simp

lemma client_of_iff:
  assumes "indexed h"
  shows "client_of h a = Some (t, q) \<longleftrightarrow> \<lparr>Addr = a, LastSeen = t, SendQueue = q\<rparr> \<in> set (byAge h)"
proof -
  have "distinct (map fst (map (\<lambda>r. (Addr r, LastSeen r, SendQueue r)) (byAge h)))"
    using indexed_distinct(1) [OF assms] by (simp add: comp_def)
  then have "client_of h a = Some (t, q) \<longleftrightarrow>
      (a, t, q) \<in> set (map (\<lambda>r. (Addr r, LastSeen r, SendQueue r)) (byAge h))"
    unfolding client_of_def by (rule map_of_eq_Some_iff)
  also have "\<dots> \<longleftrightarrow> \<lparr>Addr = a, LastSeen = t, SendQueue = q\<rparr> \<in> set (byAge h)"
    by (auto simp: image_iff intro: bexI [rotated])
  finally show ?thesis .
qed

lemma client_ofI:
  assumes "indexed h" "r \<in> set (byAge h)"
  shows "client_of h (Addr r) = Some (LastSeen r, SendQueue r)"
  using assms by (simp add: client_of_iff)

lemma client_of_None:
  assumes "indexed h"
  shows "client_of h a = None \<longleftrightarrow> map_of (byAddr h) a = None"
  unfolding indexed_lookup_None [OF assms] by (simp add: client_of_def map_of_eq_None_iff image_image)

text \<open>Equality with a map is checked entry by entry.\<close>

lemma client_of_eqI:
  assumes "indexed h"
    and "\<And>a t q. \<lparr>Addr = a, LastSeen = t, SendQueue = q\<rparr> \<in> set (byAge h) \<longleftrightarrow> m a = Some (t, q)"
  shows "client_of h = m"
proof
  fix a
  show "client_of h a = m a"
  proof (cases "m a")
    case None
    then have "client_of h a \<noteq> Some (t, q)" for t q
      using assms(2) [of a t q] by (simp add: client_of_iff [OF assms(1)])
    then show ?thesis
      using None by (cases "client_of h a") auto
  next
    case (Some p)
    then show ?thesis
      using assms(2) [of a "fst p" "snd p"] client_of_iff [OF assms(1), of a "fst p" "snd p"] by simp
  qed
qed

definition unexpired :: "int \<Rightarrow> int \<Rightarrow> clientRecord \<Rightarrow> bool" where
  "unexpired now timeout r \<longleftrightarrow> now - LastSeen r < timeout"

lemma removeExpired_ok:
  assumes "cm_ok h"
  shows "\<exists>h'. removeExpired h now timeout = Ok h' \<and> cm_ok h' \<and>
           mset (byAge h') = filter_mset (unexpired now timeout) (mset (byAge h))"
  using assms
proof (induction h now timeout rule: removeExpired.induct)
  case (1 h now timeout)
  show ?case
  proof (cases "0 < length (byAge h) \<and> timeout \<le> now - LastSeen (byAge h ! 0)")
    case True
    then obtain h' where h': "heap_Pop h = Ok (byAge h ! 0, h')" "cm_ok h'"
      "mset (byAge h) = add_mset (byAge h ! 0) (mset (byAge h'))"
      using heap_Pop_ok [OF "1.prems"] by auto
    show ?thesis
      using "1.IH" [OF True h'(1) refl h'(2)] True h'(1,3)
      by (simp add: removeExpired.simps [of h] unexpired_def)
  next
    case False
    have "unexpired now timeout r" if r: "r \<in> set (byAge h)" for r
    proof -
      obtain k where "k < length (byAge h)" "r = byAge h ! k"
        using r by (auto simp: in_set_conv_nth)
      then show ?thesis
        using False heap_root [of h _ k] "1.prems" by (force simp: unexpired_def cm_ok_def)
    qed
    then have "filter_mset (unexpired now timeout) (mset (byAge h)) = mset (byAge h)"
      by (simp add: filter_mset_eq_conv)
    then show ?thesis
      using False "1.prems" by (auto simp: removeExpired.simps [of h])
  qed
qed

definition drop_expired :: "int \<Rightarrow> int \<Rightarrow> (net_addr \<Rightarrow> (int \<times> nat) option) \<Rightarrow> net_addr \<Rightarrow> (int \<times> nat) option" where
  "drop_expired now timeout m a =
     (case m a of None \<Rightarrow> None | Some (t, q) \<Rightarrow> if now - t < timeout then Some (t, q) else None)"

lemma drop_expired_Some:
  "drop_expired now timeout m a = Some (t, q) \<longleftrightarrow> m a = Some (t, q) \<and> now - t < timeout"
  by (auto simp: drop_expired_def split: option.splits)

lemma removeExpired_client_of:
  assumes "cm_ok h"
  shows "\<exists>h'. removeExpired h now timeout = Ok h' \<and> cm_ok h' \<and>
           client_of h' = drop_expired now timeout (client_of h)"
proof -
  obtain h' where h': "removeExpired h now timeout = Ok h'" "cm_ok h'"
    "mset (byAge h') = filter_mset (unexpired now timeout) (mset (byAge h))"
    using removeExpired_ok [OF assms] by blast
  have "set (byAge h') = {r \<in> set (byAge h). unexpired now timeout r}"
    using arg_cong [OF h'(3), of set_mset] by simp
  then have "client_of h' = drop_expired now timeout (client_of h)"
    using assms h'(2)
    by (intro client_of_eqI) (auto simp: cm_ok_def drop_expired_Some client_of_iff unexpired_def)
  with h' show ?thesis
    by blast
qed

lemma byAge_changed_defect:
  assumes "heap_upto h n" and same: "\<And>k. k \<noteq> i \<Longrightarrow> byAge h' ! k = byAge h ! k"
  shows "defect_at h' n i"
proof -
  have d: "defect_at h n i"
    using assms(1) by (rule heap_defect)
  have "seen h' (parent k) \<le> seen h' k" if "k \<in> {1..<n}" "k \<noteq> i" "parent k \<noteq> i" for k
    using d that same by (simp add: defect_at_def)
  moreover have "seen h' (parent i) \<le> seen h' k" if "k \<in> {1..<n}" "parent k = i" "0 < i" for k
    using d that same [of k] same [of "parent i"] parent_less [of k] parent_less [of i]
    by (auto simp: defect_at_def)
  ultimately show ?thesis
    by (simp add: defect_at_def)
qed

lemma SendQueue_new:
  assumes h: "cm_ok h" and none: "client_of h a = None"
  shows "\<exists>h'. inner_SendQueue h a now q = Ok (q, h') \<and> cm_ok h' \<and>
           client_of h' = (client_of h)(a \<mapsto> (now, q))"
proof -
  let ?r = "\<lparr>Addr = a, LastSeen = now, SendQueue = q\<rparr>"
  have ih: "indexed h"
    using h by (simp add: cm_ok_def)
  have l: "map_of (byAddr h) a = None" "a \<notin> Addr ` set (byAge h)"
    using none client_of_None [OF ih] indexed_lookup_None [OF ih] by auto
  obtain h' where h': "heap_Push h ?r = Ok h'" "cm_ok h'"
    "mset (byAge h') = add_mset ?r (mset (byAge h))"
    using heap_Push_ok [OF h, of ?r] l(2) by auto
  have "set (byAge h') = insert ?r (set (byAge h))"
    using arg_cong [OF h'(3), of set_mset] by simp
  then have "client_of h' = (client_of h)(a \<mapsto> (now, q))"
    using ih h'(2) none l(2)
    by (intro client_of_eqI) (force simp: cm_ok_def client_of_iff [OF ih, symmetric])+
  with h' l(1) show ?thesis
    by (simp add: inner_SendQueue_def)
qed

lemma SendQueue_known:
  assumes h: "cm_ok h" and known: "client_of h a = Some (t, c)"
  shows "\<exists>h'. inner_SendQueue h a now q = Ok (c, h') \<and> cm_ok h' \<and>
           client_of h' = (client_of h)(a \<mapsto> (now, c))"
proof -
  have ih: "indexed h"
    using h by (simp add: cm_ok_def)
  obtain i where i: "i < length (byAge h)" "byAge h ! i = \<lparr>Addr = a, LastSeen = t, SendQueue = c\<rparr>"
    using known by (auto simp: client_of_iff [OF ih] in_set_conv_nth)
  let ?r = "\<lparr>Addr = a, LastSeen = now, SendQueue = c\<rparr>"
  define h1 where "h1 = h\<lparr>byAge := (byAge h)[i := ?r]\<rparr>"
  have addrs: "Addr (byAge h1 ! k) = Addr (byAge h ! k)" for k
    using i by (cases "k = i") (simp_all add: h1_def)
  have "map Addr (byAge h1) = map Addr (byAge h)"
    using addrs by (intro nth_equalityI) (simp_all add: h1_def)
  then have i1: "indexed h1"
    using indexed_distinct [OF ih] indexed_lookup [OF ih] addrs
    by (intro indexedI) (auto simp: h1_def)
  have "defect_at h1 (length (byAge h1)) i"
    using h by (intro byAge_changed_defect [of h]) (simp_all add: cm_ok_def h1_def)
  then obtain h' where h': "heap_Fix h1 i = Ok h'" "cm_ok h'" "mset (byAge h') = mset (byAge h1)"
    using heap_Fix_ok [OF i1] i(1) by (auto simp: h1_def)
  have s: "r \<in> set (byAge h') \<longleftrightarrow> r = ?r \<or> r \<in> set (byAge h) \<and> Addr r \<noteq> a" for r
  proof -
    have "r \<in> set (byAge h') \<longleftrightarrow> r \<in> set (byAge h1)"
      using mset_eq_setD [OF h'(3)] by simp
    also have "\<dots> \<longleftrightarrow> r = ?r \<or> r \<in> set (byAge h) \<and> Addr r \<noteq> a"
      using i Addr_inj [OF ih i(1)] by (auto simp: h1_def in_set_conv_nth nth_list_update)
    finally show ?thesis .
  qed
  have "client_of h' = (client_of h)(a \<mapsto> (now, c))"
    using h'(2) by (intro client_of_eqI) (auto simp: cm_ok_def s client_of_iff [OF ih])
  moreover have "map_of (byAddr h) a = Some i"
    using i by (simp add: indexed_lookup [OF ih])
  ultimately show ?thesis
    using h' i by (simp add: inner_SendQueue_def h1_def)
qed

subsection \<open>The contract of the map\<close>

text \<open>
  What the packet connection relies on: asking for the queue of an address finds the one it has
  or installs the new one, and marks the client as seen; expiry drops the entries that have not
  been seen for \<open>timeout\<close>, and only those.
\<close>

locale expiring_registry =
  fixes ok :: "'h \<Rightarrow> bool"
    and entry :: "'h \<Rightarrow> net_addr \<Rightarrow> (int \<times> nat) option"
    and touch :: "'h \<Rightarrow> net_addr \<Rightarrow> int \<Rightarrow> nat \<Rightarrow> (nat \<times> 'h) go"
    and expire :: "'h \<Rightarrow> int \<Rightarrow> int \<Rightarrow> 'h go"
  assumes touch_new: "\<lbrakk>ok h; entry h a = None\<rbrakk> \<Longrightarrow>
      \<exists>h'. touch h a now q = Ok (q, h') \<and> ok h' \<and> entry h' = (entry h)(a \<mapsto> (now, q))"
    and touch_known: "\<lbrakk>ok h; entry h a = Some (t, c)\<rbrakk> \<Longrightarrow>
      \<exists>h'. touch h a now q = Ok (c, h') \<and> ok h' \<and> entry h' = (entry h)(a \<mapsto> (now, c))"
    and expire_law: "ok h \<Longrightarrow>
      \<exists>h'. expire h now timeout = Ok h' \<and> ok h' \<and> entry h' = drop_expired now timeout (entry h)"
begin

definition queue_or :: "'h \<Rightarrow> net_addr \<Rightarrow> nat \<Rightarrow> nat" where
  "queue_or h a q = (case entry h a of None \<Rightarrow> q | Some (t, c) \<Rightarrow> c)"

lemma touch_ok:
  assumes "ok h"
  obtains h' where "touch h a now q = Ok (queue_or h a q, h')" "ok h'"
    "entry h' = (entry h)(a \<mapsto> (now, queue_or h a q))"
proof (cases "entry h a")
  case None
  then show ?thesis
    using touch_new [OF assms, of a now q] that by (auto simp: queue_or_def)
next
  case (Some p)
  then show ?thesis
    using touch_known [OF assms, of a "fst p" "snd p" now q] that by (auto simp: queue_or_def case_prod_beta)
qed

lemma touch_again:
  assumes "ok h" "touch h a now q = Ok (c, h')"
  shows "\<exists>h''. touch h' a now' q' = Ok (c, h'')"
proof -
  obtain h1 where "touch h a now q = Ok (queue_or h a q, h1)" "ok h1"
    "entry h1 = (entry h)(a \<mapsto> (now, queue_or h a q))"
    using touch_ok [OF assms(1)] .
  then have "ok h'" "entry h' a = Some (now, c)"
    using assms(2) by auto
  then show ?thesis
    using touch_known by blast
qed

end

interpretation clients: expiring_registry cm_ok client_of inner_SendQueue removeExpired
  by unfold_locales (rule SendQueue_new SendQueue_known removeExpired_client_of; assumption)+

subsection \<open>Runs of the map\<close>

datatype cm_op = AskQueue net_addr int nat | Sweep int int

fun cm_run :: "clientMapInner \<Rightarrow> cm_op list \<Rightarrow> (nat list \<times> clientMapInner) go" where
  "cm_run h [] = Ok ([], h)"
| "cm_run h (AskQueue a now q # ops) =
     (case inner_SendQueue h a now q of
        Ok (c, h1) \<Rightarrow>
          (case cm_run h1 ops of Ok (cs, h2) \<Rightarrow> Ok (c # cs, h2) | Err e \<Rightarrow> Err e | Panic m \<Rightarrow> Panic m)
      | Err e \<Rightarrow> Err e
      | Panic m \<Rightarrow> Panic m)"
| "cm_run h (Sweep now timeout # ops) =
     (case removeExpired h now timeout of
        Ok h1 \<Rightarrow> cm_run h1 ops
      | Err e \<Rightarrow> Err e
      | Panic m \<Rightarrow> Panic m)"

text \<open>The same run on a plain map.\<close>

fun map_run :: "(net_addr \<Rightarrow> (int \<times> nat) option) \<Rightarrow> cm_op list \<Rightarrow> nat list \<times> (net_addr \<Rightarrow> (int \<times> nat) option)" where
  "map_run m [] = ([], m)"
| "map_run m (AskQueue a now q # ops) =
     (let c = (case m a of None \<Rightarrow> q | Some (t, c) \<Rightarrow> c)
      in case map_run (m(a \<mapsto> (now, c))) ops of (cs, m') \<Rightarrow> (c # cs, m'))"
| "map_run m (Sweep now timeout # ops) = map_run (drop_expired now timeout m) ops"

lemma cm_run_map:
  assumes "cm_ok h"
  shows "\<exists>h'. cm_run h ops = Ok (fst (map_run (client_of h) ops), h') \<and> cm_ok h' \<and>
           client_of h' = snd (map_run (client_of h) ops)"
  using assms
proof (induction ops arbitrary: h)
  case Nil
  then show ?case by simp
next
  case (Cons op ops)
  show ?case
  proof (cases op)
    case (AskQueue a now q)
    obtain h1 where h1: "inner_SendQueue h a now q = Ok (clients.queue_or h a q, h1)" "cm_ok h1"
      "client_of h1 = (client_of h)(a \<mapsto> (now, clients.queue_or h a q))"
      using clients.touch_ok [OF Cons.prems] .
    have "map_run (client_of h) (op # ops) =
        (clients.queue_or h a q # fst (map_run (client_of h1) ops), snd (map_run (client_of h1) ops))"
      by (simp add: AskQueue h1(3) clients.queue_or_def Let_def case_prod_beta)
    then show ?thesis
      using Cons.IH [OF h1(2)] h1(1) by (auto simp: AskQueue)
  next
    case (Sweep now timeout)
    obtain h1 where "removeExpired h now timeout = Ok h1" "cm_ok h1"
      "client_of h1 = drop_expired now timeout (client_of h)"
      using clients.expire_law [OF Cons.prems] by blast
    then show ?thesis
      using Cons.IH [of h1] Sweep by simp
  qed
qed

lemma cm_ok_new: "cm_ok NewClientMap"
  by (simp add: cm_ok_def NewClientMap_def indexed_def heap_upto_def)

lemma client_of_new: "client_of NewClientMap = Map.empty"
  by (simp add: client_of_def NewClientMap_def)

subsection \<open>Properties\<close>

text \<open>
  C4: Any sequence of \<^verbatim>\<open>SendQueue\<close> calls and expiry sweeps on a new \<^verbatim>\<open>ClientMap\<close> runs without a
  panic (``inconsistent clientMap'', ``duplicate address'', index out of range), keeps the heap
  ordered by age with an exact index map, and returns the queues, and ends with the entries, that
  a plain map from addresses to queues gives.
\<close>

theorem ClientMap_refines_map:
  "\<exists>h. cm_run NewClientMap ops = Ok (fst (map_run Map.empty ops), h) \<and> cm_ok h \<and>
       client_of h = snd (map_run Map.empty ops)"
  using cm_run_map [OF cm_ok_new] by (simp add: client_of_new)

text \<open>
  C5: \<^verbatim>\<open>removeExpired\<close> stops, does not panic, and removes exactly the records whose \<^verbatim>\<open>LastSeen\<close> is
  at least \<open>timeout\<close> before \<open>now\<close>, although it only ever looks at the root of the heap.
\<close>

theorem removeExpired_exact:
  assumes "cm_ok h"
  shows "\<exists>h'. removeExpired h now timeout = Ok h' \<and> cm_ok h' \<and>
           mset (byAge h') = mset (filter (\<lambda>r. \<not> (now - LastSeen r \<ge> timeout)) (byAge h))"
proof -
  have "(\<lambda>r. \<not> (now - LastSeen r \<ge> timeout)) = unexpired now timeout"
    by (auto simp: unexpired_def)
  then show ?thesis
    using removeExpired_ok [OF assms, of now timeout] by (simp add: mset_filter)
qed

theorem removeExpired_exact_witness:
  "\<exists>h. cm_run NewClientMap [AskQueue DummyAddr 5 0, AskQueue (ClientID [1]) 9 1] = Ok ([0, 1], h) \<and>
     (\<exists>h'. removeExpired h 12 4 = Ok h' \<and> cm_ok h' \<and>
        mset (byAge h') = mset [\<lparr>Addr = ClientID [1], LastSeen = 9, SendQueue = 1\<rparr>])"
proof -
  let ?r = "\<lparr>Addr = DummyAddr, LastSeen = 5, SendQueue = 0\<rparr>"
    and ?s = "\<lparr>Addr = ClientID [1], LastSeen = 9, SendQueue = 1\<rparr>"
  let ?h = "\<lparr>byAge = [?r, ?s], byAddr = [(DummyAddr, 0), (ClientID [1], 1)]\<rparr>"
  have "cm_run NewClientMap [AskQueue DummyAddr 5 0, AskQueue (ClientID [1]) 9 1] = Ok ([0, 1], ?h)"
    by code_simp
  moreover have "cm_ok ?h"
    by code_simp
  ultimately show ?thesis
    using removeExpired_exact [of ?h 12 4] by simp
qed

end
