(* ===== verification/Queue_Packet_Conn.thy ===== *)
theory Queue_Packet_Conn
  imports Client_Map "HOL-Library.Sublist"
begin

text \<open>
  \<^verbatim>\<open>snowflake/common/turbotunnel/consts.go\<close> and \<^verbatim>\<open>queuepacketconn.go\<close>: the packet connection
  under the KCP listener, one receive queue and one send queue per client.  The send queues are
  channels made by \<open>ClientMap\<close>; \<open>chans\<close> is the store of them, indexed by the references the
  client map holds, so that a reader keeps the channel it was given after the map has dropped it.
  A blocked receive is the result \<open>None\<close>; \<open>pick\<close> resolves a \<^verbatim>\<open>select\<close> with two ready cases.

  The locale \<open>close_once\<close> is the contract of the \<^verbatim>\<open>closeWithError\<close> methods; it is interpreted here
  and for \<open>RedialPacketConn\<close>.
\<close>

subsection \<open>Channels and data\<close>

definition Token :: bytes where
  "Token = [0x12, 0x93, 0x60, 0x5d, 0x27, 0x81, 0x75, 0xf5]"

definition queueSize :: nat where
  "queueSize = 32"

text \<open>A send in a \<^verbatim>\<open>select\<close> with a \<^verbatim>\<open>default\<close> case: the value is dropped if the buffer is full.\<close>

definition offer :: "'a list \<Rightarrow> 'a \<Rightarrow> 'a list" where
  "offer q x = (if length q < queueSize then q @ [x] else q)"

record taggedPacket =
  P :: bytes
  PAddr :: net_addr

record QueuePacketConn =
  clients :: clientMapInner
  localAddr :: net_addr
  recvQueue :: "taggedPacket list"
  closed :: bool
  conn_err :: "error option"
  chans :: "bytes list list"
  cm_timeout :: int

definition NewQueuePacketConn :: "net_addr \<Rightarrow> int \<Rightarrow> QueuePacketConn" where
  "NewQueuePacketConn addr timeout =
     \<lparr>clients = NewClientMap, localAddr = addr, recvQueue = [], closed = False, conn_err = None,
      chans = [], cm_timeout = timeout\<rparr>"

subsection \<open>Operations\<close>

text \<open>\<^verbatim>\<open>c.err.Load().(error)\<close>, wrapped in a \<^verbatim>\<open>net.OpError\<close>; the conversion panics on a nil value.\<close>

definition op_error :: "string \<Rightarrow> error option \<Rightarrow> error go" where
  "op_error opn e =
     (case e of None \<Rightarrow> Panic ''interface conversion'' | Some e' \<Rightarrow> Ok (OpError opn e'))"

text \<open>
  \<^verbatim>\<open>QueueIncoming\<close> and \<^verbatim>\<open>WriteTo\<close> look at \<^verbatim>\<open>closed\<close> in a first \<^verbatim>\<open>select\<close> and send in a second one.  The second
  is an operation of its own; \<open>close_between_selects\<close> below shows that a close between the two leaves the
  state of the undivided operation followed by the close.
\<close>

definition QueueIncoming_send :: "QueuePacketConn \<Rightarrow> bytes \<Rightarrow> net_addr \<Rightarrow> QueuePacketConn" where
  "QueueIncoming_send c p addr = c\<lparr>recvQueue := offer (recvQueue c) \<lparr>P = p, PAddr = addr\<rparr>\<rparr>"

definition QueueIncoming :: "QueuePacketConn \<Rightarrow> bytes \<Rightarrow> net_addr \<Rightarrow> QueuePacketConn" where
  "QueueIncoming c p addr = (if closed c then c else QueueIncoming_send c p addr)"

text \<open>\<^verbatim>\<open>ClientMap.SendQueue\<close>: a new record takes the next free channel of the store.\<close>

definition map_SendQueue :: "QueuePacketConn \<Rightarrow> net_addr \<Rightarrow> int \<Rightarrow> (nat \<times> QueuePacketConn) go" where
  "map_SendQueue c addr now =
     (case inner_SendQueue (clients c) addr now (length (chans c)) of
        Ok (q, h) \<Rightarrow>
          Ok (q, c\<lparr>clients := h,
                   chans := (if q = length (chans c) then chans c @ [[]] else chans c)\<rparr>)
      | Err e \<Rightarrow> Err e
      | Panic m \<Rightarrow> Panic m)"

definition OutgoingQueue :: "QueuePacketConn \<Rightarrow> net_addr \<Rightarrow> int \<Rightarrow> (nat \<times> QueuePacketConn) go" where
  "OutgoingQueue c addr now = map_SendQueue c addr now"

text \<open>
  The second \<^verbatim>\<open>select\<close> of \<^verbatim>\<open>ReadFrom\<close>, in the state the goroutine finds when it gets there, which
  may be later than the first one.
\<close>

definition ReadFrom_select :: "bool \<Rightarrow> QueuePacketConn \<Rightarrow> nat
    \<Rightarrow> ((error + bytes \<times> net_addr) option \<times> QueuePacketConn) go" where
  "ReadFrom_select pick c n =
     (if closed c \<and> (pick \<or> recvQueue c = []) then
        (case op_error ''read'' (conn_err c) of
           Ok e \<Rightarrow> Ok (Some (Inl e), c) | Err e \<Rightarrow> Err e | Panic m \<Rightarrow> Panic m)
      else
        (case recvQueue c of
           [] \<Rightarrow> Ok (None, c)
         | x # xs \<Rightarrow> Ok (Some (Inr (take n (P x), PAddr x)), c\<lparr>recvQueue := xs\<rparr>)))"

definition ReadFrom :: "bool \<Rightarrow> QueuePacketConn \<Rightarrow> nat
    \<Rightarrow> ((error + bytes \<times> net_addr) option \<times> QueuePacketConn) go" where
  "ReadFrom pick c n =
     (if closed c then
        (case op_error ''read'' (conn_err c) of
           Ok e \<Rightarrow> Ok (Some (Inl e), c) | Err e \<Rightarrow> Err e | Panic m \<Rightarrow> Panic m)
      else ReadFrom_select pick c n)"

definition WriteTo_send :: "QueuePacketConn \<Rightarrow> bytes \<Rightarrow> net_addr \<Rightarrow> int
    \<Rightarrow> ((error + nat) \<times> QueuePacketConn) go" where
  "WriteTo_send c p addr now =
     (case map_SendQueue c addr now of
        Ok (q, c') \<Rightarrow>
          Ok (Inr (length p), c'\<lparr>chans := (chans c')[q := offer (chans c' ! q) p]\<rparr>)
      | Err e \<Rightarrow> Err e
      | Panic m \<Rightarrow> Panic m)"

definition WriteTo :: "QueuePacketConn \<Rightarrow> bytes \<Rightarrow> net_addr \<Rightarrow> int
    \<Rightarrow> ((error + nat) \<times> QueuePacketConn) go" where
  "WriteTo c p addr now =
     (if closed c then
        (case op_error ''write'' (conn_err c) of
           Ok e \<Rightarrow> Ok (Inl e, c) | Err e \<Rightarrow> Err e | Panic m \<Rightarrow> Panic m)
      else WriteTo_send c p addr now)"

definition closeWithError :: "QueuePacketConn \<Rightarrow> error option \<Rightarrow> (error option \<times> QueuePacketConn) go" where
  "closeWithError c e =
     (if closed c then
        (case op_error ''close'' (conn_err c) of
           Ok e' \<Rightarrow> Ok (Some e', c) | Err e' \<Rightarrow> Err e' | Panic m \<Rightarrow> Panic m)
      else
        (let e' = (case e of None \<Rightarrow> ErrClosedPacketConn | Some x \<Rightarrow> x)
         in Ok (None, c\<lparr>conn_err := Some e', closed := True\<rparr>)))"

definition Close :: "QueuePacketConn \<Rightarrow> (error option \<times> QueuePacketConn) go" where
  "Close c = closeWithError c None"

lemma close_between_selects:
  assumes "\<not> closed c" "closeWithError c e = Ok (r, c1)"
  shows "closeWithError (QueueIncoming c p addr) e = Ok (r, QueueIncoming_send c1 p addr)"
    and "WriteTo c p addr now = Ok (x, c2) \<Longrightarrow>
      \<exists>c3. WriteTo_send c1 p addr now = Ok (x, c3) \<and> closeWithError c2 e = Ok (r, c3)"
  using assms
  by (auto simp: closeWithError_def QueueIncoming_def QueueIncoming_send_def WriteTo_def WriteTo_send_def map_SendQueue_def
      split: go.splits prod.splits)

text \<open>The three deadline setters.\<close>

definition SetDeadline :: "int \<Rightarrow> QueuePacketConn \<Rightarrow> error option \<times> QueuePacketConn" where
  "SetDeadline t c = (Some ErrNotImplemented, c)"

text \<open>The two things other goroutines do with the connection: a carrier receives from a send
  queue, and the goroutine of \<^verbatim>\<open>NewClientMap\<close> expires clients.\<close>

definition receive :: "QueuePacketConn \<Rightarrow> nat \<Rightarrow> bytes option \<times> QueuePacketConn" where
  "receive c q =
     (if q < length (chans c) then
        (case chans c ! q of
           [] \<Rightarrow> (None, c)
         | p # ps \<Rightarrow> (Some p, c\<lparr>chans := (chans c)[q := ps]\<rparr>))
      else (None, c))"

definition sweep :: "QueuePacketConn \<Rightarrow> int \<Rightarrow> QueuePacketConn go" where
  "sweep c now =
     (case removeExpired (clients c) now (cm_timeout c) of
        Ok h \<Rightarrow> Ok (c\<lparr>clients := h\<rparr>)
      | Err e \<Rightarrow> Err e
      | Panic m \<Rightarrow> Panic m)"

subsection \<open>Closing once\<close>

locale close_once =
  fixes ok :: "'s \<Rightarrow> bool"
    and is_closed :: "'s \<Rightarrow> bool"
    and cause :: "'s \<Rightarrow> error option"
    and close_with :: "'s \<Rightarrow> error option \<Rightarrow> (error option \<times> 's) go"
    and closed_error :: error
  assumes close_first: "\<lbrakk>ok s; \<not> is_closed s\<rbrakk> \<Longrightarrow>
      \<exists>s'. close_with s e = Ok (None, s') \<and> ok s' \<and> is_closed s' \<and>
           cause s' = Some (case e of None \<Rightarrow> closed_error | Some x \<Rightarrow> x)"
    and close_again: "\<lbrakk>ok s; is_closed s\<rbrakk> \<Longrightarrow>
      \<exists>c. cause s = Some c \<and> close_with s e = Ok (Some (OpError ''close'' c), s)"
begin

fun close_all :: "'s \<Rightarrow> error option list \<Rightarrow> (error option list \<times> 's) go" where
  "close_all s [] = Ok ([], s)"
| "close_all s (e # es) =
     (case close_with s e of
        Ok (r, s1) \<Rightarrow>
          (case close_all s1 es of Ok (rs, s2) \<Rightarrow> Ok (r # rs, s2) | Err x \<Rightarrow> Err x | Panic m \<Rightarrow> Panic m)
      | Err x \<Rightarrow> Err x
      | Panic m \<Rightarrow> Panic m)"

lemma close_closed:
  assumes "ok s" "is_closed s" "cause s = Some c"
  shows "close_all s es = Ok (map (\<lambda>_. Some (OpError ''close'' c)) es, s)"
proof (induction es)
  case (Cons e es)
  moreover have "close_with s e = Ok (Some (OpError ''close'' c), s)"
    using close_again [OF assms(1,2), of e] assms(3) by simp
  ultimately show ?case by simp
qed simp

lemma close_all_first:
  assumes "ok s" "\<not> is_closed s"
  shows "\<exists>s' c. c = (case e of None \<Rightarrow> closed_error | Some x \<Rightarrow> x) \<and> cause s' = Some c \<and> is_closed s' \<and>
           close_all s (e # es) = Ok (None # map (\<lambda>_. Some (OpError ''close'' c)) es, s')"
proof -
  obtain s' where "close_with s e = Ok (None, s')" "ok s'" "is_closed s'"
    "cause s' = Some (case e of None \<Rightarrow> closed_error | Some x \<Rightarrow> x)"
    using close_first [OF assms] by blast
  then show ?thesis
    using close_closed [of s' _ es] by simp
qed

end

definition closed_ok :: "QueuePacketConn \<Rightarrow> bool" where
  "closed_ok c \<longleftrightarrow> (closed c \<longleftrightarrow> conn_err c \<noteq> None)"

interpretation qclose: close_once closed_ok closed conn_err closeWithError ErrClosedPacketConn
  by unfold_locales (auto simp: closed_ok_def closeWithError_def op_error_def)

subsection \<open>Runs\<close>

datatype qop =
    Incoming bytes net_addr | Outgoing net_addr int | Recv nat | ReadOp bool nat | ReadWaiting bool nat
  | WriteOp bytes net_addr int | CloseOp "error option" | SweepOp int

datatype qev =
    EIncoming bytes net_addr bool | EQueue net_addr nat | ERecv nat "bytes option"
  | ERead nat "(error + bytes \<times> net_addr) option"
  | EReadWaiting nat "(error + bytes \<times> net_addr) option" | EWrite bytes net_addr "error + nat"
  | EClose "error option" | ESweep

definition go_map :: "('a \<Rightarrow> 'b) \<Rightarrow> 'a go \<Rightarrow> 'b go" where
  "go_map f r = (case r of Ok x \<Rightarrow> Ok (f x) | Err e \<Rightarrow> Err e | Panic m \<Rightarrow> Panic m)"

fun qstep :: "QueuePacketConn \<Rightarrow> qop \<Rightarrow> (qev \<times> QueuePacketConn) go" where
  "qstep c (Incoming p a) =
     Ok (EIncoming p a (\<not> closed c \<and> length (recvQueue c) < queueSize), QueueIncoming c p a)"
| "qstep c (Outgoing a now) = go_map (apfst (EQueue a)) (OutgoingQueue c a now)"
| "qstep c (Recv q) = Ok (apfst (ERecv q) (receive c q))"
| "qstep c (ReadOp pick n) = go_map (apfst (ERead n)) (ReadFrom pick c n)"
| "qstep c (ReadWaiting pick n) = go_map (apfst (EReadWaiting n)) (ReadFrom_select pick c n)"
| "qstep c (WriteOp p a now) = go_map (apfst (EWrite p a)) (WriteTo c p a now)"
| "qstep c (CloseOp e) = go_map (apfst EClose) (closeWithError c e)"
| "qstep c (SweepOp now) = go_map (Pair ESweep) (sweep c now)"

fun qrun :: "QueuePacketConn \<Rightarrow> qop list \<Rightarrow> (qev list \<times> QueuePacketConn) go" where
  "qrun c [] = Ok ([], c)"
| "qrun c (x # xs) =
     (case qstep c x of
        Ok (e, c1) \<Rightarrow> (case qrun c1 xs of Ok (es, c2) \<Rightarrow> Ok (e # es, c2) | Err y \<Rightarrow> Err y | Panic m \<Rightarrow> Panic m)
      | Err y \<Rightarrow> Err y
      | Panic m \<Rightarrow> Panic m)"

lemma go_map_simps [simp]:
  "go_map f (Ok x) = Ok (f x)" "go_map f (Err e) = Err e" "go_map f (Panic m) = Panic m"
  by (simp_all add: go_map_def)

text \<open>An invariant of the history and the state that every step keeps holds after every run.\<close>

lemma qrun_invariant:
  assumes "I h c" "\<forall>x \<in> set ops. R x"
    and step: "\<And>h c x. R x \<Longrightarrow> I h c \<Longrightarrow> \<exists>e c'. qstep c x = Ok (e, c') \<and> I (h @ [e]) c'"
  shows "\<exists>es c'. qrun c ops = Ok (es, c') \<and> I (h @ es) c'"
  using assms(1,2)
proof (induction ops arbitrary: h c)
  case (Cons x ops)
  obtain e c1 where "qstep c x = Ok (e, c1)" "I (h @ [e]) c1"
    using step Cons.prems by (metis list.set_intros(1))
  then show ?case
    using Cons.IH [of "h @ [e]" c1] Cons.prems by auto
qed simp

lemma qrun_append:
  assumes "qrun c xs = Ok (es, c1)" "qrun c1 ys = Ok (fs, c2)"
  shows "qrun c (xs @ ys) = Ok (es @ fs, c2)"
  using assms
proof (induction xs arbitrary: c es)
  case (Cons x xs)
  then show ?case
    by (fastforce split: go.splits prod.splits)
qed simp

subsection \<open>The state invariant\<close>

definition qpc_ok :: "QueuePacketConn \<Rightarrow> bool" where
  "qpc_ok c \<longleftrightarrow>
     closed_ok c \<and> cm_ok (clients c) \<and> length (recvQueue c) \<le> queueSize \<and>
     (\<forall>q \<in> set (chans c). length q \<le> queueSize) \<and>
     (\<forall>a t q. client_of (clients c) a = Some (t, q) \<longrightarrow> q < length (chans c))"

lemma new_simps [simp]:
  "clients (NewQueuePacketConn a t) = NewClientMap" "recvQueue (NewQueuePacketConn a t) = []"
  "closed (NewQueuePacketConn a t) = False" "conn_err (NewQueuePacketConn a t) = None"
  "chans (NewQueuePacketConn a t) = []"
  by (simp_all add: NewQueuePacketConn_def)

lemma qpc_ok_new: "qpc_ok (NewQueuePacketConn a t)"
  by (simp add: qpc_ok_def closed_ok_def cm_ok_new client_of_new)

lemma length_offer: "length q \<le> queueSize \<Longrightarrow> length (offer q x) \<le> queueSize"
  by (simp add: offer_def)

lemma chans_update_le:
  assumes "\<forall>x \<in> set ch. length x \<le> queueSize" "length y \<le> queueSize"
  shows "\<forall>x \<in> set (ch[q := y]). length x \<le> queueSize"
  using assms set_update_subset_insert [of ch q y] by auto

text \<open>The queue of an address: the one it had, or a new empty channel.\<close>

lemma map_SendQueue_ok:
  assumes "qpc_ok c"
  obtains q h ch where
    "map_SendQueue c a now = Ok (q, c\<lparr>clients := h, chans := ch\<rparr>)" "cm_ok h"
    "client_of h = (client_of (clients c))(a \<mapsto> (now, q))" "q < length ch"
    "ch = chans c \<and> (\<exists>t. client_of (clients c) a = Some (t, q)) \<or> ch = chans c @ [[]] \<and> q = length (chans c)"
proof -
  have ok: "cm_ok (clients c)"
    and old: "\<And>t q. client_of (clients c) a = Some (t, q) \<Longrightarrow> q < length (chans c)"
    using assms by (auto simp: qpc_ok_def)
  let ?q = "clients.queue_or (clients c) a (length (chans c))"
  obtain h where h: "inner_SendQueue (clients c) a now (length (chans c)) = Ok (?q, h)" "cm_ok h"
    "client_of h = (client_of (clients c))(a \<mapsto> (now, ?q))"
    using clients.touch_ok [OF ok] .
  show ?thesis
  proof (cases "client_of (clients c) a")
    case None
    then have "?q = length (chans c)"
      by (simp add: clients.queue_or_def)
    then show ?thesis
      using that [of "length (chans c)" "chans c @ [[]]" h] h by (simp add: map_SendQueue_def)
  next
    case (Some p)
    then obtain t q where e: "client_of (clients c) a = Some (t, q)"
      by (cases p) simp
    then have "?q = q" "q < length (chans c)"
      using old by (simp_all add: clients.queue_or_def)
    then show ?thesis
      using that [of q "chans c" h] h e by (simp add: map_SendQueue_def)
  qed
qed

lemma sweep_ok:
  assumes "qpc_ok c"
  obtains h where "sweep c now = Ok (c\<lparr>clients := h\<rparr>)" "cm_ok h"
    "client_of h = drop_expired now (cm_timeout c) (client_of (clients c))"
proof -
  have "cm_ok (clients c)"
    using assms by (simp add: qpc_ok_def)
  then show ?thesis
    using clients.expire_law [of "clients c" now "cm_timeout c"] that by (auto simp: sweep_def)
qed

lemma close_ok:
  assumes "qpc_ok c"
  shows "\<exists>r c'. closeWithError c e = Ok (r, c') \<and> qpc_ok c' \<and> closed c' \<and>
           clients c' = clients c \<and> chans c' = chans c \<and> recvQueue c' = recvQueue c"
  using assms by (auto simp: closeWithError_def qpc_ok_def closed_ok_def op_error_def)

lemma read_ok:
  assumes "qpc_ok c"
  shows "(\<exists>e. ReadFrom_select pick c n = Ok (Some (Inl e), c)) \<or>
         (recvQueue c = [] \<and> ReadFrom_select pick c n = Ok (None, c)) \<or>
         (\<exists>x xs. recvQueue c = x # xs \<and>
            ReadFrom_select pick c n = Ok (Some (Inr (take n (P x), PAddr x)), c\<lparr>recvQueue := xs\<rparr>))"
  using assms
  by (cases "recvQueue c") (auto simp: ReadFrom_select_def qpc_ok_def closed_ok_def op_error_def)

lemma ReadFrom_cases:
  assumes "qpc_ok c"
  shows "(\<exists>e. ReadFrom pick c n = Ok (Some (Inl e), c)) \<or> ReadFrom pick c n = ReadFrom_select pick c n"
  using assms by (auto simp: ReadFrom_def qpc_ok_def closed_ok_def op_error_def)

text \<open>Every step succeeds, without a panic, and keeps the invariant.\<close>

lemma send_ok:
  assumes c: "qpc_ok c" and h: "cm_ok h" "client_of h = (client_of (clients c))(a \<mapsto> (now, q))"
    and ch: "q < length ch" "ch = chans c \<and> X \<or> ch = chans c @ [[]] \<and> Y"
  shows "qpc_ok (c\<lparr>clients := h, chans := ch\<rparr>)"
    and "qpc_ok (c\<lparr>clients := h, chans := ch[q := offer (ch ! q) p]\<rparr>)"
proof -
  have len: "\<forall>x \<in> set ch. length x \<le> queueSize"
    using ch c by (auto simp: qpc_ok_def)
  then have "\<forall>x \<in> set (ch[q := offer (ch ! q) p]). length x \<le> queueSize"
    using ch(1) by (intro chans_update_le length_offer) auto
  moreover have "r < length ch" if "client_of h b = Some (t, r)" for b t r
    using that c ch by (fastforce simp: h(2) qpc_ok_def split: if_splits)
  ultimately show "qpc_ok (c\<lparr>clients := h, chans := ch\<rparr>)"
    and "qpc_ok (c\<lparr>clients := h, chans := ch[q := offer (ch ! q) p]\<rparr>)"
    using c h len by (simp_all add: qpc_ok_def closed_ok_def)
qed

lemma sweep_keeps:
  assumes "qpc_ok c" "cm_ok h" "client_of h = drop_expired now timeout (client_of (clients c))"
  shows "qpc_ok (c\<lparr>clients := h\<rparr>)"
  using assms by (auto simp: qpc_ok_def closed_ok_def drop_expired_Some)

lemma receive_keeps:
  assumes "qpc_ok c"
  shows "qpc_ok (snd (receive c q))"
proof (cases "q < length (chans c) \<and> chans c ! q \<noteq> []")
  case True
  then obtain p ps where ps: "chans c ! q = p # ps"
    by (cases "chans c ! q") auto
  have "length (chans c ! q) \<le> queueSize"
    using True assms by (simp add: qpc_ok_def)
  then have "\<forall>x \<in> set ((chans c)[q := ps]). length x \<le> queueSize"
    using assms ps by (intro chans_update_le) (auto simp: qpc_ok_def)
  then show ?thesis
    using assms True ps by (simp add: receive_def qpc_ok_def closed_ok_def)
next
  case False
  then show ?thesis
    using assms by (auto simp: receive_def)
qed

lemma OutgoingQueue_ok:
  assumes c: "qpc_ok c"
  shows "\<exists>q c'. OutgoingQueue c a now = Ok (q, c') \<and> qpc_ok c'"
proof -
  obtain q h ch where m: "map_SendQueue c a now = Ok (q, c\<lparr>clients := h, chans := ch\<rparr>)"
    and ok: "cm_ok h" "client_of h = (client_of (clients c))(a \<mapsto> (now, q))" "q < length ch"
      "ch = chans c \<and> (\<exists>t. client_of (clients c) a = Some (t, q)) \<or> ch = chans c @ [[]] \<and> q = length (chans c)"
    using map_SendQueue_ok [OF c] .
  show ?thesis
    using m send_ok(1) [OF c ok] by (simp add: OutgoingQueue_def)
qed

lemma WriteTo_ok:
  assumes c: "qpc_ok c"
  shows "\<exists>r c'. WriteTo c p a now = Ok (r, c') \<and> qpc_ok c'"
proof (cases "closed c")
  case True
  then show ?thesis
    using c by (auto simp: WriteTo_def WriteTo_send_def qpc_ok_def closed_ok_def op_error_def)
next
  case False
  obtain q h ch where m: "map_SendQueue c a now = Ok (q, c\<lparr>clients := h, chans := ch\<rparr>)"
    and ok: "cm_ok h" "client_of h = (client_of (clients c))(a \<mapsto> (now, q))" "q < length ch"
      "ch = chans c \<and> (\<exists>t. client_of (clients c) a = Some (t, q)) \<or> ch = chans c @ [[]] \<and> q = length (chans c)"
    using map_SendQueue_ok [OF c] .
  show ?thesis
    using False m send_ok(2) [OF c ok] by (simp add: WriteTo_def WriteTo_send_def)
qed

lemma qstep_ok:
  assumes c: "qpc_ok c"
  shows "\<exists>e c'. qstep c x = Ok (e, c') \<and> qpc_ok c'"
proof (cases x)
  case (Incoming p a)
  then show ?thesis
    using c by (simp add: QueueIncoming_def QueueIncoming_send_def qpc_ok_def closed_ok_def length_offer)
next
  case (Outgoing a now)
  then show ?thesis
    using OutgoingQueue_ok [OF c, of a now] by auto
next
  case (Recv q)
  then show ?thesis
    using receive_keeps [OF c, of q] by (cases "receive c q") simp
next
  case (ReadOp pick n)
  then show ?thesis
    using ReadFrom_cases [OF c, of pick n] read_ok [OF c, of pick n] c
    by (auto simp: qpc_ok_def closed_ok_def)
next
  case (ReadWaiting pick n)
  then show ?thesis
    using read_ok [OF c, of pick n] c by (auto simp: qpc_ok_def closed_ok_def)
next
  case (WriteOp p a now)
  then show ?thesis
    using WriteTo_ok [OF c, of p a now] by auto
next
  case (CloseOp e)
  then show ?thesis
    using close_ok [OF c, of e] by auto
next
  case (SweepOp now)
  obtain h where "sweep c now = Ok (c\<lparr>clients := h\<rparr>)" "cm_ok h"
    "client_of h = drop_expired now (cm_timeout c) (client_of (clients c))"
    using sweep_ok [OF c] .
  then show ?thesis
    using SweepOp sweep_keeps [OF c] by simp
qed

subsection \<open>Histories\<close>

fun written1 :: "net_addr \<Rightarrow> qev \<Rightarrow> bytes list" where
  "written1 a (EWrite p b (Inr n)) = (if b = a then [p] else [])"
| "written1 a _ = []"

fun received1 :: "nat \<Rightarrow> qev \<Rightarrow> bytes list" where
  "received1 q (ERecv r (Some p)) = (if r = q then [p] else [])"
| "received1 q _ = []"

fun accepted1 :: "qev \<Rightarrow> taggedPacket list" where
  "accepted1 (EIncoming p a True) = [\<lparr>P = p, PAddr = a\<rparr>]"
| "accepted1 _ = []"

fun delivered1 :: "qev \<Rightarrow> (nat \<times> bytes \<times> net_addr) list" where
  "delivered1 (ERead n (Some (Inr (bs, a)))) = [(n, bs, a)]"
| "delivered1 (EReadWaiting n (Some (Inr (bs, a)))) = [(n, bs, a)]"
| "delivered1 _ = []"

definition written :: "net_addr \<Rightarrow> qev list \<Rightarrow> bytes list" where
  "written a h = concat (map (written1 a) h)"

definition received :: "nat \<Rightarrow> qev list \<Rightarrow> bytes list" where
  "received q h = concat (map (received1 q) h)"

definition accepted :: "qev list \<Rightarrow> taggedPacket list" where
  "accepted h = concat (map accepted1 h)"

definition delivered :: "qev list \<Rightarrow> (nat \<times> bytes \<times> net_addr) list" where
  "delivered h = concat (map delivered1 h)"

lemma history_snoc [simp]:
  "written a (h @ [e]) = written a h @ written1 a e"
  "received q (h @ [e]) = received q h @ received1 q e"
  "accepted (h @ [e]) = accepted h @ accepted1 e"
  "delivered (h @ [e]) = delivered h @ delivered1 e"
  by (simp_all add: written_def received_def accepted_def delivered_def)

subsection \<open>Every channel belongs to one client\<close>

definition owners_ok :: "net_addr list \<Rightarrow> QueuePacketConn \<Rightarrow> bool" where
  "owners_ok owner c \<longleftrightarrow>
     length owner = length (chans c) \<and>
     (\<forall>a t q. client_of (clients c) a = Some (t, q) \<longrightarrow> owner ! q = a)"

definition history_ok :: "net_addr list \<Rightarrow> qev list \<Rightarrow> bytes list list \<Rightarrow> bool" where
  "history_ok owner h ch \<longleftrightarrow>
     (\<forall>a q. EQueue a q \<in> set h \<longrightarrow> q < length owner \<and> owner ! q = a) \<and>
     (\<forall>q. length owner \<le> q \<longrightarrow> received q h = []) \<and>
     (\<forall>q < length owner. subseq (received q h @ ch ! q) (written (owner ! q) h))"

lemma history_silent:
  assumes "history_ok owner h ch"
    and "\<And>a. written1 a e = []" "\<And>q. received1 q e = []" "\<And>a q. e \<noteq> EQueue a q"
  shows "history_ok owner (h @ [e]) ch"
  unfolding history_ok_def
proof (intro conjI allI impI)
  fix a q assume "EQueue a q \<in> set (h @ [e])"
  then have "EQueue a q \<in> set h"
    using assms(4) [of a q] by auto
  then show "q < length owner" "owner ! q = a"
    using assms(1) by (simp_all add: history_ok_def)
qed (use assms in \<open>simp_all add: history_ok_def\<close>)

lemma history_queue:
  assumes "history_ok owner h ch" "q < length owner" "owner ! q = a"
  shows "history_ok owner (h @ [EQueue a q]) ch"
  using assms by (simp add: history_ok_def)

lemma history_new:
  assumes "history_ok owner h ch" "length owner = length ch"
  shows "history_ok (owner @ [a]) h (ch @ [[]])"
  using assms by (auto simp: history_ok_def nth_append less_Suc_eq)

lemma owners_send:
  assumes o: "owners_ok owner c" and h: "history_ok owner h (chans c)" and c: "qpc_ok c"
    and e: "client_of hh = (client_of (clients c))(a \<mapsto> (now, q))"
    and ch: "ch = chans c \<and> (\<exists>t. client_of (clients c) a = Some (t, q)) \<or> ch = chans c @ [[]] \<and> q = length (chans c)"
  obtains owner' where "owners_ok owner' (c\<lparr>clients := hh, chans := ch\<rparr>)" "history_ok owner' h ch"
    "q < length owner'" "owner' ! q = a"
proof -
  have l: "length owner = length (chans c)"
    using o by (simp add: owners_ok_def)
  have old: "r < length owner \<and> owner ! r = b" if "client_of (clients c) b = Some (t, r)" for b t r
    using o c that unfolding owners_ok_def qpc_ok_def by metis
  have new: "owner' ! r = b" if "client_of hh b = Some (t, r)" "owner' ! q = a"
    "\<forall>r < length owner. owner' ! r = owner ! r" for owner' b t r
    using that old [of b t r] by (cases "b = a") (simp_all add: e)
  from ch show ?thesis
  proof
    assume k: "ch = chans c \<and> (\<exists>t. client_of (clients c) a = Some (t, q))"
    then show ?thesis
      using that [of owner] old [of a _ q] new [of _ _ _ owner] h l by (auto simp: owners_ok_def)
  next
    assume k: "ch = chans c @ [[]] \<and> q = length (chans c)"
    then show ?thesis
      using that [of "owner @ [a]"] new [of _ _ _ "owner @ [a]"] history_new [OF h l] l
      by (simp add: owners_ok_def nth_append)
  qed
qed

lemma history_write:
  assumes o: "history_ok owner h ch" "q < length owner" "owner ! q = a" "length owner = length ch"
  shows "history_ok owner (h @ [EWrite p a (Inr n)]) (ch[q := offer (ch ! q) p])"
proof -
  have old: "subseq (received r h @ ch ! r) (written (owner ! r) h)" if "r < length owner" for r
    using o that by (simp add: history_ok_def)
  have "subseq (received r h @ ch[q := offer (ch ! q) p] ! r)
        (written (owner ! r) h @ written1 (owner ! r) (EWrite p a (Inr n)))" if r: "r < length owner" for r
  proof (cases "r = q \<and> length (ch ! q) < queueSize")
    case True
    then show ?thesis
      using o old [OF r] list_emb_append_mono [of "(=)" "received q h @ ch ! q" _ "[p]" "[p]"]
      by (simp add: offer_def)
  next
    case False
    then have "ch[q := offer (ch ! q) p] ! r = ch ! r"
      using o r by (auto simp: offer_def nth_list_update)
    then show ?thesis
      using list_emb_prefix [OF old [OF r]] by simp
  qed
  then show ?thesis
    using o(1) by (simp add: history_ok_def)
qed

lemma history_receive:
  assumes o: "history_ok owner h (chans c)" "length owner = length (chans c)"
  shows "history_ok owner (h @ [ERecv q (fst (receive c q))]) (chans (snd (receive c q)))"
proof (cases "q < length (chans c) \<and> chans c ! q \<noteq> []")
  case True
  then obtain p ps where ps: "chans c ! q = p # ps"
    by (cases "chans c ! q") auto
  have "received r h @ received1 r (ERecv q (Some p)) @ (chans c)[q := ps] ! r = received r h @ chans c ! r" for r
    using True ps by (cases "r = q") auto
  moreover have "receive c q = (Some p, c\<lparr>chans := (chans c)[q := ps]\<rparr>)"
    using True ps by (simp add: receive_def)
  ultimately show ?thesis
    using o True by (auto simp: history_ok_def)
next
  case False
  then have "receive c q = (None, c)"
    by (auto simp: receive_def)
  then show ?thesis
    using history_silent [OF o(1), of "ERecv q None"] by simp
qed

definition isolated :: "qev list \<Rightarrow> QueuePacketConn \<Rightarrow> bool" where
  "isolated h c \<longleftrightarrow> qpc_ok c \<and> (\<exists>owner. owners_ok owner c \<and> history_ok owner h (chans c))"

lemma isolated_silent:
  assumes i: "isolated h c" and c': "qpc_ok c'" "chans c' = chans c" "clients c' = clients c"
    and e: "\<And>a. written1 a e = []" "\<And>q. received1 q e = []" "\<And>a q. e \<noteq> EQueue a q"
  shows "isolated (h @ [e]) c'"
proof -
  obtain owner where "owners_ok owner c" "history_ok owner h (chans c)"
    using i by (auto simp: isolated_def)
  then have "owners_ok owner c'" "history_ok owner (h @ [e]) (chans c')"
    using c' history_silent [OF _ e] by (simp_all add: owners_ok_def)
  with c'(1) show ?thesis
    by (auto simp: isolated_def)
qed

lemma isolated_send:
  assumes "isolated h c"
  obtains q c' owner where "map_SendQueue c a now = Ok (q, c')" "owners_ok owner c'"
    "history_ok owner h (chans c')" "q < length owner" "owner ! q = a"
proof -
  obtain owner where c: "qpc_ok c" and o: "owners_ok owner c" "history_ok owner h (chans c)"
    using assms by (auto simp: isolated_def)
  obtain q hh ch where m: "map_SendQueue c a now = Ok (q, c\<lparr>clients := hh, chans := ch\<rparr>)"
    and e: "client_of hh = (client_of (clients c))(a \<mapsto> (now, q))"
    and ch: "ch = chans c \<and> (\<exists>t. client_of (clients c) a = Some (t, q)) \<or> ch = chans c @ [[]] \<and> q = length (chans c)"
    using map_SendQueue_ok [OF c] .
  obtain owner' where "owners_ok owner' (c\<lparr>clients := hh, chans := ch\<rparr>)" "history_ok owner' h ch"
    "q < length owner'" "owner' ! q = a"
    using owners_send [OF o c e ch] .
  with m show ?thesis
    using that [of q "c\<lparr>clients := hh, chans := ch\<rparr>" owner'] by simp
qed

lemma isolated_outgoing:
  assumes i: "isolated h c" and s: "qstep c (Outgoing a now) = Ok (e, c')" and ok: "qpc_ok c'"
  shows "isolated (h @ [e]) c'"
proof -
  obtain q c1 owner where "map_SendQueue c a now = Ok (q, c1)" "owners_ok owner c1"
    "history_ok owner h (chans c1)" "q < length owner" "owner ! q = a"
    using isolated_send [OF i] .
  then show ?thesis
    using s ok history_queue [of owner h "chans c1" q a] by (auto simp: OutgoingQueue_def isolated_def)
qed

lemma isolated_write:
  assumes i: "isolated h c" and s: "qstep c (WriteOp p a now) = Ok (e, c')" and ok: "qpc_ok c'"
  shows "isolated (h @ [e]) c'"
proof (cases "closed c")
  case True
  then show ?thesis
    using s i by (intro isolated_silent [OF i ok])
      (auto simp: WriteTo_def WriteTo_send_def isolated_def qpc_ok_def closed_ok_def op_error_def)
next
  case False
  obtain q c1 owner where o: "map_SendQueue c a now = Ok (q, c1)" "owners_ok owner c1"
    "history_ok owner h (chans c1)" "q < length owner" "owner ! q = a"
    using isolated_send [OF i] .
  have "owners_ok owner (c1\<lparr>chans := (chans c1)[q := offer (chans c1 ! q) p]\<rparr>)"
    using o(2) by (simp add: owners_ok_def)
  then show ?thesis
    using s ok False o history_write [of owner h "chans c1" q a p "length p"]
    by (auto simp: WriteTo_def WriteTo_send_def isolated_def owners_ok_def)
qed

lemma isolated_receive:
  assumes i: "isolated h c" and s: "qstep c (Recv q) = Ok (e, c')" and ok: "qpc_ok c'"
  shows "isolated (h @ [e]) c'"
proof -
  obtain owner where o: "owners_ok owner c" "history_ok owner h (chans c)"
    using i by (auto simp: isolated_def)
  then have "owners_ok owner (snd (receive c q))" "length owner = length (chans c)"
    by (simp_all add: owners_ok_def receive_def split: list.splits)
  then show ?thesis
    using history_receive [OF o(2), of q] s ok by (cases "receive c q") (auto simp: isolated_def)
qed

lemma isolated_sweep:
  assumes i: "isolated h c" and s: "qstep c (SweepOp now) = Ok (e, c')" and ok: "qpc_ok c'"
  shows "isolated (h @ [e]) c'"
proof -
  obtain owner where c: "qpc_ok c" and o: "owners_ok owner c" "history_ok owner h (chans c)"
    using i by (auto simp: isolated_def)
  obtain hh where h: "sweep c now = Ok (c\<lparr>clients := hh\<rparr>)"
    "client_of hh = drop_expired now (cm_timeout c) (client_of (clients c))"
    using sweep_ok [OF c] .
  have "owners_ok owner (c\<lparr>clients := hh\<rparr>)"
    using o(1) by (auto simp: owners_ok_def h(2) drop_expired_Some)
  moreover have "history_ok owner (h @ [ESweep]) (chans c)"
    using o(2) by (rule history_silent) simp_all
  ultimately show ?thesis
    using s h(1) ok by (auto simp: isolated_def)
qed

lemma isolated_step:
  assumes i: "isolated h c"
  shows "\<exists>e c'. qstep c x = Ok (e, c') \<and> isolated (h @ [e]) c'"
proof -
  have c: "qpc_ok c"
    using i by (simp add: isolated_def)
  obtain e c' where s: "qstep c x = Ok (e, c')" and ok: "qpc_ok c'"
    using qstep_ok [OF c] by blast
  have "isolated (h @ [e]) c'"
  proof (cases x)
    case (Incoming p a)
    show ?thesis
      using s Incoming by (intro isolated_silent [OF i ok]) (auto simp: QueueIncoming_def QueueIncoming_send_def)
  next
    case (ReadOp pick n)
    show ?thesis
      using s ReadOp read_ok [OF c, of pick n] ReadFrom_cases [OF c, of pick n]
      by (intro isolated_silent [OF i ok]) auto
  next
    case (ReadWaiting pick n)
    show ?thesis
      using s ReadWaiting read_ok [OF c, of pick n] by (intro isolated_silent [OF i ok]) auto
  next
    case (CloseOp err)
    show ?thesis
      using s CloseOp close_ok [OF c, of err] by (intro isolated_silent [OF i ok]) auto
  qed (use s ok i isolated_outgoing isolated_write isolated_receive isolated_sweep in \<open>simp only:; blast\<close>)+
  with s show ?thesis
    by blast
qed

subsection \<open>Packets are read in the order they came\<close>

definition in_order :: "qev list \<Rightarrow> QueuePacketConn \<Rightarrow> bool" where
  "in_order h c \<longleftrightarrow> qpc_ok c \<and>
     (\<exists>xs. accepted h = xs @ recvQueue c \<and>
        list_all2 (\<lambda>(n, bs, a) x. bs = take n (P x) \<and> a = PAddr x) (delivered h) xs)"

lemma in_order_same:
  assumes "in_order h c" "qpc_ok c'" "recvQueue c' = recvQueue c" "accepted1 e = []" "delivered1 e = []"
  shows "in_order (h @ [e]) c'"
  using assms by (simp add: in_order_def)

lemma in_order_take:
  assumes "in_order h c" "qpc_ok c'" "recvQueue c = x # recvQueue c'" "accepted1 e = []"
    "delivered1 e = [(n, take n (P x), PAddr x)]"
  shows "in_order (h @ [e]) c'"
proof -
  obtain xs where "accepted h = xs @ recvQueue c"
    "list_all2 (\<lambda>(n, bs, a) x. bs = take n (P x) \<and> a = PAddr x) (delivered h) xs"
    using assms(1) by (auto simp: in_order_def)
  then show ?thesis
    using assms by (auto simp: in_order_def intro!: exI [of _ "xs @ [x]"] list_all2_appendI)
qed

lemma read_shape:
  assumes "qpc_ok c" "ReadFrom_select pick c n = Ok (r, c') \<or> ReadFrom pick c n = Ok (r, c')"
  shows "c' = c \<and> (r = None \<or> (\<exists>e. r = Some (Inl e))) \<or>
         (\<exists>x. recvQueue c = x # recvQueue c' \<and> r = Some (Inr (take n (P x), PAddr x)))"
  using assms read_ok [OF assms(1), of pick n] ReadFrom_cases [OF assms(1), of pick n] by auto

lemma in_order_read:
  assumes i: "in_order h c" and ok: "qpc_ok c'"
    and r: "ReadFrom_select pick c n = Ok (r, c') \<or> ReadFrom pick c n = Ok (r, c')"
    and e: "e = ERead n r \<or> e = EReadWaiting n r"
  shows "in_order (h @ [e]) c'"
proof -
  have c: "qpc_ok c"
    using i by (simp add: in_order_def)
  show ?thesis
    using read_shape [OF c r]
  proof (elim disjE conjE exE)
    fix x assume "recvQueue c = x # recvQueue c'" "r = Some (Inr (take n (P x), PAddr x))"
    then show ?thesis
      using e by (intro in_order_take [OF i ok, of x _ n]) auto
  qed (use e i in \<open>auto simp: in_order_def\<close>)
qed

lemma in_order_add:
  assumes "in_order h c" "qpc_ok c'" "recvQueue c' = recvQueue c @ accepted1 e" "delivered1 e = []"
  shows "in_order (h @ [e]) c'"
  using assms by (auto simp: in_order_def)

lemma map_SendQueue_recvQueue: "map_SendQueue c a now = Ok (q, c') \<Longrightarrow> recvQueue c' = recvQueue c"
  by (auto simp: map_SendQueue_def split: go.splits)

lemma in_order_step:
  assumes i: "in_order h c"
  shows "\<exists>e c'. qstep c x = Ok (e, c') \<and> in_order (h @ [e]) c'"
proof -
  have c: "qpc_ok c"
    using i by (simp add: in_order_def)
  obtain e c' where s: "qstep c x = Ok (e, c')" and ok: "qpc_ok c'"
    using qstep_ok [OF c] by blast
  have "in_order (h @ [e]) c'"
  proof (cases x)
    case (Incoming p a)
    then show ?thesis
      using s by (intro in_order_add [OF i ok]) (auto simp: QueueIncoming_def QueueIncoming_send_def offer_def)
  next
    case (Outgoing a now)
    then show ?thesis
      using s by (intro in_order_same [OF i ok])
        (auto simp: OutgoingQueue_def go_map_def map_SendQueue_recvQueue split: go.splits)
  next
    case (Recv q)
    then show ?thesis
      using s by (intro in_order_same [OF i ok]) (auto simp: receive_def split: if_splits list.splits)
  next
    case (ReadOp pick n)
    then obtain r where "ReadFrom pick c n = Ok (r, c')" "e = ERead n r"
      using s by (auto simp: go_map_def split: go.splits)
    then show ?thesis
      by (intro in_order_read [OF i ok, of pick n r]) auto
  next
    case (ReadWaiting pick n)
    then obtain r where "ReadFrom_select pick c n = Ok (r, c')" "e = EReadWaiting n r"
      using s by (auto simp: go_map_def split: go.splits)
    then show ?thesis
      by (intro in_order_read [OF i ok, of pick n r]) auto
  next
    case (WriteOp p a now)
    then show ?thesis
      using s by (intro in_order_same [OF i ok])
        (auto simp: WriteTo_def WriteTo_send_def go_map_def map_SendQueue_recvQueue split: go.splits if_splits)
  next
    case (CloseOp err)
    then show ?thesis
      using s close_ok [OF c, of err] by (intro in_order_same [OF i ok]) auto
  next
    case (SweepOp now)
    then show ?thesis
      using s by (intro in_order_same [OF i ok]) (auto simp: sweep_def go_map_def split: go.splits)
  qed
  with s show ?thesis
    by blast
qed

subsection \<open>A closed connection stays closed\<close>

fun refused :: "error \<Rightarrow> qev \<Rightarrow> bool" where
  "refused e (EIncoming p a b) = (\<not> b)"
| "refused e (EWrite p a r) = (r = Inl (OpError ''write'' e))"
| "refused e (ERead n r) = (r = Some (Inl (OpError ''read'' e)))"
| "refused e (EReadWaiting n r) = (r \<noteq> None)"
| "refused e (EClose r) = (r = Some (OpError ''close'' e))"
| "refused e _ = True"

definition closed_by :: "error \<Rightarrow> QueuePacketConn \<Rightarrow> bool" where
  "closed_by e c \<longleftrightarrow> qpc_ok c \<and> closed c \<and> conn_err c = Some e"

lemma map_SendQueue_closed:
  "map_SendQueue c a now = Ok (q, c') \<Longrightarrow> closed c' = closed c \<and> conn_err c' = conn_err c"
  by (auto simp: map_SendQueue_def split: go.splits)

lemma receive_closed: "closed (snd (receive c q)) = closed c \<and> conn_err (snd (receive c q)) = conn_err c"
  by (simp add: receive_def split: list.splits)

lemma sweep_closed: "sweep c now = Ok c' \<Longrightarrow> closed c' = closed c \<and> conn_err c' = conn_err c"
  by (auto simp: sweep_def split: go.splits)

lemma read_closed:
  assumes "closed c" "conn_err c = Some e"
  shows "\<exists>r c'. ReadFrom_select pick c n = Ok (Some r, c') \<and> closed c' \<and> conn_err c' = Some e"
  using assms by (cases "recvQueue c") (simp_all add: ReadFrom_select_def op_error_def)

lemma closed_calls:
  assumes "closed c" "conn_err c = Some e"
  shows "QueueIncoming c p a = c"
    and "ReadFrom pick c n = Ok (Some (Inl (OpError ''read'' e)), c)"
    and "WriteTo c p a now = Ok (Inl (OpError ''write'' e), c)"
    and "closeWithError c err = Ok (Some (OpError ''close'' e), c)"
  using assms by (simp_all add: QueueIncoming_def QueueIncoming_send_def ReadFrom_def WriteTo_def WriteTo_send_def closeWithError_def op_error_def)

lemma go_map_Ok: "go_map f r = Ok y \<longleftrightarrow> (\<exists>x. r = Ok x \<and> y = f x)"
  by (cases r) auto

lemma closed_step:
  assumes "closed_by e c"
  shows "\<exists>ev c'. qstep c x = Ok (ev, c') \<and> closed_by e c' \<and> refused e ev"
proof -
  obtain ev c' where s: "qstep c x = Ok (ev, c')" and ok: "qpc_ok c'"
    using assms qstep_ok unfolding closed_by_def by blast
  have c: "closed c" "conn_err c = Some e"
    using assms by (simp_all add: closed_by_def)
  have "closed c' \<and> conn_err c' = Some e \<and> refused e ev"
  proof (cases x)
    case (Outgoing a now)
    then show ?thesis
      using s c by (auto simp: go_map_Ok OutgoingQueue_def map_SendQueue_closed)
  next
    case (Recv q)
    then show ?thesis
      using s c receive_closed [of c q] by (cases "receive c q") auto
  next
    case (ReadWaiting pick n)
    then show ?thesis
      using s read_closed [OF c, of pick n] by auto
  next
    case (SweepOp now)
    then show ?thesis
      using s c sweep_closed [of c now c'] by (auto simp: go_map_Ok)
  qed (use s c in \<open>auto simp: closed_calls [OF c]\<close>)
  with s ok show ?thesis
    by (auto simp: closed_by_def)
qed

lemma open_step:
  assumes "qpc_ok c" "\<not> closed c" "\<And>e. x \<noteq> CloseOp e"
  shows "\<exists>ev c'. qstep c x = Ok (ev, c') \<and> qpc_ok c' \<and> \<not> closed c'"
proof -
  obtain ev c' where s: "qstep c x = Ok (ev, c')" and ok: "qpc_ok c'"
    using assms(1) qstep_ok by blast
  have r: "\<not> closed c2" if "ReadFrom_select pick c n = Ok (r, c2)" for pick n r c2
    using that assms(2) by (cases "recvQueue c") (auto simp: ReadFrom_select_def)
  have "\<not> closed c'"
  proof (cases x)
    case (Incoming p a)
    then show ?thesis
      using s assms(2) by (auto simp: QueueIncoming_def QueueIncoming_send_def)
  next
    case (Outgoing a now)
    then show ?thesis
      using s assms(2) by (auto simp: go_map_Ok OutgoingQueue_def map_SendQueue_closed)
  next
    case (Recv q)
    then show ?thesis
      using s assms(2) receive_closed [of c q] by (cases "receive c q") auto
  next
    case (WriteOp p a now)
    then show ?thesis
      using s assms(2) map_SendQueue_closed [of c a now]
      by (auto simp: go_map_Ok WriteTo_def WriteTo_send_def split: go.splits)
  next
    case (SweepOp now)
    then show ?thesis
      using s assms(2) sweep_closed [of c now c'] by (auto simp: go_map_Ok)
  qed (use s assms r in \<open>auto simp: go_map_Ok ReadFrom_def\<close>)
  with s ok show ?thesis
    by blast
qed

lemma qrun_length: "qrun c xs = Ok (es, c') \<Longrightarrow> length es = length xs"
  by (induction xs arbitrary: c es) (auto split: go.splits)

subsection \<open>Properties\<close>

text \<open>
  C6: Send queues never mix clients.  However writes, reads, sweeps, queue lookups and closes are
  interleaved, no operation panics, and for every channel \<^verbatim>\<open>OutgoingQueue\<close> ever returned for an
  address, what was received from it followed by what is still in it is a subsequence of the
  packets written to that address, in the order they were written.
\<close>

theorem QueuePacketConn_isolates_clients:
  "\<exists>h c. qrun (NewQueuePacketConn la timeout) ops = Ok (h, c) \<and> qpc_ok c \<and>
     (\<forall>a q. EQueue a q \<in> set h \<longrightarrow> subseq (received q h @ chans c ! q) (written a h))"
proof -
  have "isolated [] (NewQueuePacketConn la timeout)"
    by (simp add: isolated_def qpc_ok_new owners_ok_def history_ok_def
        client_of_new received_def written_def)
  then obtain h c where "qrun (NewQueuePacketConn la timeout) ops = Ok (h, c)" "isolated h c"
    using qrun_invariant [of isolated "[]" "NewQueuePacketConn la timeout" ops "\<lambda>_. True"] isolated_step by auto
  moreover have "subseq (received q h @ chans c ! q) (written a h)"
    if "history_ok owner h (chans c)" "EQueue a q \<in> set h" for owner a q
    using that unfolding history_ok_def by blast
  ultimately show ?thesis
    unfolding isolated_def by blast
qed

theorem QueuePacketConn_isolates_clients_witness:
  "\<exists>h c. qrun (NewQueuePacketConn DummyAddr 10)
       [Outgoing (ClientID [1]) 0, WriteOp [7] (ClientID [1]) 1, WriteOp [8] (ClientID [2]) 2, Recv 0, Recv 0]
     = Ok (h, c) \<and> EQueue (ClientID [1]) 0 \<in> set h \<and> received 0 h = [[7]] \<and>
     subseq (received 0 h @ chans c ! 0) (written (ClientID [1]) h)"
proof -
  let ?ops = "[Outgoing (ClientID [1]) 0, WriteOp [7] (ClientID [1]) 1, WriteOp [8] (ClientID [2]) 2, Recv 0, Recv 0]"
  let ?h = "[EQueue (ClientID [1]) 0, EWrite [7] (ClientID [1]) (Inr 1), EWrite [8] (ClientID [2]) (Inr 1),
             ERecv 0 (Some [7]), ERecv 0 None]"
  obtain c where "qrun (NewQueuePacketConn DummyAddr 10) ?ops = Ok (?h, c)"
    "\<forall>a q. EQueue a q \<in> set ?h \<longrightarrow> subseq (received q ?h @ chans c ! q) (written a ?h)"
    using QueuePacketConn_isolates_clients [of DummyAddr 10 ?ops]
    apply -
    apply (elim exE conjE)
    subgoal premises prems for h c
    proof -
      have "map_option fst (case qrun (NewQueuePacketConn DummyAddr 10) ?ops of Ok r \<Rightarrow> Some r | _ \<Rightarrow> None) = Some ?h"
        by code_simp
      then show ?thesis
        using prems by auto
    qed
    done
  then show ?thesis
    by (intro exI [of _ ?h] exI [of _ c]) (simp add: received_def)
qed

text \<open>
  C7: \<^verbatim>\<open>ReadFrom\<close> is a bounded FIFO.  In every run the packets \<^verbatim>\<open>QueueIncoming\<close> accepted are those
  \<^verbatim>\<open>ReadFrom\<close> has delivered (cut to the caller's buffer, with the address they came from) followed
  by those still waiting, in order, and never more than \<^verbatim>\<open>queueSize\<close> wait.
\<close>

theorem QueuePacketConn_reads_in_order:
  "\<exists>h c xs. qrun (NewQueuePacketConn la timeout) ops = Ok (h, c) \<and>
     accepted h = xs @ recvQueue c \<and> length (recvQueue c) \<le> queueSize \<and>
     list_all2 (\<lambda>(n, bs, a) x. bs = take n (P x) \<and> a = PAddr x) (delivered h) xs"
proof -
  have "in_order [] (NewQueuePacketConn la timeout)"
    by (simp add: in_order_def qpc_ok_new accepted_def delivered_def)
  then obtain h c where "qrun (NewQueuePacketConn la timeout) ops = Ok (h, c)" "in_order h c"
    using qrun_invariant [of in_order "[]" "NewQueuePacketConn la timeout" ops "\<lambda>_. True"] in_order_step by auto
  then show ?thesis
    by (auto simp: in_order_def qpc_ok_def)
qed

text \<open>
  C8: Closing is final.  After the first \<^verbatim>\<open>closeWithError\<close>, whatever came before it, every later
  \<^verbatim>\<open>ReadFrom\<close>, \<^verbatim>\<open>WriteTo\<close> and \<^verbatim>\<open>Close\<close> returns an \<^verbatim>\<open>OpError\<close> carrying the error of that first call
  (\<^verbatim>\<open>errClosedPacketConn\<close> if it was nil), no incoming packet is accepted, and a reader that was
  already waiting returns.
\<close>

theorem QueuePacketConn_close_is_final:
  assumes "\<forall>x \<in> set ops. \<forall>e. x \<noteq> CloseOp e"
  shows "\<exists>h h' c. qrun (NewQueuePacketConn la timeout) (ops @ CloseOp err # ops')
             = Ok (h @ EClose None # h', c) \<and> length h = length ops \<and> length h' = length ops' \<and>
           list_all (refused (case err of None \<Rightarrow> ErrClosedPacketConn | Some e \<Rightarrow> e)) h'"
proof -
  define e where "e = (case err of None \<Rightarrow> ErrClosedPacketConn | Some e \<Rightarrow> e)"
  let ?n = "NewQueuePacketConn la timeout"
  have "\<exists>es c. qrun ?n ops = Ok (es, c) \<and> (qpc_ok c \<and> \<not> closed c)"
    by (rule qrun_invariant [where I = "\<lambda>_ c. qpc_ok c \<and> \<not> closed c" and R = "\<lambda>x. \<forall>e. x \<noteq> CloseOp e"])
      (use assms in \<open>simp_all add: qpc_ok_new open_step\<close>)
  then obtain h c where h: "qrun ?n ops = Ok (h, c)" "qpc_ok c" "\<not> closed c"
    by blast
  obtain c1 where c1: "qstep c (CloseOp err) = Ok (EClose None, c1)" "closed_by e c1"
    using h(2,3) by (auto simp: closed_by_def closeWithError_def qpc_ok_def closed_ok_def e_def)
  have "\<exists>es c'. qrun c1 ops' = Ok (es, c') \<and> (closed_by e c' \<and> list_all (refused e) ([] @ es))"
  proof (rule qrun_invariant [where I = "\<lambda>h c. closed_by e c \<and> list_all (refused e) h" and R = "\<lambda>_. True"])
    show "\<exists>ev c'. qstep c x = Ok (ev, c') \<and> closed_by e c' \<and> list_all (refused e) (h @ [ev])"
      if "closed_by e c \<and> list_all (refused e) h" for h c x
      using closed_step [of e c x] that by auto
  qed (simp_all add: c1(2))
  then obtain h' c2 where h': "qrun c1 ops' = Ok (h', c2)" "list_all (refused e) h'"
    by auto
  then show ?thesis
    using qrun_append [OF h(1), of "CloseOp err # ops'"] c1(1) qrun_length [OF h(1)] qrun_length [OF h'(1)]
    by (auto simp: e_def)
qed

theorem QueuePacketConn_close_is_final_witness:
  "\<exists>h h' c. qrun (NewQueuePacketConn DummyAddr 10)
       ([Incoming [5] DummyAddr] @ CloseOp (Some EOF) # [ReadOp False 9, CloseOp None])
     = Ok (h @ EClose None # h', c) \<and> length h = 1 \<and> length h' = 2 \<and> list_all (refused EOF) h'"
  using QueuePacketConn_close_is_final [of "[Incoming [5] DummyAddr]" DummyAddr 10 "Some EOF" "[ReadOp False 9, CloseOp None]"]
  by (simp del: qrun.simps add: numeral_2_eq_2)

end
