(* ===== verification/Redial_Packet_Conn.thy ===== *)
theory Redial_Packet_Conn
  imports Queue_Packet_Conn
begin

text \<open>
  \<^verbatim>\<open>snowflake/common/turbotunnel/redialpacketconn.go\<close>: a packet connection over a sequence of
  short-lived ones.  The goroutines (\<^verbatim>\<open>dialLoop\<close>, and a reader and a writer for every call of
  \<^verbatim>\<open>exchange\<close>) are program counters of the state, and \<open>rstep\<close> is the step relation of their
  interleavings with the callers of \<^verbatim>\<open>ReadFrom\<close>, \<^verbatim>\<open>WriteTo\<close> and \<^verbatim>\<open>Close\<close>.  A send on one of the
  unbuffered error channels is a state the sender leaves together with a receiver; a channel is
  closed when the goroutine that defers the \<^verbatim>\<open>close\<close> has ended.  The dialled connections are not
  part of the repository: their \<^verbatim>\<open>ReadFrom\<close> and \<^verbatim>\<open>WriteTo\<close> may return any packet or any error.
\<close>

subsection \<open>State\<close>

datatype reader_pc = RPoll | RRead | RSendErr error | RDone

datatype writer_pc = WSelect | WWrite bytes | WSendErr error | WDone

record exchange =
  rpc :: reader_pc
  wpc :: writer_pc
  conn_open :: bool

datatype main_pc = MPoll | MDial | MWait | MCloseConn | MReturned

record RedialPacketConn =
  rlocalAddr :: net_addr
  rremoteAddr :: net_addr
  rrecvQueue :: "bytes list"
  rsendQueue :: "bytes list"
  rclosed :: bool
  rerr :: "error option"
  main :: main_pc
  exchanges :: "exchange list"

definition NewRedialPacketConn :: "net_addr \<Rightarrow> net_addr \<Rightarrow> RedialPacketConn" where
  "NewRedialPacketConn la ra =
     \<lparr>rlocalAddr = la, rremoteAddr = ra, rrecvQueue = [], rsendQueue = [], rclosed = False,
      rerr = None, main = MPoll, exchanges = []\<rparr>"

subsection \<open>The methods\<close>

text \<open>The second \<^verbatim>\<open>select\<close> of \<^verbatim>\<open>ReadFrom\<close>; \<open>None\<close>: it blocks.\<close>

definition redial_ReadFrom_select :: "bool \<Rightarrow> RedialPacketConn \<Rightarrow> nat
    \<Rightarrow> ((error + bytes \<times> net_addr) option \<times> RedialPacketConn) go" where
  "redial_ReadFrom_select pick c n =
     (if rclosed c \<and> (pick \<or> rrecvQueue c = []) then
        (case op_error ''read'' (rerr c) of
           Ok e \<Rightarrow> Ok (Some (Inl e), c) | Err e \<Rightarrow> Err e | Panic m \<Rightarrow> Panic m)
      else
        (case rrecvQueue c of
           [] \<Rightarrow> Ok (None, c)
         | buf # q \<Rightarrow> Ok (Some (Inr (take n buf, rremoteAddr c)), c\<lparr>rrecvQueue := q\<rparr>)))"

definition redial_ReadFrom :: "bool \<Rightarrow> RedialPacketConn \<Rightarrow> nat
    \<Rightarrow> ((error + bytes \<times> net_addr) option \<times> RedialPacketConn) go" where
  "redial_ReadFrom pick c n =
     (if rclosed c then
        (case op_error ''read'' (rerr c) of
           Ok e \<Rightarrow> Ok (Some (Inl e), c) | Err e \<Rightarrow> Err e | Panic m \<Rightarrow> Panic m)
      else redial_ReadFrom_select pick c n)"

definition redial_WriteTo :: "RedialPacketConn \<Rightarrow> bytes \<Rightarrow> ((error + nat) \<times> RedialPacketConn) go" where
  "redial_WriteTo c p =
     (if rclosed c then
        (case op_error ''write'' (rerr c) of
           Ok e \<Rightarrow> Ok (Inl e, c) | Err e \<Rightarrow> Err e | Panic m \<Rightarrow> Panic m)
      else Ok (Inr (length p), c\<lparr>rsendQueue := offer (rsendQueue c) p\<rparr>))"

definition redial_closeWithError :: "RedialPacketConn \<Rightarrow> error option \<Rightarrow> (error option \<times> RedialPacketConn) go" where
  "redial_closeWithError c e =
     (if rclosed c then
        (case op_error ''close'' (rerr c) of
           Ok e' \<Rightarrow> Ok (Some e', c) | Err e' \<Rightarrow> Err e' | Panic m \<Rightarrow> Panic m)
      else
        (let e' = (case e of None \<Rightarrow> Errorf ''operation on closed connection'' | Some x \<Rightarrow> x)
         in Ok (None, c\<lparr>rerr := Some e', rclosed := True\<rparr>)))"

definition redial_Close :: "RedialPacketConn \<Rightarrow> (error option \<times> RedialPacketConn) go" where
  "redial_Close c = redial_closeWithError c None"

definition redial_SetDeadline :: "int \<Rightarrow> RedialPacketConn \<Rightarrow> error option \<times> RedialPacketConn" where
  "redial_SetDeadline t c = (Some ErrNotImplemented, c)"

definition rclosed_ok :: "RedialPacketConn \<Rightarrow> bool" where
  "rclosed_ok c \<longleftrightarrow> (rclosed c \<longleftrightarrow> rerr c \<noteq> None)"

interpretation rclose: close_once rclosed_ok rclosed rerr redial_closeWithError
    "Errorf ''operation on closed connection''"
  by unfold_locales (auto simp: rclosed_ok_def redial_closeWithError_def op_error_def)

subsection \<open>The goroutines\<close>

abbreviation set_exchange :: "RedialPacketConn \<Rightarrow> nat \<Rightarrow> exchange \<Rightarrow> RedialPacketConn" where
  "set_exchange c i x \<equiv> c\<lparr>exchanges := (exchanges c)[i := x]\<rparr>"

text \<open>The exchange \<^verbatim>\<open>dialLoop\<close> is in is the last one.\<close>

definition current :: "RedialPacketConn \<Rightarrow> nat" where
  "current c = length (exchanges c) - 1"

inductive dialLoop :: "RedialPacketConn \<Rightarrow> RedialPacketConn \<Rightarrow> bool" where
  stop: "\<lbrakk>main c = MPoll; rclosed c\<rbrakk> \<Longrightarrow> dialLoop c (c\<lparr>main := MReturned\<rparr>)"
| go_on: "\<lbrakk>main c = MPoll; \<not> rclosed c\<rbrakk> \<Longrightarrow> dialLoop c (c\<lparr>main := MDial\<rparr>)"
| dial_error: "\<lbrakk>main c = MDial; redial_closeWithError c (Some e) = Ok (r, c')\<rbrakk> \<Longrightarrow>
    dialLoop c (c'\<lparr>main := MReturned\<rparr>)"
| dialled: "main c = MDial \<Longrightarrow>
    dialLoop c (c\<lparr>main := MWait,
                  exchanges := exchanges c @ [\<lparr>rpc = RPoll, wpc = WSelect, conn_open = True\<rparr>]\<rparr>)"
| read_error: "\<lbrakk>main c = MWait; x = exchanges c ! current c; rpc x = RSendErr e\<rbrakk> \<Longrightarrow>
    dialLoop c (set_exchange (c\<lparr>main := MCloseConn\<rparr>) (current c) (x\<lparr>rpc := RDone\<rparr>))"
| read_closed: "\<lbrakk>main c = MWait; rpc (exchanges c ! current c) = RDone\<rbrakk> \<Longrightarrow>
    dialLoop c (c\<lparr>main := MCloseConn\<rparr>)"
| write_error: "\<lbrakk>main c = MWait; x = exchanges c ! current c; wpc x = WSendErr e\<rbrakk> \<Longrightarrow>
    dialLoop c (set_exchange (c\<lparr>main := MCloseConn\<rparr>) (current c) (x\<lparr>wpc := WDone\<rparr>))"
| write_closed: "\<lbrakk>main c = MWait; wpc (exchanges c ! current c) = WDone\<rbrakk> \<Longrightarrow>
    dialLoop c (c\<lparr>main := MCloseConn\<rparr>)"
| conn_Close: "\<lbrakk>main c = MCloseConn; x = exchanges c ! current c\<rbrakk> \<Longrightarrow>
    dialLoop c (set_exchange (c\<lparr>main := MPoll\<rparr>) (current c) (x\<lparr>conn_open := False\<rparr>))"

text \<open>The reader goroutine of exchange \<open>i\<close>.\<close>

inductive reader :: "nat \<Rightarrow> RedialPacketConn \<Rightarrow> RedialPacketConn \<Rightarrow> bool" for i where
  poll_closed: "\<lbrakk>i < length (exchanges c); x = exchanges c ! i; rpc x = RPoll; rclosed c \<or> wpc x = WDone\<rbrakk> \<Longrightarrow>
    reader i c (set_exchange c i (x\<lparr>rpc := RDone\<rparr>))"
| poll_write_error: "\<lbrakk>i < length (exchanges c); x = exchanges c ! i; rpc x = RPoll; wpc x = WSendErr e\<rbrakk> \<Longrightarrow>
    reader i c (set_exchange c i (x\<lparr>rpc := RDone, wpc := WDone\<rparr>))"
| poll_default: "\<lbrakk>i < length (exchanges c); x = exchanges c ! i; rpc x = RPoll; \<not> rclosed c;
    wpc x \<noteq> WDone; \<forall>e. wpc x \<noteq> WSendErr e\<rbrakk> \<Longrightarrow>
    reader i c (set_exchange c i (x\<lparr>rpc := RRead\<rparr>))"
| conn_read: "\<lbrakk>i < length (exchanges c); x = exchanges c ! i; rpc x = RRead; length p \<le> 1500\<rbrakk> \<Longrightarrow>
    reader i c (set_exchange (c\<lparr>rrecvQueue := offer (rrecvQueue c) p\<rparr>) i (x\<lparr>rpc := RPoll\<rparr>))"
| conn_read_error: "\<lbrakk>i < length (exchanges c); x = exchanges c ! i; rpc x = RRead\<rbrakk> \<Longrightarrow>
    reader i c (set_exchange c i (x\<lparr>rpc := RSendErr e\<rparr>))"

text \<open>The writer goroutine of exchange \<open>i\<close>.\<close>

inductive writer :: "nat \<Rightarrow> RedialPacketConn \<Rightarrow> RedialPacketConn \<Rightarrow> bool" for i where
  select_closed: "\<lbrakk>i < length (exchanges c); x = exchanges c ! i; wpc x = WSelect; rclosed c \<or> rpc x = RDone\<rbrakk> \<Longrightarrow>
    writer i c (set_exchange c i (x\<lparr>wpc := WDone\<rparr>))"
| select_read_error: "\<lbrakk>i < length (exchanges c); x = exchanges c ! i; wpc x = WSelect; rpc x = RSendErr e\<rbrakk> \<Longrightarrow>
    writer i c (set_exchange c i (x\<lparr>rpc := RDone, wpc := WDone\<rparr>))"
| select_packet: "\<lbrakk>i < length (exchanges c); x = exchanges c ! i; wpc x = WSelect; rsendQueue c = p # q\<rbrakk> \<Longrightarrow>
    writer i c (set_exchange (c\<lparr>rsendQueue := q\<rparr>) i (x\<lparr>wpc := WWrite p\<rparr>))"
| conn_write: "\<lbrakk>i < length (exchanges c); x = exchanges c ! i; wpc x = WWrite p\<rbrakk> \<Longrightarrow>
    writer i c (set_exchange c i (x\<lparr>wpc := WSelect\<rparr>))"
| conn_write_error: "\<lbrakk>i < length (exchanges c); x = exchanges c ! i; wpc x = WWrite p\<rbrakk> \<Longrightarrow>
    writer i c (set_exchange c i (x\<lparr>wpc := WSendErr e\<rparr>))"

inductive rstep :: "RedialPacketConn \<Rightarrow> RedialPacketConn \<Rightarrow> bool" where
  dial_step: "dialLoop c c' \<Longrightarrow> rstep c c'"
| reader_step: "reader i c c' \<Longrightarrow> rstep c c'"
| writer_step: "writer i c c' \<Longrightarrow> rstep c c'"
| user_read: "redial_ReadFrom pick c n = Ok (r, c') \<Longrightarrow> rstep c c'"
| user_read_waiting: "redial_ReadFrom_select pick c n = Ok (r, c') \<Longrightarrow> rstep c c'"
| user_write: "redial_WriteTo c p = Ok (w, c') \<Longrightarrow> rstep c c'"
| user_close: "redial_Close c = Ok (b, c') \<Longrightarrow> rstep c c'"

inductive reachable :: "net_addr \<Rightarrow> net_addr \<Rightarrow> RedialPacketConn \<Rightarrow> bool" for la ra where
  start: "reachable la ra (NewRedialPacketConn la ra)"
| step: "reachable la ra c \<Longrightarrow> rstep c c' \<Longrightarrow> reachable la ra c'"

subsection \<open>Invariant\<close>

definition rinv :: "RedialPacketConn \<Rightarrow> bool" where
  "rinv c \<longleftrightarrow>
     rclosed_ok c \<and> length (rrecvQueue c) \<le> queueSize \<and> length (rsendQueue c) \<le> queueSize \<and>
     (main c = MReturned \<longrightarrow> rclosed c) \<and>
     (main c \<in> {MWait, MCloseConn} \<longrightarrow> exchanges c \<noteq> []) \<and>
     map conn_open (exchanges c) =
       replicate (current c) False @ (if exchanges c = [] then [] else [main c \<in> {MWait, MCloseConn}])"

lemma rinv_new: "rinv (NewRedialPacketConn la ra)"
  by (simp add: rinv_def NewRedialPacketConn_def rclosed_ok_def current_def)

lemma conn_open_set:
  "conn_open x = conn_open (xs ! i) \<Longrightarrow> map conn_open (xs[i := x]) = map conn_open xs"
  by (cases "i < length xs") (auto simp: list_eq_iff_nth_eq nth_list_update)

lemmas exchange_simps = current_def conn_open_set rclosed_ok_def length_offer

lemma op_error_rclosed: "rclosed_ok c \<Longrightarrow> rclosed c \<Longrightarrow> \<exists>e. op_error m (rerr c) = Ok e"
  by (auto simp: rclosed_ok_def op_error_def)

lemma rinv_ReadFrom_select:
  assumes "rinv c" "redial_ReadFrom_select pick c n = Ok (r, c')"
  shows "rinv c'"
  using assms op_error_rclosed [of c "''read''"]
  by (cases "rrecvQueue c") (auto simp: redial_ReadFrom_select_def rinv_def exchange_simps split: if_splits)

lemma rinv_ReadFrom:
  assumes "rinv c" "redial_ReadFrom pick c n = Ok (r, c')"
  shows "rinv c'"
  using assms op_error_rclosed [of c "''read''"] rinv_ReadFrom_select [of c pick n r c']
  by (cases "rclosed c") (auto simp: redial_ReadFrom_def rinv_def)

lemma rinv_WriteTo:
  assumes "rinv c" "redial_WriteTo c p = Ok (r, c')"
  shows "rinv c'"
  using assms op_error_rclosed [of c "''write''"]
  by (cases "rclosed c") (auto simp: redial_WriteTo_def rinv_def exchange_simps)

lemma rinv_Close:
  assumes "rinv c" "redial_closeWithError c e = Ok (r, c')"
  shows "rinv c'" "rclosed c'" "main c' = main c" "exchanges c' = exchanges c"
  using assms op_error_rclosed [of c "''close''"]
  by (cases "rclosed c"; auto simp: redial_closeWithError_def rinv_def exchange_simps)+

lemma rinv_reader: "reader i c c' \<Longrightarrow> rinv c \<Longrightarrow> rinv c'"
  by (induction rule: reader.induct) (auto simp: rinv_def exchange_simps)

lemma rinv_writer: "writer i c c' \<Longrightarrow> rinv c \<Longrightarrow> rinv c'"
  by (induction rule: writer.induct) (auto simp: rinv_def exchange_simps)

lemma map_last_replicate:
  assumes "xs \<noteq> []" "map f xs = replicate (length xs - 1) False @ [b]"
  shows "map f (xs[length xs - 1 := x]) = replicate (length xs - 1) False @ [f x]"
  using assms by (simp add: map_update list_update_append)

lemma rinv_dial: "dialLoop c c' \<Longrightarrow> rinv c \<Longrightarrow> rinv c'"
proof (induction rule: dialLoop.induct)
  case (dialled c)
  then have "map conn_open (exchanges c) = replicate (length (exchanges c)) False"
    by (cases "exchanges c" rule: rev_cases)
      (auto simp: rinv_def current_def replicate_append_same [symmetric])
  with dialled show ?case
    by (auto simp: rinv_def exchange_simps)
next
  case (dial_error c e r c')
  then have "rinv c'" "rclosed c'" "main c' = MDial"
    using rinv_Close [of c "Some e" r c'] by simp_all
  then show ?case
    by (simp add: rinv_def exchange_simps)
next
  case (conn_Close c x)
  then show ?case
    using map_last_replicate [of "exchanges c" conn_open True "x\<lparr>conn_open := False\<rparr>"]
    by (simp add: rinv_def exchange_simps)
qed (auto simp: rinv_def exchange_simps)

lemma rinv_step:
  assumes "rstep c c'" "rinv c"
  shows "rinv c'"
  using assms
  by cases (blast intro: rinv_dial rinv_reader rinv_writer rinv_ReadFrom rinv_ReadFrom_select
      rinv_WriteTo rinv_Close(1) [of _ None, folded redial_Close_def])+

lemma reachable_rinv: "reachable la ra c \<Longrightarrow> rinv c"
  by (induction rule: reachable.induct) (auto intro: rinv_new rinv_step)

subsection \<open>Goroutines that cannot end\<close>

text \<open>One side waits to hand over its error, and everyone who could take it is gone.\<close>

definition leaked :: "nat \<Rightarrow> RedialPacketConn \<Rightarrow> bool" where
  "leaked i c \<longleftrightarrow>
     i < length (exchanges c) \<and> (main c = MWait \<longrightarrow> i \<noteq> current c) \<and>
     (case (rpc (exchanges c ! i), wpc (exchanges c ! i)) of
        (RSendErr e, WDone) \<Rightarrow> True | (RDone, WSendErr e) \<Rightarrow> True | _ \<Rightarrow> False)"

lemma leaked_iff:
  "leaked i c \<longleftrightarrow>
     i < length (exchanges c) \<and> (main c = MWait \<longrightarrow> i \<noteq> current c) \<and>
     ((\<exists>e. rpc (exchanges c ! i) = RSendErr e) \<and> wpc (exchanges c ! i) = WDone \<or>
      rpc (exchanges c ! i) = RDone \<and> (\<exists>e. wpc (exchanges c ! i) = WSendErr e))"
  by (auto simp: leaked_def split: reader_pc.splits writer_pc.splits)

lemma leaked_cong:
  assumes "leaked i c" "exchanges c' ! i = exchanges c ! i" "length (exchanges c') = length (exchanges c)"
    "main c' = main c \<or> main c' \<noteq> MWait"
  shows "leaked i c'"
  using assms by (auto simp: leaked_iff current_def)

lemma leaked_reader: "reader j c c' \<Longrightarrow> leaked i c \<Longrightarrow> leaked i c'"
  by (induction rule: reader.induct; cases "i = j") (auto simp: leaked_iff current_def)

lemma leaked_writer: "writer j c c' \<Longrightarrow> leaked i c \<Longrightarrow> leaked i c'"
  by (induction rule: writer.induct; cases "i = j") (auto simp: leaked_iff current_def)

lemma leaked_same: "exchanges c' = exchanges c \<Longrightarrow> main c' = main c \<Longrightarrow> leaked i c' = leaked i c"
  by (simp add: leaked_def current_def)

lemma leaked_dial: "dialLoop c c' \<Longrightarrow> rinv c \<Longrightarrow> leaked i c \<Longrightarrow> leaked i c'"
proof (induction rule: dialLoop.induct)
  case (dialled c)
  then show ?case
    by (auto simp: leaked_iff current_def nth_append)
next
  case (dial_error c e r c')
  then have "leaked i c'"
    using rinv_Close(3,4) [of c "Some e" r c'] leaked_same [of c' c i] by simp
  then show ?case
    by (rule leaked_cong) simp_all
next
  case (conn_Close c x)
  then show ?case
    by (cases "i = current c") (auto simp: leaked_iff current_def)
qed (auto simp: leaked_iff current_def)

lemma user_same:
  assumes "rinv c"
  shows "redial_ReadFrom_select pick c n = Ok (r, c') \<Longrightarrow> exchanges c' = exchanges c \<and> main c' = main c"
    and "redial_ReadFrom pick c n = Ok (r, c') \<Longrightarrow> exchanges c' = exchanges c \<and> main c' = main c"
    and "redial_WriteTo c p = Ok (w, c') \<Longrightarrow> exchanges c' = exchanges c \<and> main c' = main c"
  using assms op_error_rclosed [of c "''read''"] op_error_rclosed [of c "''write''"]
  by (cases "rrecvQueue c"; auto simp: redial_ReadFrom_select_def redial_ReadFrom_def redial_WriteTo_def
      rinv_def split: if_splits)+

lemma leaked_step:
  assumes "rstep c c'" "rinv c" "leaked i c"
  shows "leaked i c'"
  using assms(1)
proof cases
  case dial_step
  then show ?thesis
    using assms by (simp add: leaked_dial)
next
  case reader_step
  then show ?thesis
    using assms(3) by (rule leaked_reader)
next
  case writer_step
  then show ?thesis
    using assms(3) by (rule leaked_writer)
next
  case (user_close b)
  then show ?thesis
    using rinv_Close(3,4) [OF assms(2), of None b c'] leaked_same [of c' c i] assms(3)
    by (simp add: redial_Close_def)
qed (use user_same [OF assms(2)] leaked_same [of c' c i] assms(3) in blast)+

lemma leaked_steps:
  assumes "rstep\<^sup>*\<^sup>* c c'" "rinv c" "leaked i c"
  shows "leaked i c' \<and> rinv c'"
  using assms by (induction rule: rtranclp_induct) (auto intro: leaked_step rinv_step)

text \<open>Such a state is reached when a write fails while the reader waits in \<^verbatim>\<open>conn.ReadFrom\<close>.\<close>

definition redial_at :: "main_pc \<Rightarrow> bytes list \<Rightarrow> exchange list \<Rightarrow> RedialPacketConn" where
  "redial_at m q xs = \<lparr>rlocalAddr = DummyAddr, rremoteAddr = DummyAddr, rrecvQueue = [], rsendQueue = q,
     rclosed = False, rerr = None, main = m, exchanges = xs\<rparr>"

lemma redial_at_simps [simp]:
  "main (redial_at m q xs) = m" "rsendQueue (redial_at m q xs) = q" "exchanges (redial_at m q xs) = xs"
  "rclosed (redial_at m q xs) = False" "(redial_at m q xs)\<lparr>main := m'\<rparr> = redial_at m' q xs"
  "(redial_at m q xs)\<lparr>rsendQueue := q'\<rparr> = redial_at m q' xs"
  "(redial_at m q xs)\<lparr>exchanges := xs'\<rparr> = redial_at m q xs'"
  by (simp_all add: redial_at_def)

abbreviation exch :: "reader_pc \<Rightarrow> writer_pc \<Rightarrow> bool \<Rightarrow> exchange list" where
  "exch r w b \<equiv> [\<lparr>rpc = r, wpc = w, conn_open = b\<rparr>]"

lemma write_failure_path:
  "reachable DummyAddr DummyAddr (redial_at MPoll [] (exch (RSendErr e) WDone False))"
proof -
  have "reachable DummyAddr DummyAddr (redial_at MPoll [] [])"
    using reachable.start [of DummyAddr DummyAddr] by (simp add: NewRedialPacketConn_def redial_at_def)
  then have "reachable DummyAddr DummyAddr (redial_at MPoll [[]] [])"
    by (rule reachable.step) (rule rstep.user_write [of _ "[]"], simp add: redial_WriteTo_def offer_def queueSize_def)
  then have "reachable DummyAddr DummyAddr (redial_at MDial [[]] [])"
    by (rule reachable.step) (use dialLoop.go_on [of "redial_at MPoll [[]] []"] in \<open>simp add: rstep.dial_step\<close>)
  then have "reachable DummyAddr DummyAddr (redial_at MWait [[]] (exch RPoll WSelect True))"
    by (rule reachable.step) (use dialLoop.dialled [of "redial_at MDial [[]] []"] in \<open>simp add: rstep.dial_step\<close>)
  then have "reachable DummyAddr DummyAddr (redial_at MWait [[]] (exch RRead WSelect True))"
    by (rule reachable.step)
      (use reader.poll_default [of 0 "redial_at MWait [[]] (exch RPoll WSelect True)"] in \<open>simp add: rstep.reader_step\<close>)
  then have "reachable DummyAddr DummyAddr (redial_at MWait [] (exch RRead (WWrite []) True))"
    by (rule reachable.step)
      (use writer.select_packet [OF _ refl, of 0 "redial_at MWait [[]] (exch RRead WSelect True)" "[]" "[]"] in \<open>simp add: rstep.writer_step\<close>)
  then have "reachable DummyAddr DummyAddr (redial_at MWait [] (exch RRead (WSendErr e) True))"
    by (rule reachable.step)
      (use writer.conn_write_error [OF _ refl, of 0 "redial_at MWait [] (exch RRead (WWrite []) True)" "[]" e] in
        \<open>simp add: rstep.writer_step\<close>)
  then have "reachable DummyAddr DummyAddr (redial_at MCloseConn [] (exch RRead WDone True))"
    by (rule reachable.step)
      (use dialLoop.write_error [of "redial_at MWait [] (exch RRead (WSendErr e) True)" _ e] in
        \<open>simp add: rstep.dial_step current_def\<close>)
  then have "reachable DummyAddr DummyAddr (redial_at MPoll [] (exch RRead WDone False))"
    by (rule reachable.step)
      (use dialLoop.conn_Close [of "redial_at MCloseConn [] (exch RRead WDone True)"] in
        \<open>simp add: rstep.dial_step current_def\<close>)
  then show ?thesis
    by (rule reachable.step)
      (use reader.conn_read_error [of 0 "redial_at MPoll [] (exch RRead WDone False)" _ e] in
        \<open>simp add: rstep.reader_step\<close>)
qed

subsection \<open>Properties\<close>

text \<open>
  C9: In every reachable state of \<^verbatim>\<open>RedialPacketConn\<close>, under any interleaving of its goroutines and
  callers: at most one dialled connection is open, and none while \<^verbatim>\<open>dialLoop\<close> is between two
  exchanges or has returned; \<^verbatim>\<open>dialLoop\<close> has returned only if the connection is closed; it is
  closed exactly when an error for the callers is stored; both queues stay within \<^verbatim>\<open>queueSize\<close>.
\<close>

theorem RedialPacketConn_invariant:
  assumes "reachable la ra c"
  shows "length (filter conn_open (exchanges c)) \<le> 1 \<and>
         (main c \<in> {MPoll, MDial, MReturned} \<longrightarrow> filter conn_open (exchanges c) = []) \<and>
         (main c = MReturned \<longrightarrow> rclosed c) \<and> (rclosed c \<longleftrightarrow> rerr c \<noteq> None) \<and>
         length (rrecvQueue c) \<le> queueSize \<and> length (rsendQueue c) \<le> queueSize"
proof -
  have inv: "rinv c"
    using assms by (rule reachable_rinv)
  have "map conn_open (filter conn_open (exchanges c)) = filter id (map conn_open (exchanges c))"
    by (simp add: filter_map comp_def)
  also have "\<dots> = (if exchanges c \<noteq> [] \<and> main c \<in> {MWait, MCloseConn} then [True] else [])"
    using inv by (auto simp: rinv_def)
  finally have f: "map conn_open (filter conn_open (exchanges c)) =
      (if exchanges c \<noteq> [] \<and> main c \<in> {MWait, MCloseConn} then [True] else [])" .
  have "length (filter conn_open (exchanges c)) \<le> 1"
    using arg_cong [OF f, of length] by (simp split: if_splits)
  moreover have "filter conn_open (exchanges c) = []" if "main c \<in> {MPoll, MDial, MReturned}"
    using arg_cong [OF f, of length] that by (auto split: if_splits)
  ultimately show ?thesis
    using inv by (auto simp: rinv_def rclosed_ok_def)
qed

theorem RedialPacketConn_invariant_witness:
  "reachable DummyAddr DummyAddr (NewRedialPacketConn DummyAddr DummyAddr) \<and>
   length (filter conn_open (exchanges (NewRedialPacketConn DummyAddr DummyAddr))) \<le> 1"
  using RedialPacketConn_invariant [OF reachable.start] reachable.start by blast

text \<open>
  C10: The error channels of \<^verbatim>\<open>exchange\<close> are unbuffered and each error has two possible takers.  If
  one goroutine holds an error while its peer has ended and \<^verbatim>\<open>dialLoop\<close> has left the exchange, it
  is blocked on the send in every later state: the goroutine never ends, even after \<^verbatim>\<open>Close\<close>.
\<close>

theorem RedialPacketConn_exchange_leak:
  assumes "reachable la ra c" "leaked i c" "rstep\<^sup>*\<^sup>* c c'"
  shows "leaked i c'"
  using leaked_steps [OF assms(3) reachable_rinv [OF assms(1)] assms(2)] by simp

theorem RedialPacketConn_exchange_leak_witness:
  "\<exists>c c'. reachable DummyAddr DummyAddr c \<and> leaked 0 c \<and> redial_Close c = Ok (None, c') \<and> leaked 0 c'"
proof -
  let ?c = "redial_at MPoll [] (exch (RSendErr EOF) WDone False)"
  obtain c' where c': "redial_Close ?c = Ok (None, c')"
    by (simp add: redial_Close_def redial_closeWithError_def)
  have "reachable DummyAddr DummyAddr ?c" "leaked 0 ?c"
    by (rule write_failure_path) (simp add: leaked_def)
  moreover from this have "leaked 0 c'"
    using RedialPacketConn_exchange_leak [of DummyAddr DummyAddr ?c 0 c'] rstep.user_close [OF c'] by blast
  ultimately show ?thesis
    using c' by blast
qed

end
