(* ===== verification/Relay.thy ===== *)
theory Relay
  imports Go_Prelude "HOL-Library.Sublist"
begin

text \<open>
  The two relays of the program: \<^verbatim>\<open>CopyLoop\<close> of \<^verbatim>\<open>snowflake/common/standalone/stream.go\<close> and
  \<^verbatim>\<open>copyLoop\<close> of \<^verbatim>\<open>obfs/server/server.go\<close> (identical in \<^verbatim>\<open>obfs/client/client.go\<close>).  Both run one
  \<^verbatim>\<open>io.Copy\<close> per direction in a goroutine of its own; they differ in what a goroutine closes when
  its copy ends (\<open>Half\<close>: the destination only; \<open>Full\<close>: the source, then the destination) and in
  what the caller waits for (one goroutine; both).  \<^verbatim>\<open>io.Copy\<close> alternates between a read and a write,
  and either may block: a read waits until the peer has sent something or ended its side, a write
  until the peer has made room.  A write may also fail after part of its data has gone out.  The
  step relation interleaves the goroutines with the peers, which may send data, end their side,
  make room or break the connection for writing at any time.
\<close>

subsection \<open>State\<close>

datatype side = SideA | SideB

fun other :: "side \<Rightarrow> side" where
  "other SideA = SideB"
| "other SideB = SideA"

lemma other_other [simp]: "other (other s) = s"
  by (cases s) simp_all

lemma other_neq [simp]: "other s \<noteq> s" "s \<noteq> other s"
  by (cases s; simp)+

lemma side_cases: "t = s \<or> t = other s"
  by (cases s; cases t) simp_all

datatype relay_kind = Half | Full

text \<open>
  \<open>arrived\<close> is everything the peer has sent, \<open>inbox\<close> what of it has not been read yet, \<open>ended\<close> the error
  that reads return after it; \<open>outbox\<close> is everything written, \<open>room\<close> how many more bytes can be
  written before a write blocks, \<open>broken\<close> the error of writes once the connection takes no more.
\<close>

record endpoint =
  arrived :: bytes
  inbox :: bytes
  ended :: "error option"
  outbox :: bytes
  room :: nat
  broken :: "error option"
  alive :: bool

text \<open>\<open>Copying\<close> is \<^verbatim>\<open>io.Copy\<close> at a read, \<open>Writing c\<close> at a write that has \<open>c\<close> still to deliver.\<close>

datatype copy_pc = Copying | Writing bytes | CloseSrc "error option" | CloseDst "error option" | Finished "error option"

record relay =
  ep :: "side \<Rightarrow> endpoint"
  pc :: "side \<Rightarrow> copy_pc"
  errChan :: "error option list"

definition new_endpoint :: endpoint where
  "new_endpoint = \<lparr>arrived = [], inbox = [], ended = None, outbox = [], room = 0, broken = None, alive = True\<rparr>"

definition start_relay :: relay where
  "start_relay = \<lparr>ep = (\<lambda>_. new_endpoint), pc = (\<lambda>_. Copying), errChan = []\<rparr>"

definition set_ep :: "relay \<Rightarrow> side \<Rightarrow> endpoint \<Rightarrow> relay" where
  "set_ep r s e = r\<lparr>ep := (ep r)(s := e)\<rparr>"

definition set_pc :: "relay \<Rightarrow> side \<Rightarrow> copy_pc \<Rightarrow> relay" where
  "set_pc r s p = r\<lparr>pc := (pc r)(s := p)\<rparr>"

lemma set_simps [simp]:
  "ep (set_ep r s e) = (ep r)(s := e)" "pc (set_ep r s e) = pc r" "errChan (set_ep r s e) = errChan r"
  "ep (set_pc r s p) = ep r" "pc (set_pc r s p) = (pc r)(s := p)" "errChan (set_pc r s p) = errChan r"
  by (simp_all add: set_ep_def set_pc_def)

subsection \<open>Steps\<close>

text \<open>What \<^verbatim>\<open>io.Copy\<close> returns when its source ends: nothing for an end of file.\<close>

definition copy_result :: "error \<Rightarrow> error option" where
  "copy_result e = (if e = EOF then None else Some e)"

text \<open>After the copy, the result goes to the error channel and the deferred closes run.\<close>

definition copy_ends :: "relay_kind \<Rightarrow> side \<Rightarrow> error option \<Rightarrow> relay \<Rightarrow> relay" where
  "copy_ends k s e r =
     (set_pc r s (case k of Half \<Rightarrow> CloseDst e | Full \<Rightarrow> CloseSrc e))\<lparr>errChan := errChan r @ [e]\<rparr>"

inductive goroutine :: "relay_kind \<Rightarrow> side \<Rightarrow> relay \<Rightarrow> relay \<Rightarrow> bool" for k s where
  chunk: "\<lbrakk>pc r s = Copying; alive (ep r s); inbox (ep r s) = c @ cs; c \<noteq> []\<rbrakk> \<Longrightarrow>
    goroutine k s r (set_pc (set_ep r s ((ep r s)\<lparr>inbox := cs\<rparr>)) s (Writing c))"
| source_ends: "\<lbrakk>pc r s = Copying; alive (ep r s); inbox (ep r s) = []; ended (ep r s) = Some e\<rbrakk> \<Longrightarrow>
    goroutine k s r (copy_ends k s (copy_result e) r)"
| source_closed: "\<lbrakk>pc r s = Copying; \<not> alive (ep r s)\<rbrakk> \<Longrightarrow>
    goroutine k s r (copy_ends k s (Some ErrClosedPipe) r)"
| write_some: "\<lbrakk>pc r s = Writing (c @ cs); alive (ep r (other s)); broken (ep r (other s)) = None;
      c \<noteq> []; length c \<le> room (ep r (other s))\<rbrakk> \<Longrightarrow>
    goroutine k s r (set_pc (set_ep r (other s)
      ((ep r (other s))\<lparr>outbox := outbox (ep r (other s)) @ c, room := room (ep r (other s)) - length c\<rparr>)) s
      (if cs = [] then Copying else Writing cs))"
| write_fails: "\<lbrakk>pc r s = Writing c; alive (ep r (other s)); broken (ep r (other s)) = Some e\<rbrakk> \<Longrightarrow>
    goroutine k s r (copy_ends k s (Some e) r)"
| write_closed: "\<lbrakk>pc r s = Writing c; \<not> alive (ep r (other s))\<rbrakk> \<Longrightarrow>
    goroutine k s r (copy_ends k s (Some ErrClosedPipe) r)"
| close_source: "pc r s = CloseSrc e \<Longrightarrow>
    goroutine k s r (set_pc (set_ep r s ((ep r s)\<lparr>alive := False\<rparr>)) s (CloseDst e))"
| close_destination: "pc r s = CloseDst e \<Longrightarrow>
    goroutine k s r (set_pc (set_ep r (other s) ((ep r (other s))\<lparr>alive := False\<rparr>)) s (Finished e))"

inductive peer :: "relay \<Rightarrow> relay \<Rightarrow> bool" where
  data: "ended (ep r s) = None \<Longrightarrow>
    peer r (set_ep r s ((ep r s)\<lparr>arrived := arrived (ep r s) @ c, inbox := inbox (ep r s) @ c\<rparr>))"
| hangup: "ended (ep r s) = None \<Longrightarrow> peer r (set_ep r s ((ep r s)\<lparr>ended := Some e\<rparr>))"
| drain: "peer r (set_ep r s ((ep r s)\<lparr>room := room (ep r s) + n\<rparr>))"
| break_off: "broken (ep r s) = None \<Longrightarrow> peer r (set_ep r s ((ep r s)\<lparr>broken := Some e\<rparr>))"

inductive relay_step :: "relay_kind \<Rightarrow> relay \<Rightarrow> relay \<Rightarrow> bool" for k where
  run: "goroutine k s r r' \<Longrightarrow> relay_step k r r'"
| env: "peer r r' \<Longrightarrow> relay_step k r r'"

inductive relay_reachable :: "relay_kind \<Rightarrow> relay \<Rightarrow> bool" for k where
  start: "relay_reachable k start_relay"
| step: "relay_reachable k r \<Longrightarrow> relay_step k r r' \<Longrightarrow> relay_reachable k r'"

text \<open>When the caller goes on: \<^verbatim>\<open>CopyLoop\<close> after the first goroutine, \<^verbatim>\<open>copyLoop\<close> after both, with the
  error first put into the channel.\<close>

definition is_finished :: "copy_pc \<Rightarrow> bool" where
  "is_finished p \<longleftrightarrow> (case p of Finished e \<Rightarrow> True | _ \<Rightarrow> False)"

definition CopyLoop_returns :: "relay \<Rightarrow> bool" where
  "CopyLoop_returns r \<longleftrightarrow> is_finished (pc r SideA) \<or> is_finished (pc r SideB)"

definition copyLoop_returns :: "relay \<Rightarrow> error option option" where
  "copyLoop_returns r =
     (if is_finished (pc r SideA) \<and> is_finished (pc r SideB) then
        (case errChan r of [] \<Rightarrow> Some None | e # _ \<Rightarrow> Some e)
      else None)"

text \<open>
  The two ways of waiting: for a peer that has neither sent anything more nor ended its side, and
  for room on an open connection.
\<close>

definition idle :: "relay \<Rightarrow> side \<Rightarrow> bool" where
  "idle r s \<longleftrightarrow> pc r s = Copying \<and> alive (ep r s) \<and> inbox (ep r s) = [] \<and> ended (ep r s) = None"

definition blocked :: "relay \<Rightarrow> side \<Rightarrow> bool" where
  "blocked r s \<longleftrightarrow>
     (case pc r s of
        Writing c \<Rightarrow> alive (ep r (other s)) \<and> broken (ep r (other s)) = None \<and> room (ep r (other s)) = 0
      | _ \<Rightarrow> False)"

subsection \<open>Invariant\<close>

text \<open>
  Per direction: while it copies, nothing is lost; afterwards what was written is a prefix of what
  arrived, and all of it if the copy ended with no error; a goroutine past a close has closed.
\<close>

definition delivered :: "error option \<Rightarrow> endpoint \<Rightarrow> endpoint \<Rightarrow> bool" where
  "delivered e src dst \<longleftrightarrow>
     prefix (outbox dst) (arrived src) \<and> (e = None \<longrightarrow> outbox dst = arrived src \<and> ended src \<noteq> None)"

definition pc_ok :: "relay_kind \<Rightarrow> endpoint \<Rightarrow> endpoint \<Rightarrow> copy_pc \<Rightarrow> bool" where
  "pc_ok k src dst p \<longleftrightarrow>
     (case p of
        Copying \<Rightarrow> outbox dst @ inbox src = arrived src
      | Writing c \<Rightarrow> c \<noteq> [] \<and> outbox dst @ c @ inbox src = arrived src
      | CloseSrc e \<Rightarrow> k = Full \<and> delivered e src dst
      | CloseDst e \<Rightarrow> (k = Full \<longrightarrow> \<not> alive src) \<and> delivered e src dst
      | Finished e \<Rightarrow> \<not> alive dst \<and> (k = Full \<longrightarrow> \<not> alive src) \<and> delivered e src dst)"

definition relay_ok :: "relay_kind \<Rightarrow> relay \<Rightarrow> bool" where
  "relay_ok k r \<longleftrightarrow> (\<forall>s. pc_ok k (ep r s) (ep r (other s)) (pc r s))"

lemma relay_okD:
  assumes "relay_ok k r"
  shows "pc_ok k (ep r s) (ep r (other s)) (pc r s)" "pc_ok k (ep r (other s)) (ep r s) (pc r (other s))"
  using assms unfolding relay_ok_def by (metis other_other)+

lemma both_sides: "P s \<Longrightarrow> P (other s) \<Longrightarrow> P t"
  using side_cases [of t s] by auto

lemma relay_okI:
  assumes "pc_ok k (ep r s) (ep r (other s)) (pc r s)" "pc_ok k (ep r (other s)) (ep r s) (pc r (other s))"
  shows "relay_ok k r"
  unfolding relay_ok_def
proof
  fix t
  show "pc_ok k (ep r t) (ep r (other t)) (pc r t)"
    by (rule both_sides [of _ s]) (use assms in simp_all)
qed

lemma copy_ends_simps [simp]:
  "ep (copy_ends k s e r) = ep r"
  "pc (copy_ends k s e r) = (pc r)(s := (case k of Half \<Rightarrow> CloseDst e | Full \<Rightarrow> CloseSrc e))"
  "errChan (copy_ends k s e r) = errChan r @ [e]"
  by (simp_all add: copy_ends_def)

lemma relay_ok_ends:
  assumes "relay_ok k r" "delivered e (ep r s) (ep r (other s))"
  shows "relay_ok k (copy_ends k s e r)"
  by (rule relay_okI [of _ _ s]) (use relay_okD [OF assms(1), of s] assms(2) in \<open>auto simp: pc_ok_def split: relay_kind.splits\<close>)

lemma copying_delivered:
  "pc_ok k src dst Copying \<Longrightarrow> delivered (Some e) src dst"
  "pc_ok k src dst (Writing c) \<Longrightarrow> delivered (Some e) src dst"
  "pc_ok k src dst Copying \<Longrightarrow> inbox src = [] \<Longrightarrow> ended src \<noteq> None \<Longrightarrow> delivered e' src dst"
  by (auto simp: pc_ok_def delivered_def intro: prefixI [OF sym])

lemma pc_ok_cong:
  "pc_ok k (src\<lparr>room := n\<rparr>) dst p = pc_ok k src dst p" "pc_ok k src (dst\<lparr>room := n\<rparr>) p = pc_ok k src dst p"
  "pc_ok k (src\<lparr>broken := b\<rparr>) dst p = pc_ok k src dst p" "pc_ok k src (dst\<lparr>broken := b\<rparr>) p = pc_ok k src dst p"
  "pc_ok k (src\<lparr>outbox := x\<rparr>) dst p = pc_ok k src dst p" "pc_ok k src (dst\<lparr>inbox := y\<rparr>) p = pc_ok k src dst p"
  "pc_ok k src (dst\<lparr>arrived := y\<rparr>) p = pc_ok k src dst p" "pc_ok k src (dst\<lparr>ended := z\<rparr>) p = pc_ok k src dst p"
  by (simp_all add: pc_ok_def delivered_def cong: copy_pc.case_cong)

lemma pc_ok_close: "pc_ok k src dst p \<Longrightarrow> pc_ok k (src\<lparr>alive := False\<rparr>) dst p" "pc_ok k src dst p \<Longrightarrow> pc_ok k src (dst\<lparr>alive := False\<rparr>) p"
  by (auto simp: pc_ok_def delivered_def split: copy_pc.splits)

lemma relay_ok_goroutine:
  assumes "goroutine k s r r'" "relay_ok k r"
  shows "relay_ok k r'"
  using assms(1)
proof cases
  case (chunk c cs)
  show ?thesis
    by (rule relay_okI [of _ _ s]) (use relay_okD [OF assms(2), of s] chunk in \<open>auto simp: pc_ok_cong, auto simp: pc_ok_def\<close>)
next
  case (write_some c cs)
  show ?thesis
    by (rule relay_okI [of _ _ s]) (use relay_okD [OF assms(2), of s] write_some in \<open>auto simp: pc_ok_cong, auto simp: pc_ok_def\<close>)
next
  case (close_source e)
  show ?thesis
    by (rule relay_okI [of _ _ s]) (use relay_okD [OF assms(2), of s] close_source in \<open>auto simp: pc_ok_close, auto simp: pc_ok_def delivered_def\<close>)
next
  case (close_destination e)
  show ?thesis
    by (rule relay_okI [of _ _ s]) (use relay_okD [OF assms(2), of s] close_destination in \<open>auto simp: pc_ok_close, auto simp: pc_ok_def delivered_def\<close>)
qed (use assms(2) relay_okD(1) [OF assms(2), of s] relay_ok_ends copying_delivered in auto)

lemma relay_ok_peer:
  assumes "peer r r'" "relay_ok k r"
  shows "relay_ok k r'"
  using assms(1)
proof cases
  case (data s c)
  show ?thesis
    by (rule relay_okI [of _ _ s])
      (use relay_okD [OF assms(2), of s] data in \<open>auto simp: pc_ok_cong, auto simp: pc_ok_def delivered_def split: copy_pc.splits\<close>)
next
  case (hangup s e)
  show ?thesis
    by (rule relay_okI [of _ _ s])
      (use relay_okD [OF assms(2), of s] hangup in \<open>auto simp: pc_ok_cong, auto simp: pc_ok_def delivered_def split: copy_pc.splits\<close>)
next
  case (drain s n)
  show ?thesis
    by (rule relay_okI [of _ _ s]) (use relay_okD [OF assms(2), of s] drain in \<open>simp_all add: pc_ok_cong\<close>)
next
  case (break_off s e)
  show ?thesis
    by (rule relay_okI [of _ _ s]) (use relay_okD [OF assms(2), of s] break_off in \<open>simp_all add: pc_ok_cong\<close>)
qed

lemma relay_ok_step: "relay_step k r r' \<Longrightarrow> relay_ok k r \<Longrightarrow> relay_ok k r'"
  by (erule relay_step.cases) (simp_all add: relay_ok_goroutine relay_ok_peer)

lemma reachable_relay_ok: "relay_reachable k r \<Longrightarrow> relay_ok k r"
proof (induction rule: relay_reachable.induct)
  case start
  then show ?case
    by (simp add: relay_ok_def start_relay_def new_endpoint_def pc_ok_def)
next
  case (step r r')
  then show ?case
    using relay_ok_step by blast
qed

subsection \<open>The goroutines end\<close>

text \<open>A byte counts twice before it is read and once while it is being written.\<close>

definition pc_work :: "copy_pc \<Rightarrow> nat" where
  "pc_work p = (case p of Copying \<Rightarrow> 3 | Writing c \<Rightarrow> 3 + length c | CloseSrc e \<Rightarrow> 2 | CloseDst e \<Rightarrow> 1 | Finished e \<Rightarrow> 0)"

definition work :: "relay \<Rightarrow> nat" where
  "work r = pc_work (pc r SideA) + pc_work (pc r SideB) +
            2 * length (inbox (ep r SideA)) + 2 * length (inbox (ep r SideB))"

lemma goroutine_work: "goroutine k s r r' \<Longrightarrow> work r' < work r"
  by (erule goroutine.cases; cases s; cases k) (auto simp: work_def pc_work_def)

lemma waits_when_stuck:
  assumes ok: "relay_ok k r" and stuck: "\<And>r'. \<not> goroutine k s r r'"
  shows "is_finished (pc r s) \<or> idle r s \<or> blocked r s"
proof (cases "pc r s")
  case Copying
  then have "alive (ep r s)"
    using goroutine.source_closed [of r s k] stuck by blast
  moreover from this have i: "inbox (ep r s) = []"
    using goroutine.chunk [of r s "inbox (ep r s)" "[]" k] stuck Copying by auto
  moreover from calculation have "ended (ep r s) = None"
    using goroutine.source_ends [of r s _ k] stuck Copying by (cases "ended (ep r s)") blast+
  ultimately show ?thesis
    using Copying by (simp add: idle_def)
next
  case (Writing c)
  let ?d = "ep r (other s)"
  obtain b bs where c: "c = [b] @ bs"
    using relay_okD(1) [OF ok, of s] Writing by (cases c) (auto simp: pc_ok_def)
  have "alive ?d"
    using goroutine.write_closed [OF Writing, of k] stuck by blast
  moreover from this have "broken ?d = None"
    using goroutine.write_fails [OF Writing] stuck by (cases "broken ?d") blast+
  moreover from calculation have "room ?d = 0"
    using goroutine.write_some [of r s "[b]" bs k] Writing c stuck by (cases "room ?d") auto
  ultimately show ?thesis
    using Writing by (simp add: blocked_def)
next
  case (CloseSrc e)
  then show ?thesis
    using goroutine.close_source [of r s e k] stuck by blast
next
  case (CloseDst e)
  then show ?thesis
    using goroutine.close_destination [of r s e k] stuck by blast
qed (simp add: is_finished_def)

lemma waiting_is_stuck:
  assumes "is_finished (pc r s) \<or> idle r s \<or> blocked r s"
  shows "\<not> goroutine k s r r'"
proof
  assume "goroutine k s r r'"
  then show False
    using assms by cases (auto simp: is_finished_def idle_def blocked_def)
qed

lemma finished_closes:
  assumes "relay_ok k r" "is_finished (pc r s)"
  shows "\<not> alive (ep r (other s))" "k = Full \<Longrightarrow> \<not> alive (ep r s)"
  using relay_okD(1) [OF assms(1), of s] assms(2) by (auto simp: pc_ok_def is_finished_def split: copy_pc.splits)

lemma stuck_beside_finished:
  assumes ok: "relay_ok k r" and f: "is_finished (pc r s)" and w: "is_finished (pc r (other s)) \<or> idle r (other s) \<or> blocked r (other s)"
  shows "is_finished (pc r (other s)) \<and> \<not> alive (ep r s) \<or> k = Half \<and> blocked r (other s)"
proof (cases "is_finished (pc r (other s))")
  case True
  then show ?thesis
    using finished_closes(1) [OF ok True] by simp
next
  case False
  then have b: "blocked r (other s)"
    using w finished_closes(1) [OF ok f] by (auto simp: idle_def)
  then have "alive (ep r s)"
    by (auto simp: blocked_def split: copy_pc.splits)
  then have "k = Half"
    using finished_closes(2) [OF ok f] by (cases k) auto
  then show ?thesis
    using b by simp
qed

text \<open>The states in which neither goroutine has a step.\<close>

lemma stuck_iff:
  assumes ok: "relay_ok k r"
  shows "(\<forall>t r'. \<not> goroutine k t r r') \<longleftrightarrow>
    (\<forall>t. is_finished (pc r t) \<and> \<not> alive (ep r t)) \<or> (\<forall>t. idle r t \<or> blocked r t) \<or>
    (k = Half \<and> (\<exists>t. is_finished (pc r t) \<and> blocked r (other t)))" (is "?stuck \<longleftrightarrow> ?done \<or> ?wait \<or> ?part")
proof
  assume ?stuck
  then have w: "is_finished (pc r t) \<or> idle r t \<or> blocked r t" for t
    using waits_when_stuck [OF ok] by blast
  show "?done \<or> ?wait \<or> ?part"
  proof (cases "\<exists>s. is_finished (pc r s)")
    case True
    then obtain s where s: "is_finished (pc r s)" ..
    from stuck_beside_finished [OF ok s w] show ?thesis
    proof
      assume o: "is_finished (pc r (other s)) \<and> \<not> alive (ep r s)"
      have "is_finished (pc r t) \<and> \<not> alive (ep r t)" for t
        by (rule both_sides [of _ s]) (use o s finished_closes(1) [OF ok s] in simp_all)
      then show ?thesis by blast
    qed (use s in blast)
  qed (use w in blast)
next
  assume r: "?done \<or> ?wait \<or> ?part"
  have "is_finished (pc r t) \<or> idle r t \<or> blocked r t" for t
    using r
  proof (elim disjE conjE exE)
    fix s assume "is_finished (pc r s)" "blocked r (other s)"
    then show ?thesis
      using both_sides [of "\<lambda>t. is_finished (pc r t) \<or> idle r t \<or> blocked r t" s t] by blast
  qed auto
  then show ?stuck
    using waiting_is_stuck by blast
qed

text \<open>A run: the peer of \<open>SideA\<close> ends its side, the copy from it ends and closes the other side.\<close>

definition after_eof :: relay where
  "after_eof =
     (let r1 = set_ep start_relay SideA (new_endpoint\<lparr>ended := Some EOF\<rparr>);
          r2 = copy_ends Half SideA None r1
      in set_pc (set_ep r2 SideB (new_endpoint\<lparr>alive := False\<rparr>)) SideA (Finished None))"

lemma after_eof_reachable: "relay_reachable Half after_eof"
proof -
  let ?r1 = "set_ep start_relay SideA (new_endpoint\<lparr>ended := Some EOF\<rparr>)"
  have "peer start_relay ?r1"
    using peer.hangup [of start_relay SideA EOF] by (simp add: start_relay_def new_endpoint_def)
  then have "relay_reachable Half ?r1"
    by (intro relay_reachable.step [OF relay_reachable.start] relay_step.env)
  moreover have "goroutine Half SideA ?r1 (copy_ends Half SideA None ?r1)"
    using goroutine.source_ends [of ?r1 SideA EOF Half]
    by (simp add: start_relay_def new_endpoint_def copy_result_def)
  ultimately have "relay_reachable Half (copy_ends Half SideA None ?r1)"
    by (blast intro: relay_reachable.step relay_step.run)
  moreover have "goroutine Half SideA (copy_ends Half SideA None ?r1) after_eof"
    using goroutine.close_destination [of "copy_ends Half SideA None ?r1" SideA None Half]
    by (simp add: after_eof_def Let_def start_relay_def)
  ultimately show ?thesis
    by (blast intro: relay_reachable.step relay_step.run)
qed

lemma after_eof_simps [simp]:
  "pc after_eof SideA = Finished None" "pc after_eof SideB = Copying"
  by (simp_all add: after_eof_def Let_def start_relay_def)

text \<open>The run goes on: the other copy finds its source closed, ends and closes its destination.\<close>

definition after_both :: relay where
  "after_both =
     (let r = copy_ends Half SideB (Some ErrClosedPipe) after_eof
      in set_pc (set_ep r SideA ((ep r SideA)\<lparr>alive := False\<rparr>)) SideB (Finished (Some ErrClosedPipe)))"

lemma after_both_reachable: "relay_reachable Half after_both"
proof -
  let ?r = "copy_ends Half SideB (Some ErrClosedPipe) after_eof"
  have "goroutine Half SideB after_eof ?r"
    by (rule goroutine.source_closed) (simp_all add: after_eof_def Let_def start_relay_def)
  moreover have "goroutine Half SideB ?r after_both"
    using goroutine.close_destination [of ?r SideB "Some ErrClosedPipe" Half] by (simp add: after_both_def Let_def)
  ultimately show ?thesis
    using after_eof_reachable by (blast intro: relay_reachable.step relay_step.run)
qed

subsection \<open>Properties\<close>

text \<open>
  C17: Neither relay reorders, repeats or invents data: at every moment what was written to one
  connection is a prefix of what arrived on the other, and all of it when that direction ended
  without error.  When \<^verbatim>\<open>CopyLoop\<close> returns one of the connections is closed; when \<^verbatim>\<open>copyLoop\<close>
  returns both are.
\<close>

theorem relay_delivers_in_order:
  assumes "relay_reachable k r"
  shows "prefix (outbox (ep r (other s))) (arrived (ep r s)) \<and>
         (pc r s = Finished None \<longrightarrow> outbox (ep r (other s)) = arrived (ep r s) \<and> ended (ep r s) \<noteq> None) \<and>
         (CopyLoop_returns r \<longrightarrow> \<not> alive (ep r SideA) \<or> \<not> alive (ep r SideB)) \<and>
         (k = Full \<longrightarrow> copyLoop_returns r \<noteq> None \<longrightarrow> \<not> alive (ep r SideA) \<and> \<not> alive (ep r SideB))"
proof -
  have ok: "relay_ok k r"
    using assms by (rule reachable_relay_ok)
  note d = relay_okD(1) [OF ok, of s]
  have "prefix (outbox (ep r (other s))) (arrived (ep r s))"
    using d copying_delivered(1,2) [of k "ep r s" "ep r (other s)"]
    by (cases "pc r s") (auto simp: delivered_def, auto simp: pc_ok_def delivered_def)
  moreover have "outbox (ep r (other s)) = arrived (ep r s) \<and> ended (ep r s) \<noteq> None" if "pc r s = Finished None"
    using d that by (simp add: pc_ok_def delivered_def)
  moreover have "\<not> alive (ep r SideA) \<or> \<not> alive (ep r SideB)" if "CopyLoop_returns r"
    using that finished_closes(1) [OF ok, of SideA] finished_closes(1) [OF ok, of SideB] by (auto simp: CopyLoop_returns_def)
  moreover have "\<not> alive (ep r SideA) \<and> \<not> alive (ep r SideB)" if "copyLoop_returns r \<noteq> None"
    using that finished_closes(1) [OF ok, of SideA] finished_closes(1) [OF ok, of SideB]
    by (auto simp: copyLoop_returns_def split: if_splits)
  ultimately show ?thesis
    by blast
qed

theorem relay_delivers_in_order_witness:
  "relay_reachable Half after_eof \<and> CopyLoop_returns after_eof \<and>
   outbox (ep after_eof SideB) = arrived (ep after_eof SideA) \<and>
   (alive (ep after_eof SideA) \<and> alive (ep after_eof SideB)) = False"
  using relay_delivers_in_order [OF after_eof_reachable, of SideA] after_eof_reachable
  by (simp add: CopyLoop_returns_def is_finished_def)

text \<open>
  C18: When a relay ends and when it hangs.  Every step of its goroutines lowers a measure, so only
  finitely many follow each other without the peers.  The states in which neither goroutine has a
  step are exactly these: both have finished and both connections are closed; both wait, each for a
  peer that is silent but has not ended its side, or in a write on an open connection that takes
  nothing; or, in \<^verbatim>\<open>CopyLoop\<close> alone, one has finished and the other is blocked in a write.  So once one
  peer has ended its side or one connection is closed, and no write is blocked, a relay without
  steps has closed both connections and its callers have returned.
\<close>

theorem relay_terminates:
  assumes "relay_reachable k r"
  shows "(\<forall>t r'. goroutine k t r r' \<longrightarrow> work r' < work r) \<and>
    ((\<forall>t r'. \<not> goroutine k t r r') \<longleftrightarrow>
       (\<forall>t. is_finished (pc r t) \<and> \<not> alive (ep r t)) \<or> (\<forall>t. idle r t \<or> blocked r t) \<or>
       (k = Half \<and> (\<exists>t. is_finished (pc r t) \<and> blocked r (other t)))) \<and>
    ((\<forall>t r'. \<not> goroutine k t r r') \<and> (ended (ep r s) \<noteq> None \<or> \<not> alive (ep r s)) \<and> (\<forall>t. \<not> blocked r t) \<longrightarrow>
       \<not> alive (ep r SideA) \<and> \<not> alive (ep r SideB) \<and> CopyLoop_returns r \<and> copyLoop_returns r \<noteq> None)"
proof -
  note stuck = stuck_iff [OF reachable_relay_ok [OF assms]]
  have "\<not> alive (ep r SideA) \<and> \<not> alive (ep r SideB) \<and> CopyLoop_returns r \<and> copyLoop_returns r \<noteq> None"
    if "\<forall>t r'. \<not> goroutine k t r r'" "ended (ep r s) \<noteq> None \<or> \<not> alive (ep r s)" "\<forall>t. \<not> blocked r t"
  proof -
    have "\<not> idle r s"
      using that(2) by (auto simp: idle_def)
    then have "\<forall>t. is_finished (pc r t) \<and> \<not> alive (ep r t)"
      using stuck that(1,3) by blast
    then show ?thesis
      by (auto simp: CopyLoop_returns_def copyLoop_returns_def split: list.splits)
  qed
  then show ?thesis
    using stuck goroutine_work by blast
qed

theorem relay_terminates_witness:
  "relay_reachable Half after_both \<and> (\<forall>t r'. \<not> goroutine Half t after_both r') \<and>
   \<not> alive (ep after_both SideA) \<and> \<not> alive (ep after_both SideB) \<and> CopyLoop_returns after_both"
proof -
  have fin: "is_finished (pc after_both t) \<and> \<not> alive (ep after_both t)" "\<not> blocked after_both t" for t
    by (cases t; simp add: after_both_def after_eof_def Let_def start_relay_def new_endpoint_def is_finished_def blocked_def)+
  note t = relay_terminates [OF after_both_reachable, of SideA]
  from t [THEN conjunct2, THEN conjunct1] have "\<forall>t r'. \<not> goroutine Half t after_both r'"
    using fin(1) by blast
  then show ?thesis
    using t [THEN conjunct2, THEN conjunct2] fin after_both_reachable by blast
qed

end
