(* ===== verification/Go_Conn.thy ===== *)
theory Go_Conn
  imports Go_IO
begin

text \<open>
  Code that talks on a connection.  A step takes the connection and returns an error or a value
  together with the connection; \<open>bind_io\<close> is Go's \<^verbatim>\<open>if err != nil { return err }\<close> between two of
  them.  Functions that take a \<^verbatim>\<open>net.Conn\<close> are given the two methods they call, an exact read and
  a write, so the same definition runs on a \<open>conn\<close> (whose bytes arrive in arbitrary pieces) and on
  a \<open>wire\<close> (the bytes that will arrive, as one list).  The locale \<open>duplex\<close> says that a
  connection behaves as a wire does; what is proved of a function on a wire holds on every
  connection through its lemma \<open>follows\<close>.
\<close>

subsection \<open>Steps\<close>

definition ret_io :: "'a \<Rightarrow> 's \<Rightarrow> (error + 'a) \<times> 's" where
  "ret_io x s = (Inr x, s)"

definition fail_io :: "error \<Rightarrow> 's \<Rightarrow> (error + 'a) \<times> 's" where
  "fail_io e s = (Inl e, s)"

definition bind_io :: "('s \<Rightarrow> (error + 'a) \<times> 's) \<Rightarrow> ('a \<Rightarrow> 's \<Rightarrow> (error + 'b) \<times> 's) \<Rightarrow> 's \<Rightarrow> (error + 'b) \<times> 's" where
  "bind_io m f s = (case m s of (Inl e, s') \<Rightarrow> (Inl e, s') | (Inr x, s') \<Rightarrow> f x s')"

text \<open>A write of which only the error is looked at.\<close>

definition put_io :: "('s \<Rightarrow> bytes \<Rightarrow> (nat \<times> error option) \<times> 's) \<Rightarrow> bytes \<Rightarrow> 's \<Rightarrow> (error + unit) \<times> 's" where
  "put_io wr bs s =
     (case wr s bs of ((n, Some e), s') \<Rightarrow> (Inl e, s') | ((n, None), s') \<Rightarrow> (Inr (), s'))"

lemma ret_io_simp [simp]: "ret_io x s = (Inr x, s)"
  by (simp add: ret_io_def)

lemma fail_io_simp [simp]: "fail_io e s = (Inl e, s)"
  by (simp add: fail_io_def)

lemma bind_io_simps [simp]:
  "m s = (Inl e, s') \<Longrightarrow> bind_io m f s = (Inl e, s')"
  "m s = (Inr x, s') \<Longrightarrow> bind_io m f s = f x s'"
  by (simp_all add: bind_io_def)

lemma bind_io_Inr:
  "bind_io m f s = (Inr y, s') \<longleftrightarrow> (\<exists>x s1. m s = (Inr x, s1) \<and> f x s1 = (Inr y, s'))"
  by (auto simp: bind_io_def split: sum.splits prod.splits)

lemma bind_io_assoc: "bind_io (bind_io m f) g = bind_io m (\<lambda>x. bind_io (f x) g)"
  by (rule ext) (simp add: bind_io_def split: sum.splits prod.splits)

lemma bind_io_if: "bind_io (if b then m else m') f = (if b then bind_io m f else bind_io m' f)"
  by simp

lemma bind_io_fail [simp]: "bind_io (fail_io e) f = fail_io e"
  by (rule ext) (simp add: bind_io_def fail_io_def)

subsection \<open>Connections and wires\<close>

text \<open>The outcome of setting up a connection: none was made, one was made and closed again, or it is open.\<close>

datatype 'c opened = NotOpened error | Abandoned error 'c | Opened 'c

record conn =
  cin :: reader
  cout :: writer

definition recv :: "nat \<Rightarrow> conn \<Rightarrow> (error + bytes) \<times> conn" where
  "recv k c = (case ReadFull k (cin c) of (x, r) \<Rightarrow> (x, c\<lparr>cin := r\<rparr>))"

definition send :: "conn \<Rightarrow> bytes \<Rightarrow> (nat \<times> error option) \<times> conn" where
  "send c p = (case Write (cout c) p of (x, w) \<Rightarrow> (x, c\<lparr>cout := w\<rparr>))"

record wire =
  ahead :: bytes
  final :: error
  said :: bytes

definition wire_read :: "nat \<Rightarrow> wire \<Rightarrow> (error + bytes) \<times> wire" where
  "wire_read k w =
     (if k \<le> length (ahead w) then (Inr (take k (ahead w)), w\<lparr>ahead := drop k (ahead w)\<rparr>)
      else (Inl (short_read (ahead w) (final w)), w\<lparr>ahead := []\<rparr>))"

definition wire_write :: "wire \<Rightarrow> bytes \<Rightarrow> (nat \<times> error option) \<times> wire" where
  "wire_write w p = ((length p, None), w\<lparr>said := said w @ p\<rparr>)"

definition talks :: "conn \<Rightarrow> wire \<Rightarrow> bool" where
  "talks c w \<longleftrightarrow> reads (cin c) (ahead w) (final w) \<and> unlimited (cout c) \<and> sent (cout c) = said w"

locale duplex =
  fixes rd :: "nat \<Rightarrow> 'c \<Rightarrow> (error + bytes) \<times> 'c"
    and wr :: "'c \<Rightarrow> bytes \<Rightarrow> (nat \<times> error option) \<times> 'c"
    and on :: "'c \<Rightarrow> wire \<Rightarrow> bool"
  assumes rd_on: "on c w \<Longrightarrow> \<exists>c'. rd k c = (fst (wire_read k w), c') \<and> on c' (snd (wire_read k w))"
    and wr_on: "on c w \<Longrightarrow> \<exists>c'. wr c p = (fst (wire_write w p), c') \<and> on c' (snd (wire_write w p))"
begin

definition follows :: "('c \<Rightarrow> 'x \<times> 'c) \<Rightarrow> (wire \<Rightarrow> 'x \<times> wire) \<Rightarrow> bool" where
  "follows f g \<longleftrightarrow> (\<forall>c w. on c w \<longrightarrow> (\<exists>c'. f c = (fst (g w), c') \<and> on c' (snd (g w))))"

lemma followsD:
  assumes "follows f g" "on c w"
  obtains c' where "f c = (fst (g w), c')" "on c' (snd (g w))"
  using assms by (auto simp: follows_def)

lemma follows_rd: "follows (rd k) (wire_read k)"
  by (simp add: follows_def rd_on)

lemma follows_put: "follows (put_io wr p) (put_io wire_write p)"
  unfolding follows_def
proof (intro allI impI)
  fix c w assume "on c w"
  then obtain c' where "wr c p = ((length p, None), c')" "on c' (w\<lparr>said := said w @ p\<rparr>)"
    using wr_on [of c w p] by (auto simp: wire_write_def)
  then show "\<exists>c'. put_io wr p c = (fst (put_io wire_write p w), c') \<and> on c' (snd (put_io wire_write p w))"
    by (simp add: put_io_def wire_write_def)
qed

lemma follows_ret: "follows (ret_io x) (ret_io x)"
  by (simp add: follows_def)

lemma follows_fail: "follows (fail_io e) (fail_io e)"
  by (simp add: follows_def)

lemma follows_bind:
  assumes m: "follows m n" and f: "\<And>x. follows (f x) (g x)"
  shows "follows (bind_io m f) (bind_io n g)"
  unfolding follows_def
proof (intro allI impI)
  fix c w assume c: "on c w"
  obtain c1 where c1: "m c = (fst (n w), c1)" "on c1 (snd (n w))"
    using followsD [OF m c] .
  show "\<exists>c'. bind_io m f c = (fst (bind_io n g w), c') \<and> on c' (snd (bind_io n g w))"
  proof (cases "fst (n w)")
    case (Inl e)
    then show ?thesis
      using c1 by (simp add: bind_io_def case_prod_beta)
  next
    case (Inr x)
    then show ?thesis
      using c1 f [of x] by (auto simp: bind_io_def case_prod_beta follows_def)
  qed
qed

lemma follows_if: "follows f g \<Longrightarrow> follows f' g' \<Longrightarrow> follows (if b then f else f') (if b then g else g')"
  by simp

lemmas follows_intros = follows_rd follows_put follows_ret follows_fail follows_bind follows_if

end

interpretation tcp: duplex recv send talks
proof
  fix c w k assume c: "talks c w"
  then have r: "reads (cin c) (ahead w) (final w)"
    by (simp add: talks_def)
  show "\<exists>c'. recv k c = (fst (wire_read k w), c') \<and> talks c' (snd (wire_read k w))"
    by (rule full.rd_cases [OF r, of k]) (use c in \<open>auto simp: recv_def wire_read_def talks_def\<close>)
next
  fix c w p assume c: "talks c w"
  then show "\<exists>c'. send c p = (fst (wire_write w p), c') \<and> talks c' (snd (wire_write w p))"
    using plain.wr_ok [of "cout c" p] by (auto simp: send_def wire_write_def talks_def)
qed

subsection \<open>Reading a wire\<close>

lemma wire_read_ok [simp]:
  "length xs = k \<Longrightarrow> wire_read k \<lparr>ahead = xs @ ys, final = e, said = o'\<rparr> = (Inr xs, \<lparr>ahead = ys, final = e, said = o'\<rparr>)"
  by (simp add: wire_read_def)

lemma wire_read_Inr:
  "wire_read k w = (Inr xs, w') \<longleftrightarrow> length xs = k \<and> (\<exists>ys. ahead w = xs @ ys \<and> w' = w\<lparr>ahead := ys\<rparr>)"
  by (auto simp: wire_read_def intro!: exI [of _ "drop k (ahead w)"])

lemma put_wire [simp]: "put_io wire_write p w = (Inr (), w\<lparr>said := said w @ p\<rparr>)"
  by (simp add: put_io_def wire_write_def)

lemma talks_unique: "talks c w \<Longrightarrow> talks c w' \<Longrightarrow> w' = w"
  by (cases w; cases w') (auto simp: talks_def reads_def)

text \<open>A function that follows the wire version has, on a connection, the results of that version.\<close>

lemma follows_iff:
  assumes "tcp.follows f g" "talks c w"
  shows "(\<exists>c'. f c = (x, c') \<and> talks c' w') \<longleftrightarrow> g w = (x, w')"
proof -
  obtain c' where c': "f c = (fst (g w), c')" "talks c' (snd (g w))"
    using tcp.followsD [OF assms] .
  then show ?thesis
    using talks_unique by (auto simp: prod_eq_iff)
qed

end
