(* ===== verification/Web_Socket.thy ===== *)
theory Web_Socket
  imports Go_Conn
begin

text \<open>
  \<^verbatim>\<open>snowflake/common/websocketconn/websocketconn.go\<close>: a WebSocket as a byte stream.  Of the WebSocket
  library the model uses what the code calls: the sequence of messages \<^verbatim>\<open>NextReader\<close> delivers (each
  with a type, the pieces its reader returns and the error that cuts it short, if any) and the error
  that ends the sequence, and the outcome of sending one message.  The pipes are the writes made
  into them, which a reader takes apart as it likes.
\<close>

definition TextMessage :: nat where "TextMessage = 1"
definition BinaryMessage :: nat where "BinaryMessage = 2"
definition CloseNormalClosure :: nat where "CloseNormalClosure = 1000"
definition CloseNoStatusReceived :: nat where "CloseNoStatusReceived = 1005"

record ws_message =
  MessageType :: nat
  Pieces :: "bytes list"
  Cut :: "error option"

text \<open>\<^verbatim>\<open>io.Copy(w, r)\<close> for one message: pieces without bytes are not written.\<close>

fun copy_pieces :: "('w \<Rightarrow> bytes \<Rightarrow> (nat \<times> error option) \<times> 'w) \<Rightarrow> bytes list \<Rightarrow> error option \<Rightarrow> 'w \<Rightarrow> error option \<times> 'w" where
  "copy_pieces wr [] ce w = (ce, w)"
| "copy_pieces wr (p # ps) ce w =
     (if p = [] then copy_pieces wr ps ce w
      else
        (case wr w p of
           ((n, Some e), w') \<Rightarrow> (Some e, w')
         | ((n, None), w') \<Rightarrow> copy_pieces wr ps ce w'))"

definition is_data :: "ws_message \<Rightarrow> bool" where
  "is_data m \<longleftrightarrow> MessageType m = BinaryMessage \<or> MessageType m = TextMessage"

primrec readLoop :: "('w \<Rightarrow> bytes \<Rightarrow> (nat \<times> error option) \<times> 'w) \<Rightarrow> ws_message list \<Rightarrow> error \<Rightarrow> 'w \<Rightarrow> error \<times> 'w" where
  "readLoop wr [] err w = (err, w)"
| "readLoop wr (m # ms) err w =
     (if \<not> is_data m then readLoop wr ms err w
      else
        (case copy_pieces wr (Pieces m) (Cut m) w of
           (Some e, w') \<Rightarrow> (e, w')
         | (None, w') \<Rightarrow> readLoop wr ms err w'))"

text \<open>\<open>send_msg\<close> is \<^verbatim>\<open>NextWriter\<close>, \<^verbatim>\<open>Write\<close> and \<^verbatim>\<open>Close\<close> for one binary message.\<close>

function writeLoop :: "(bytes \<Rightarrow> 's \<Rightarrow> error option \<times> 's) \<Rightarrow> reader \<Rightarrow> 's \<Rightarrow> error \<times> 's" where
  "writeLoop send_msg r s =
     (case Read 2048 r of
        ((p, Some e), r') \<Rightarrow> (e, s)
      | ((p, None), r') \<Rightarrow>
          (case send_msg p s of
             (Some e, s') \<Rightarrow> (e, s')
           | (None, s') \<Rightarrow> writeLoop send_msg r' s'))"
  by pat_completeness auto
termination
  by (relation "measure (\<lambda>(f, r, s). pending r)") (auto intro: Read_pending [OF _ sym, of 2048])

declare writeLoop.simps [simp del]

fun closeErrorToEOF :: "error \<Rightarrow> error" where
  "closeErrorToEOF (CloseError code) =
     (if code = CloseNormalClosure \<or> code = CloseNoStatusReceived then EOF else CloseError code)"
| "closeErrorToEOF e = e"

text \<open>The write end of a pipe whose reader takes everything: the writes, one by one.\<close>

definition pipe_write :: "bytes list \<Rightarrow> bytes \<Rightarrow> (nat \<times> error option) \<times> bytes list" where
  "pipe_write ws p = ((length p, None), ws @ [p])"

text \<open>\<^verbatim>\<open>New\<close>: what \<^verbatim>\<open>Conn.Read\<close> reads, for the incoming messages and the error that ends them.\<close>

definition ws_reader :: "ws_message list \<Rightarrow> error \<Rightarrow> reader" where
  "ws_reader ms err = (case readLoop pipe_write ms err [] of (e, ws) \<Rightarrow> \<lparr>chunks = ws, fin = closeErrorToEOF e\<rparr>)"

text \<open>
  \<^verbatim>\<open>Close\<close> closes both pipes, so that a later read finds the closed pipe, and returns the result of
  closing the WebSocket, whatever became of the close frame.
\<close>

definition ws_Close :: "error option \<Rightarrow> error option \<Rightarrow> reader \<Rightarrow> error option \<times> reader" where
  "ws_Close writeControl close r = (close, \<lparr>chunks = [], fin = ErrClosedPipe\<rparr>)"

definition ws_SetDeadline :: "error option \<Rightarrow> error option \<Rightarrow> error option" where
  "ws_SetDeadline errRead errWrite = (case errRead of None \<Rightarrow> errWrite | Some e \<Rightarrow> Some e)"

subsection \<open>The stream\<close>

lemma copy_pieces_pipe:
  "copy_pieces pipe_write ps ce ws = (ce, ws @ filter (\<lambda>p. p \<noteq> []) ps)"
  by (induction ps arbitrary: ws) (simp_all add: pipe_write_def)

lemma readLoop_pipe:
  "\<forall>m\<in>set ms. is_data m \<longrightarrow> Cut m = None \<Longrightarrow>
     readLoop pipe_write ms err ws = (err, ws @ filter (\<lambda>p. p \<noteq> []) (concat (map Pieces (filter is_data ms))))"
  by (induction ms arbitrary: ws) (auto simp: copy_pieces_pipe)

lemma concat_filter_nonempty: "concat (filter (\<lambda>p. p \<noteq> []) ps) = concat ps"
  by (induction ps) auto

lemma ws_reader_reads:
  assumes "\<forall>m\<in>set ms. is_data m \<longrightarrow> Cut m = None"
  shows "reads (ws_reader ms err) (concat (map (concat \<circ> Pieces) (filter is_data ms))) (closeErrorToEOF err)"
proof -
  have "concat (concat (map Pieces xs)) = concat (map (concat \<circ> Pieces) xs)" for xs
    by (induction xs) auto
  then show ?thesis
    using readLoop_pipe [OF assms, of err "[]"]
    by (simp add: ws_reader_def reads_def productive_def stream_def concat_filter_nonempty)
qed

text \<open>Sending that never fails, collecting the messages.\<close>

definition collect_msg :: "bytes \<Rightarrow> bytes list \<Rightarrow> error option \<times> bytes list" where
  "collect_msg p ms = (None, ms @ [p])"

lemma writeLoop_collect:
  "reads r bs e \<Longrightarrow> \<exists>ms. writeLoop collect_msg r out = (e, out @ ms) \<and> concat ms = bs \<and> (\<forall>m\<in>set ms. 0 < length m \<and> length m \<le> 2048)"
proof (induction "length bs" arbitrary: r bs out rule: less_induct)
  case less
  show ?case
  proof (cases "bs = []")
    case True
    then show ?thesis
      using less.prems by (subst writeLoop.simps) (simp add: Read_end)
  next
    case False
    obtain p bs' r' where p: "Read 2048 r = ((p, None), r')" "p \<noteq> []" "length p \<le> 2048" "bs = p @ bs'" "reads r' bs' e"
      by (rule Read_some [OF less.prems False, of 2048]) auto
    obtain ms where ms: "writeLoop collect_msg r' (out @ [p]) = (e, (out @ [p]) @ ms)" "concat ms = bs'"
      "\<forall>m\<in>set ms. 0 < length m \<and> length m \<le> 2048"
      using less.hyps [of bs' r' "out @ [p]"] p by auto
    have "writeLoop collect_msg r out = (e, out @ p # ms)"
      using p(1) ms(1) by (subst writeLoop.simps) (simp add: collect_msg_def)
    then show ?thesis
      using p ms by (intro exI [of _ "p # ms"]) auto
  qed
qed

end
