(* ===== verification/Snowflake_Carrier.thy ===== *)
theory Snowflake_Carrier
  imports Web_Socket Encapsulation Queue_Packet_Conn
begin

text \<open>
  \<^verbatim>\<open>snowflake/common/standalone/encap.go\<close>, the dialling half of \<^verbatim>\<open>session.go\<close> and \<^verbatim>\<open>serveHTTP\<close> of
  \<^verbatim>\<open>handler.go\<close>: how packets travel over a WebSocket.  The client announces the tunnel token and its
  id and then writes each packet encapsulated, flushing after each; the server checks the token,
  reads the id and queues what it reads under it.
\<close>

subsection \<open>Packets over a stream\<close>

record EncapsulationPacketConn =
  rw :: reader
  bw :: bufwriter

definition NewEncapsulationPacketConn :: "reader \<Rightarrow> writer \<Rightarrow> EncapsulationPacketConn" where
  "NewEncapsulationPacketConn r w = \<lparr>rw = r, bw = NewWriter w\<rparr>"

definition encap_ReadFrom :: "nat \<Rightarrow> EncapsulationPacketConn \<Rightarrow> (error + bytes) \<times> EncapsulationPacketConn" where
  "encap_ReadFrom k c =
     (case ReadData (rw c) of
        (Inl e, r) \<Rightarrow> (Inl e, c\<lparr>rw := r\<rparr>)
      | (Inr data, r) \<Rightarrow> (Inr (go_copy k data), c\<lparr>rw := r\<rparr>))"

definition write_packet :: "bytes \<Rightarrow> bufwriter \<Rightarrow> error option \<times> bufwriter" where
  "write_packet p b =
     (case WriteData bufio_Write b p of
        ((n, Some e), b') \<Rightarrow> (Some e, b')
      | ((n, None), b') \<Rightarrow> Flush b')"

definition encap_WriteTo :: "bytes \<Rightarrow> EncapsulationPacketConn \<Rightarrow> (error + nat) \<times> EncapsulationPacketConn" where
  "encap_WriteTo p c =
     (case write_packet p (bw c) of
        (Some e, b) \<Rightarrow> (Inl e, c\<lparr>bw := b\<rparr>)
      | (None, b) \<Rightarrow> (Inr (length p), c\<lparr>bw := b\<rparr>))"

definition encap_SetDeadline :: "int \<Rightarrow> EncapsulationPacketConn \<Rightarrow> error option \<times> EncapsulationPacketConn" where
  "encap_SetDeadline t c = (Some ErrNotImplemented, c)"

text \<open>
  The function \<^verbatim>\<open>WrapWebSocketDial\<close> returns, for the client id \<open>cid\<close>: \<open>dialled\<close> is the outcome of the
  dial, the two ends of the new connection.
\<close>

definition WrapWebSocketDial :: "bytes \<Rightarrow> error + reader \<times> writer \<Rightarrow> error + EncapsulationPacketConn" where
  "WrapWebSocketDial cid dialled =
     (case dialled of
        Inl e \<Rightarrow> Inl e
      | Inr (r, w) \<Rightarrow>
          (case Write w Token of
             ((n, Some e), w1) \<Rightarrow> Inl e
           | ((n, None), w1) \<Rightarrow>
               (case Write w1 cid of
                  ((n, Some e), w2) \<Rightarrow> Inl e
                | ((n, None), w2) \<Rightarrow> Inr (NewEncapsulationPacketConn r w2))))"

subsection \<open>The server's end\<close>

definition serve_handshake :: "reader \<Rightarrow> bytes option \<times> reader" where
  "serve_handshake r =
     (case ReadFull (length Token) r of
        (Inl e, r1) \<Rightarrow> (None, r1)
      | (Inr token, r1) \<Rightarrow>
          if token \<noteq> Token then (None, r1)
          else
            (case ReadFull 8 r1 of
               (Inl e, r2) \<Rightarrow> (None, r2)
             | (Inr cid, r2) \<Rightarrow> (Some cid, r2)))"

lemma ReadData_pending: "ReadData r = (Inr d, r') \<Longrightarrow> pending r' < pending r"
proof (induction r arbitrary: d r' rule: ReadData.induct)
  case (1 r)
  obtain p e r1 where rd: "Read 1 r = ((p, e), r1)"
    by (metis prod.exhaust)
  show ?case
  proof (cases e)
    case (Some e')
    then show ?thesis
      using "1.prems" rd by (subst (asm) ReadData.simps) simp
  next
    case None
    then have lt: "pending r1 < pending r"
      using rd Read_pending [of 1 r p r1] by simp
    define b where "b = (case p of [] \<Rightarrow> 0 | x # _ \<Rightarrow> x)"
    obtain x r2 where len: "read_length 0 (b AND 0x40 \<noteq> 0) b (uint (b AND 0x3f)) r1 = (x, r2)"
      by (metis prod.exhaust)
    have le: "pending r2 \<le> pending r1"
      using read_length_pending [OF len] .
    obtain n where n: "x = Inr n"
      using "1.prems" rd None len by (cases x) (auto simp: ReadData.simps [of r] b_def [symmetric])
    show ?thesis
    proof (cases "b AND 0x80 \<noteq> 0")
      case True
      obtain y r3 where full: "ReadFull (nat n) r2 = (y, r3)"
        by (metis prod.exhaust)
      then have "r' = r3"
        using "1.prems" rd None len n True by (cases y) (auto simp: ReadData.simps [of r] b_def [symmetric])
      then show ?thesis
        using ReadFull_pending [OF full] le lt by simp
    next
      case False
      obtain m c r3 where skip: "CopyN (nat n) r2 = ((m, c), r3)"
        by (metis prod.exhaust)
      have "c = None \<and> ReadData r3 = (Inr d, r')"
        using "1.prems" rd None len n False skip by (cases c) (auto simp: ReadData.simps [of r] b_def [symmetric])
      then show ?thesis
        using "1.IH" [OF rd [symmetric] refl] rd None len n False skip CopyN_pending [OF skip] le lt
        by (fastforce simp: b_def)
    qed
  qed
qed

text \<open>The reading goroutine: the packets it queues and the error that ends it.\<close>

function serve_incoming :: "reader \<Rightarrow> bytes list \<times> error" where
  "serve_incoming r =
     (case ReadData r of
        (Inl e, r') \<Rightarrow> ([], e)
      | (Inr p, r') \<Rightarrow> (case serve_incoming r' of (ps, e) \<Rightarrow> (p # ps, e)))"
  by pat_completeness auto
termination
  by (relation "measure pending") (auto dest: ReadData_pending [OF sym])

declare serve_incoming.simps [simp del]

definition queue_packets :: "bytes \<Rightarrow> bytes list \<Rightarrow> QueuePacketConn \<Rightarrow> QueuePacketConn" where
  "queue_packets cid ps q = foldl (\<lambda>c p. QueueIncoming c p (ClientID cid)) q ps"

text \<open>The writing goroutine, over the packets it receives from the client's queue.\<close>

primrec serve_outgoing :: "bytes list \<Rightarrow> bufwriter \<Rightarrow> error option \<times> bufwriter" where
  "serve_outgoing [] b = (None, b)"
| "serve_outgoing (p # ps) b =
     (case write_packet p b of
        (Some e, b') \<Rightarrow> (Some e, b')
      | (None, b') \<Rightarrow> serve_outgoing ps b')"

text \<open>
  The handler: \<open>upgraded\<close> is the outcome of the upgrade, \<open>out\<close> what the writing goroutine receives
  before the handler returns.  The handler returns at the first error of either goroutine and closes
  the connection: if that is the writing one, the other has queued only the first \<open>k\<close> packets.  The
  result is the server's packet connection and what was written.
\<close>

definition serveHTTP :: "error + reader \<Rightarrow> bytes list \<Rightarrow> nat \<Rightarrow> int \<Rightarrow> writer \<Rightarrow> QueuePacketConn \<Rightarrow> (writer \<times> QueuePacketConn) go" where
  "serveHTTP upgraded out k now w q =
     (case upgraded of
        Inl e \<Rightarrow> Ok (w, q)
      | Inr r \<Rightarrow>
          (case serve_handshake r of
             (None, r1) \<Rightarrow> Ok (w, q)
           | (Some cid, r1) \<Rightarrow>
               (case OutgoingQueue q (ClientID cid) now of
                  Ok (ch, q1) \<Rightarrow>
                    (let (werr, bw) = serve_outgoing out (NewWriter w);
                         ps = fst (serve_incoming r1)
                     in Ok (under bw, queue_packets cid (if werr = None then ps else take k ps) q1))
                | Err e \<Rightarrow> Err e
                | Panic m \<Rightarrow> Panic m)))"

subsection \<open>Frames\<close>

definition frame :: "bytes \<Rightarrow> bytes" where
  "frame p = (case dataPrefixForLength (int (length p)) of Inr h \<Rightarrow> h @ p | Inl e \<Rightarrow> [])"

definition flushed :: "bufwriter \<Rightarrow> bool" where
  "flushed b \<longleftrightarrow> buf_healthy b \<and> wbuf b = []"

lemma NewWriter_flushed: "unlimited w \<Longrightarrow> flushed (NewWriter w)"
  by (simp add: flushed_def buf_healthy_def NewWriter_def)

lemma write_packet_ok:
  assumes "flushed b" "length p < 2 ^ 20"
  obtains b' where "write_packet p b = (None, b')" "flushed b'" "sent (under b') = sent (under b) @ frame p"
proof -
  obtain h b1 where h: "dataPrefixForLength (int (length p)) = Inr h"
    "WriteData bufio_Write b p = ((length h + length p, None), b1)" "buf_healthy b1" "buf_content b1 = buf_content b @ h @ p"
    by (rule buffered.WriteData_ok [of b p]) (use assms in \<open>auto simp: flushed_def\<close>)
  obtain b2 where "Flush b1 = (None, b2)" "buf_healthy b2" "wbuf b2 = []" "sent (under b2) = buf_content b1"
    by (rule Flush_healthy [OF h(3)]) auto
  then show thesis
    using that [of b2] h assms(1) by (simp add: write_packet_def flushed_def frame_def buf_content_def)
qed

lemma serve_outgoing_ok:
  "flushed b \<Longrightarrow> \<forall>p\<in>set ps. length p < 2 ^ 20 \<Longrightarrow>
     \<exists>b'. serve_outgoing ps b = (None, b') \<and> flushed b' \<and> sent (under b') = sent (under b) @ concat (map frame ps)"
proof (induction ps arbitrary: b)
  case (Cons p ps)
  obtain b1 where b1: "write_packet p b = (None, b1)" "flushed b1" "sent (under b1) = sent (under b) @ frame p"
    by (rule write_packet_ok [of b p]) (use Cons.prems in auto)
  then show ?case
    using Cons.IH [of b1] Cons.prems(2) by auto
qed simp

lemma ReadData_frame:
  assumes "reads r (frame p @ ys) e" "length p < 2 ^ 20"
  obtains r' where "ReadData r = (Inr p, r')" "reads r' ys e"
proof -
  have "\<exists>h. dataPrefixForLength (int (length p)) = Inr h"
    using assms(2) by (simp add: dataPrefix_nat)
  then obtain h where h: "dataPrefixForLength (int (length p)) = Inr h" ..
  then show thesis
    using that ReadData_reads [OF assms(1)] by (auto simp: frame_def decode_data [OF h])
qed

lemma serve_incoming_frames:
  "reads r (concat (map frame ps)) e \<Longrightarrow> \<forall>p\<in>set ps. length p < 2 ^ 20 \<Longrightarrow> serve_incoming r = (ps, e)"
proof (induction ps arbitrary: r)
  case Nil
  then have "fst (ReadData r) = Inl e"
    using ReadData_reads [of r "[]" e] by (auto simp: decode.simps [of e "[]"])
  then show ?case
    by (cases "ReadData r") (simp add: serve_incoming.simps [of r])
next
  case (Cons p ps)
  obtain r' where "ReadData r = (Inr p, r')" "reads r' (concat (map frame ps)) e"
    by (rule ReadData_frame [of r p "concat (map frame ps)" e]) (use Cons.prems in auto)
  then show ?case
    using Cons by (simp add: serve_incoming.simps [of r])
qed

lemma serve_handshake_ok:
  assumes "reads r (Token @ cid @ ys) e" "length cid = 8"
  obtains r' where "serve_handshake r = (Some cid, r')" "reads r' ys e"
proof -
  obtain r1 where r1: "ReadFull (length Token) r = (Inr Token, r1)" "reads r1 (cid @ ys) e"
    using ReadFull_ok [OF assms(1)] by auto
  obtain r2 where "ReadFull 8 r1 = (Inr cid, r2)" "reads r2 ys e"
    using ReadFull_ok [OF r1(2)] assms(2) by auto
  then show thesis
    using that [of r2] r1(1) by (simp add: serve_handshake_def)
qed

lemma queue_packets_recvQueue:
  "\<not> closed q \<Longrightarrow> length (recvQueue q) \<le> queueSize \<Longrightarrow>
     recvQueue (queue_packets cid ps q) = take queueSize (recvQueue q @ map (\<lambda>p. \<lparr>P = p, PAddr = ClientID cid\<rparr>) ps)"
proof (induction ps arbitrary: q rule: list.induct)
  case (Cons p ps)
  let ?q = "QueueIncoming q p (ClientID cid)"
  have "length (recvQueue ?q) \<le> queueSize" "\<not> closed ?q"
    using Cons.prems by (auto simp: QueueIncoming_def QueueIncoming_send_def length_offer)
  then show ?case
    using Cons.IH [of ?q] Cons.prems
    by (auto simp: queue_packets_def QueueIncoming_def QueueIncoming_send_def offer_def take_Cons' Suc_diff_Suc [symmetric])
qed (simp add: queue_packets_def)

text \<open>The packets of a sequence of \<^verbatim>\<open>WriteTo\<close> calls, which stops at the first error.\<close>

primrec write_packets :: "bytes list \<Rightarrow> EncapsulationPacketConn \<Rightarrow> error option \<times> EncapsulationPacketConn" where
  "write_packets [] c = (None, c)"
| "write_packets (p # ps) c =
     (case encap_WriteTo p c of
        (Inl e, c') \<Rightarrow> (Some e, c')
      | (Inr n, c') \<Rightarrow> write_packets ps c')"

lemma write_packets_ok:
  "flushed (bw c) \<Longrightarrow> \<forall>p\<in>set ps. length p < 2 ^ 20 \<Longrightarrow>
     \<exists>c'. write_packets ps c = (None, c') \<and> sent (under (bw c')) = sent (under (bw c)) @ concat (map frame ps)"
proof (induction ps arbitrary: c)
  case (Cons p ps)
  obtain b where b: "write_packet p (bw c) = (None, b)" "flushed b" "sent (under b) = sent (under (bw c)) @ frame p"
    by (rule write_packet_ok [of "bw c" p]) (use Cons.prems in auto)
  then show ?case
    using Cons.IH [of "c\<lparr>bw := b\<rparr>"] Cons.prems(2) by (auto simp: encap_WriteTo_def)
qed simp

text \<open>The results of a number of reads from the packet connection, up to the first error.\<close>

primrec read_packets :: "nat \<Rightarrow> nat \<Rightarrow> EncapsulationPacketConn \<Rightarrow> (error + bytes) list" where
  "read_packets k 0 c = []"
| "read_packets k (Suc n) c =
     (case encap_ReadFrom k c of
        (Inl e, c') \<Rightarrow> [Inl e]
      | (Inr p, c') \<Rightarrow> Inr p # read_packets k n c')"

lemma read_packets_frames:
  "reads (rw c) (concat (map frame ps)) e \<Longrightarrow> \<forall>p\<in>set ps. length p < 2 ^ 20 \<Longrightarrow>
     read_packets k (Suc (length ps)) c = map (\<lambda>p. Inr (take k p)) ps @ [Inl e]"
proof (induction ps arbitrary: c)
  case Nil
  then have "fst (ReadData (rw c)) = Inl e"
    using ReadData_reads [of "rw c" "[]" e] by (auto simp: decode.simps [of e "[]"])
  then show ?case
    by (cases "ReadData (rw c)") (simp add: encap_ReadFrom_def)
next
  case (Cons p ps)
  obtain r where "ReadData (rw c) = (Inr p, r)" "reads r (concat (map frame ps)) e"
    by (rule ReadData_frame [of "rw c" p "concat (map frame ps)" e]) (use Cons.prems in auto)
  then show ?case
    using Cons.IH [of "c\<lparr>rw := r\<rparr>"] Cons.prems(2) by (simp add: encap_ReadFrom_def go_copy_def)
qed

lemma dial_ok:
  "unlimited w \<Longrightarrow> \<exists>c. WrapWebSocketDial cid (Inr (r, w)) = Inr c \<and> rw c = r \<and> flushed (bw c) \<and> sent (under (bw c)) = sent w @ Token @ cid"
  by (simp add: WrapWebSocketDial_def Write_def unlimited_def NewEncapsulationPacketConn_def flushed_def buf_healthy_def NewWriter_def)

lemma serveHTTP_ok:
  assumes "qpc_ok q" "\<not> closed q" "reads r (Token @ cid @ concat (map frame ps)) e" "length cid = 8"
    "\<forall>p\<in>set ps. length p < 2 ^ 20" "\<forall>p\<in>set out. length p < 2 ^ 20" "unlimited w"
  shows "\<exists>w' q'. serveHTTP (Inr r) out k now w q = Ok (w', q') \<and> sent w' = sent w @ concat (map frame out) \<and>
    recvQueue q' = take queueSize (recvQueue q @ map (\<lambda>p. \<lparr>P = p, PAddr = ClientID cid\<rparr>) ps)"
proof -
  obtain r1 where r1: "serve_handshake r = (Some cid, r1)" "reads r1 (concat (map frame ps)) e"
    by (rule serve_handshake_ok [OF assms(3,4)]) auto
  obtain ch h cs where q1: "OutgoingQueue q (ClientID cid) now = Ok (ch, q\<lparr>clients := h, chans := cs\<rparr>)"
    by (rule map_SendQueue_ok [OF assms(1), of "ClientID cid" now]) (auto simp: OutgoingQueue_def)
  obtain b where "serve_outgoing out (NewWriter w) = (None, b)" "sent (under b) = sent w @ concat (map frame out)"
    using serve_outgoing_ok [OF NewWriter_flushed [OF assms(7)] assms(6)] by (auto simp: NewWriter_def)
  then show ?thesis
    using r1 q1 serve_incoming_frames [OF r1(2) assms(5)] queue_packets_recvQueue [of "q\<lparr>clients := h, chans := cs\<rparr>" cid ps]
      assms(1,2) by (auto simp: serveHTTP_def qpc_ok_def)
qed

text \<open>What the server's handler does with the messages that carry a client's bytes.\<close>

definition received_by :: "bytes \<Rightarrow> bytes list \<Rightarrow> QueuePacketConn \<Rightarrow> QueuePacketConn \<Rightarrow> bool" where
  "received_by cid ps q q' \<longleftrightarrow>
     recvQueue q' = take queueSize (recvQueue q @ map (\<lambda>p. \<lparr>P = p, PAddr = ClientID cid\<rparr>) ps)"

definition carries :: "bytes list \<Rightarrow> ws_message list \<Rightarrow> bool" where
  "carries ms arriving \<longleftrightarrow>
     map (concat \<circ> Pieces) (filter is_data arriving) = ms \<and> (\<forall>m\<in>set arriving. is_data m \<longrightarrow> Cut m = None)"

lemma serveHTTP_messages:
  assumes "concat ms = Token @ cid @ concat (map frame ps)" "length cid = 8" "\<forall>p\<in>set ps. length p < 2 ^ 20"
    and "carries ms arriving" "qpc_ok q" "\<not> closed q" "unlimited w" "\<forall>p\<in>set out. length p < 2 ^ 20"
  shows "\<exists>q' w'. serveHTTP (Inr (ws_reader arriving err)) out k now w q = Ok (w', q') \<and> received_by cid ps q q'"
proof -
  have "reads (ws_reader arriving err) (Token @ cid @ concat (map frame ps)) (closeErrorToEOF err)"
    using ws_reader_reads [of arriving err] assms(1,4) by (simp add: carries_def)
  from serveHTTP_ok [OF assms(5,6) this assms(2,3,8,7), of k now] show ?thesis
    unfolding received_by_def by auto
qed

subsection \<open>Properties\<close>

text \<open>
  C12: Packets cross the carrier.  A client that dials and writes packets of less than a mebibyte
  sends, through the WebSocket's write loop, messages of at most 2048 bytes; however the network
  fragments them and whatever control messages it mixes in, the server's handler reads the token
  and the client's id from them and queues exactly these packets, in order and under that id, as
  far as the receive queue has room, whatever packets it writes to the client meanwhile.
\<close>

theorem packets_cross_the_websocket:
  assumes "unlimited w" "sent w = []" "length cid = 8" "\<forall>p\<in>set ps. length p < 2 ^ 20"
  shows "\<exists>c c'. WrapWebSocketDial cid (Inr (r, w)) = Inr c \<and> write_packets ps c = (None, c') \<and>
    (\<forall>pipe. reads pipe (sent (under (bw c'))) EOF \<longrightarrow>
      (\<exists>ms. writeLoop collect_msg pipe [] = (EOF, ms) \<and> (\<forall>m\<in>set ms. 0 < length m \<and> length m \<le> 2048) \<and>
        (\<forall>arriving err q now w' out k. carries ms arriving \<and> qpc_ok q \<and> \<not> closed q \<and> unlimited w' \<and> (\<forall>p\<in>set out. length p < 2 ^ 20) \<longrightarrow>
          (\<exists>q' w''. serveHTTP (Inr (ws_reader arriving err)) out k now w' q = Ok (w'', q') \<and> received_by cid ps q q'))))"
proof -
  obtain c where c: "WrapWebSocketDial cid (Inr (r, w)) = Inr c" "flushed (bw c)" "sent (under (bw c)) = Token @ cid"
    using dial_ok [OF assms(1), of cid r] assms(2) by auto
  obtain c' where c': "write_packets ps c = (None, c')" "sent (under (bw c')) = Token @ cid @ concat (map frame ps)"
    using write_packets_ok [OF c(2) assms(4)] c(3) by auto
  let ?served = "\<lambda>ms. \<forall>arriving err q now w' out k. carries ms arriving \<and> qpc_ok q \<and> \<not> closed q \<and> unlimited w' \<and> (\<forall>p\<in>set out. length p < 2 ^ 20) \<longrightarrow>
    (\<exists>q' w''. serveHTTP (Inr (ws_reader arriving err)) out k now w' q = Ok (w'', q') \<and> received_by cid ps q q')"
  have "\<exists>ms. writeLoop collect_msg pipe [] = (EOF, ms) \<and> (\<forall>m\<in>set ms. 0 < length m \<and> length m \<le> 2048) \<and> ?served ms"
    if pipe: "reads pipe (sent (under (bw c'))) EOF" for pipe
  proof -
    obtain ms where ms: "writeLoop collect_msg pipe [] = (EOF, ms)" "\<forall>m\<in>set ms. 0 < length m \<and> length m \<le> 2048"
      "concat ms = Token @ cid @ concat (map frame ps)"
      using writeLoop_collect [OF pipe, of "[]"] c'(2) by auto
    have "?served ms"
      by (intro allI impI) (elim conjE, rule serveHTTP_messages [OF ms(3) assms(3,4)], assumption+)
    then show ?thesis
      using ms(1,2) by (intro exI [of _ ms] conjI)
  qed
  then show ?thesis
    using c(1) c'(1) by (intro exI [of _ c] exI [of _ c'] conjI allI impI)
qed

theorem packets_cross_the_websocket_witness:
  "\<exists>c c'. WrapWebSocketDial [1, 2, 3, 4, 5, 6, 7, 8] (Inr (\<lparr>chunks = [], fin = EOF\<rparr>, \<lparr>sent = [], budget = None, werr = EOF\<rparr>)) = Inr c \<and>
    write_packets [[10, 20], []] c = (None, c')"
proof -
  have "unlimited \<lparr>sent = [], budget = None, werr = EOF\<rparr>" "sent \<lparr>sent = [], budget = None, werr = EOF\<rparr> = []"
    "length [1, 2, 3, 4, 5, 6, 7, 8 :: byte] = 8" "\<forall>p\<in>set [[10, 20], [] :: bytes]. length p < 2 ^ 20"
    by (simp_all add: unlimited_def)
  from packets_cross_the_websocket [OF this, of "\<lparr>chunks = [], fin = EOF\<rparr>"] show ?thesis
    by (elim exE conjE) (intro exI conjI)
qed

text \<open>
  C13: Packets come back the other way.  What the server's handler writes for the packets of a client's
  queue, each of less than a mebibyte, leaves as messages of at most 2048 bytes; however they are
  fragmented and mixed with control messages, the client's packet connection delivers exactly these
  packets, in order, each cut to the buffer of the call, and then the error that ended the WebSocket.
\<close>

theorem packets_return_from_server:
  assumes "unlimited w" "sent w = []" "\<forall>p\<in>set ps. length p < 2 ^ 20"
  shows "\<exists>b. serve_outgoing ps (NewWriter w) = (None, b) \<and>
    (\<forall>pipe. reads pipe (sent (under b)) EOF \<longrightarrow>
      (\<exists>ms. writeLoop collect_msg pipe [] = (EOF, ms) \<and> (\<forall>m\<in>set ms. 0 < length m \<and> length m \<le> 2048) \<and>
        (\<forall>arriving err k w'. carries ms arriving \<longrightarrow>
          read_packets k (Suc (length ps)) (NewEncapsulationPacketConn (ws_reader arriving err) w') =
            map (\<lambda>p. Inr (take k p)) ps @ [Inl (closeErrorToEOF err)])))"
proof -
  obtain b where b: "serve_outgoing ps (NewWriter w) = (None, b)" "sent (under b) = concat (map frame ps)"
    using serve_outgoing_ok [OF NewWriter_flushed [OF assms(1)] assms(3)] assms(2) by (auto simp: NewWriter_def)
  let ?delivered = "\<lambda>ms. \<forall>arriving err k w'. carries ms arriving \<longrightarrow>
    read_packets k (Suc (length ps)) (NewEncapsulationPacketConn (ws_reader arriving err) w') =
      map (\<lambda>p. Inr (take k p)) ps @ [Inl (closeErrorToEOF err)]"
  have "\<exists>ms. writeLoop collect_msg pipe [] = (EOF, ms) \<and> (\<forall>m\<in>set ms. 0 < length m \<and> length m \<le> 2048) \<and> ?delivered ms"
    if pipe: "reads pipe (sent (under b)) EOF" for pipe
  proof -
    obtain ms where ms: "writeLoop collect_msg pipe [] = (EOF, ms)" "\<forall>m\<in>set ms. 0 < length m \<and> length m \<le> 2048"
      "concat ms = concat (map frame ps)"
      using writeLoop_collect [OF pipe, of "[]"] b(2) by auto
    have "reads (ws_reader arriving err) (concat (map frame ps)) (closeErrorToEOF err)" if "carries ms arriving" for arriving err
      using ws_reader_reads [of arriving err] that ms(3) by (simp add: carries_def)
    then have "?delivered ms"
      using assms(3) by (intro allI impI read_packets_frames) (simp_all add: NewEncapsulationPacketConn_def)
    then show ?thesis
      using ms(1,2) by (intro exI [of _ ms] conjI)
  qed
  then show ?thesis
    using b(1) by (intro exI [of _ b] conjI allI impI)
qed

theorem packets_return_from_server_witness:
  "\<exists>b. serve_outgoing [[10, 20], []] (NewWriter \<lparr>sent = [], budget = None, werr = EOF\<rparr>) = (None, b)"
proof -
  have "unlimited \<lparr>sent = [], budget = None, werr = EOF\<rparr>" "sent \<lparr>sent = [], budget = None, werr = EOF\<rparr> = []"
    "\<forall>p\<in>set [[10, 20], [] :: bytes]. length p < 2 ^ 20"
    by (simp_all add: unlimited_def)
  from packets_return_from_server [OF this] show ?thesis
    by (elim exE conjE) (intro exI)
qed

end
