(* ===== verification/Go_Strings.thy ===== *)
theory Go_Strings
  imports Go_Prelude
begin

text \<open>
  Strings as the program uses them: the conversions between Go's \<^verbatim>\<open>string\<close> and \<^verbatim>\<open>[]byte\<close>,
  \<^verbatim>\<open>strings.Split\<close>, \<^verbatim>\<open>Join\<close>, \<^verbatim>\<open>SplitN\<close>, \<^verbatim>\<open>TrimSpace\<close>, \<^verbatim>\<open>HasPrefix\<close>, \<^verbatim>\<open>TrimSuffix\<close>, and numbers
  printed and read in a base.  Splitting a joined list gives the list back, and so does reading
  the digits of a number; the collection \<open>str_simps\<close> holds the rewriting rules.
\<close>

named_theorems str_simps \<open>splitting, joining and digits\<close>

subsection \<open>Strings and byte slices\<close>

definition go_string :: "bytes \<Rightarrow> string" where
  "go_string bs = map (\<lambda>b. char_of (unat b)) bs"

definition go_bytes :: "string \<Rightarrow> bytes" where
  "go_bytes s = map (\<lambda>c. of_nat (of_char c)) s"

lemma char_byte_char [simp]: "char_of (unat (of_nat (of_char c) :: byte)) = c"
  by (simp add: unat_of_nat)

lemma unat_of_nat_byte [simp]: "unat (b :: byte) mod 256 = unat b"
  using unsigned_less [of b, where 'a = nat] by simp

lemma go_string_bytes [simp]: "go_string (go_bytes s) = s"
  by (simp add: go_string_def go_bytes_def comp_def)

lemma go_bytes_string [simp]: "go_bytes (go_string b) = b"
  by (simp add: go_string_def go_bytes_def comp_def)

lemma length_go_string [simp]: "length (go_string b) = length b"
  by (simp add: go_string_def)

lemma length_go_bytes [simp]: "length (go_bytes s) = length s"
  by (simp add: go_bytes_def)

subsection \<open>Lower case\<close>

text \<open>
  \<^verbatim>\<open>strings.ToLower\<close>: the twenty-six letters in an ASCII string; any other string goes by the Unicode
  tables, which are the argument \<open>unicode\<close>.
\<close>

definition to_lower :: "char \<Rightarrow> char" where
  "to_lower c = (if 65 \<le> (of_char c :: nat) \<and> (of_char c :: nat) \<le> 90 then char_of ((of_char c :: nat) + 32) else c)"

definition ToLower :: "(string \<Rightarrow> string) \<Rightarrow> string \<Rightarrow> string" where
  "ToLower unicode s = (if list_all (\<lambda>c. (of_char c :: nat) < 128) s then map to_lower s else unicode s)"

subsection \<open>Splitting and joining\<close>

fun split_on :: "'a \<Rightarrow> 'a list \<Rightarrow> 'a list list" where
  "split_on c [] = [[]]"
| "split_on c (x # xs) =
     (if x = c then [] # split_on c xs
      else (case split_on c xs of [] \<Rightarrow> [[x]] | f # fs \<Rightarrow> (x # f) # fs))"

fun join_with :: "'a \<Rightarrow> 'a list list \<Rightarrow> 'a list" where
  "join_with c [] = []"
| "join_with c [f] = f"
| "join_with c (f # g # fs) = f @ c # join_with c (g # fs)"

lemma split_on_nonempty [simp]: "split_on c xs \<noteq> []"
  by (induction xs) (auto split: list.splits)

lemma split_on_free [str_simps]: "c \<notin> set f \<Longrightarrow> split_on c f = [f]"
  by (induction f) auto

lemma split_on_sep [str_simps]: "c \<notin> set f \<Longrightarrow> split_on c (f @ c # r) = f # split_on c r"
  by (induction f) auto

lemma split_join [str_simps]:
  "fs \<noteq> [] \<Longrightarrow> \<forall>f \<in> set fs. c \<notin> set f \<Longrightarrow> split_on c (join_with c fs) = fs"
  by (induction c fs rule: join_with.induct) (simp_all add: str_simps)

lemma join_split [str_simps]: "join_with c (split_on c xs) = xs"
proof (induction xs)
  case (Cons x xs)
  then show ?case
    by (cases "split_on c xs"; cases "tl (split_on c xs)") (auto split: list.splits)
qed simp

lemma split_on_fields: "f \<in> set (split_on c xs) \<Longrightarrow> c \<notin> set f"
  by (induction xs arbitrary: f) (auto split: if_splits list.splits)

lemma set_join_with: "set (join_with c fs) \<subseteq> insert c (\<Union>f \<in> set fs. set f)"
  by (induction c fs rule: join_with.induct) auto

text \<open>\<^verbatim>\<open>strings.SplitN(s, sep, 2)\<close>: the text before the first separator and the rest, if there is one.\<close>

fun split_first :: "'a \<Rightarrow> 'a list \<Rightarrow> ('a list \<times> 'a list) option" where
  "split_first c [] = None"
| "split_first c (x # xs) = (if x = c then Some ([], xs) else map_option (apfst (Cons x)) (split_first c xs))"

lemma split_first_sep [str_simps]: "c \<notin> set f \<Longrightarrow> split_first c (f @ c # r) = Some (f, r)"
  by (induction f) auto

lemma split_first_None [str_simps]: "split_first c xs = None \<longleftrightarrow> c \<notin> set xs"
  by (induction xs) auto

text \<open>Cutting at the last separator (\<^verbatim>\<open>strings.LastIndexByte\<close>).\<close>

definition split_last :: "'a \<Rightarrow> 'a list \<Rightarrow> ('a list \<times> 'a list) option" where
  "split_last c xs = map_option (\<lambda>(b, a). (rev a, rev b)) (split_first c (rev xs))"

lemma split_last_sep [str_simps]: "c \<notin> set r \<Longrightarrow> split_last c (f @ c # r) = Some (f, r)"
  by (simp add: split_last_def str_simps)

lemma split_last_None [str_simps]: "split_last c xs = None \<longleftrightarrow> c \<notin> set xs"
  by (simp add: split_last_def str_simps)

definition HasPrefix :: "'a list \<Rightarrow> 'a list \<Rightarrow> bool" where
  "HasPrefix s p \<longleftrightarrow> take (length p) s = p"

definition HasSuffix :: "'a list \<Rightarrow> 'a list \<Rightarrow> bool" where
  "HasSuffix s p \<longleftrightarrow> HasPrefix (rev s) (rev p)"

definition TrimSuffix :: "'a list \<Rightarrow> 'a list \<Rightarrow> 'a list" where
  "TrimSuffix s p = (if HasSuffix s p then take (length s - length p) s else s)"

definition TrimPrefix :: "'a list \<Rightarrow> 'a list \<Rightarrow> 'a list" where
  "TrimPrefix s p = (if HasPrefix s p then drop (length p) s else s)"

lemma HasPrefix_append [simp]: "HasPrefix (p @ s) p"
  by (simp add: HasPrefix_def)

lemma TrimSuffix_append [str_simps]: "TrimSuffix (s @ p) p = s"
  by (simp add: TrimSuffix_def HasSuffix_def)

lemma TrimPrefix_append [str_simps]: "TrimPrefix (p @ s) p = s"
  by (simp add: TrimPrefix_def)

text \<open>\<^verbatim>\<open>strings.Contains\<close>.\<close>

fun contains_str :: "'a list \<Rightarrow> 'a list \<Rightarrow> bool" where
  "contains_str [] p = (p = [])"
| "contains_str (x # xs) p = (HasPrefix (x # xs) p \<or> contains_str xs p)"

definition is_space :: "char \<Rightarrow> bool" where
  "is_space c \<longleftrightarrow> c \<in> {CHR '' '', CHR 0x09, CHR 0x0A, CHR 0x0B, CHR 0x0C, CHR 0x0D}"

definition TrimSpace :: "string \<Rightarrow> string" where
  "TrimSpace s = rev (dropWhile is_space (rev (dropWhile is_space s)))"

lemma TrimSpace_id:
  assumes "s = [] \<or> \<not> is_space (hd s) \<and> \<not> is_space (last s)"
  shows "TrimSpace s = s"
proof -
  have "dropWhile is_space s = s" "dropWhile is_space (rev s) = rev s"
    using assms by (auto simp: dropWhile_eq_self_iff hd_rev)
  then show ?thesis
    by (simp add: TrimSpace_def)
qed

subsection \<open>Numbers\<close>

fun digits :: "nat \<Rightarrow> nat \<Rightarrow> nat list" where
  "digits b n = (if n < b \<or> b < 2 then [n] else digits b (n div b) @ [n mod b])"

declare digits.simps [simp del]

definition undigits :: "nat \<Rightarrow> nat list \<Rightarrow> nat" where
  "undigits b ds = foldl (\<lambda>a d. a * b + d) 0 ds"

lemma undigits_snoc [simp]: "undigits b (ds @ [d]) = undigits b ds * b + d"
  by (simp add: undigits_def)

lemma undigits_digits [str_simps]: "undigits b (digits b n) = n"
proof (induction b n rule: digits.induct)
  case (1 b n)
  then show ?case
    by (subst digits.simps) (auto simp: undigits_def [of b "[n]"])
qed

lemma digits_nonempty [simp]: "digits b n \<noteq> []"
  by (subst digits.simps) simp

lemma digits_less:
  assumes "2 \<le> b"
  shows "\<forall>d \<in> set (digits b n). d < b"
  using assms
proof (induction b n rule: digits.induct)
  case (1 b n)
  then show ?case
    by (subst digits.simps) auto
qed

lemma length_digits:
  assumes "2 \<le> b" "0 < k" "n < b ^ k"
  shows "length (digits b n) \<le> k"
  using assms
proof (induction k arbitrary: n)
  case (Suc k)
  show ?case
  proof (cases "n < b")
    case True
    then show ?thesis
      by (simp add: digits.simps [of b n])
  next
    case False
    then have "n div b < b ^ k" "k \<noteq> 0"
      using Suc.prems by (auto simp: less_mult_imp_div_less mult.commute intro: ccontr)
    then show ?thesis
      using Suc False by (simp add: digits.simps [of b n])
  qed
qed simp

lemma hd_digits:
  assumes "2 \<le> b" "0 < n"
  shows "hd (digits b n) \<noteq> 0"
  using assms
proof (induction b n rule: digits.induct)
  case (1 b n)
  show ?case
  proof (cases "n < b")
    case False
    then have "0 < n div b"
      using 1 by (simp add: div_greater_zero_iff)
    then show ?thesis
      using 1 False by (subst digits.simps) simp
  qed (use 1 in \<open>simp add: digits.simps\<close>)
qed

text \<open>Digits as characters; hexadecimal letters are printed in lower case and read in either.\<close>

definition digit_char :: "nat \<Rightarrow> char" where
  "digit_char d = (if d < 10 then char_of (48 + d) else char_of (87 + d))"

definition char_digit :: "char \<Rightarrow> nat option" where
  "char_digit c =
     (let n = of_char c :: nat
      in if 48 \<le> n \<and> n \<le> 57 then Some (n - 48)
         else if 97 \<le> n \<and> n \<le> 102 then Some (n - 87)
         else if 65 \<le> n \<and> n \<le> 70 then Some (n - 55)
         else None)"

definition print_base :: "nat \<Rightarrow> nat \<Rightarrow> string" where
  "print_base b n = map digit_char (digits b n)"

definition digit_in :: "nat \<Rightarrow> char \<Rightarrow> nat option" where
  "digit_in b c = (case char_digit c of None \<Rightarrow> None | Some d \<Rightarrow> if d < b then Some d else None)"

definition parse_base :: "nat \<Rightarrow> string \<Rightarrow> nat option" where
  "parse_base b s = (if s = [] then None else map_option (undigits b) (those (map (digit_in b) s)))"

text \<open>\<^verbatim>\<open>hex.EncodeToString\<close>.\<close>

definition hex_string :: "bytes \<Rightarrow> string" where
  "hex_string bs = concat (map (\<lambda>b. [digit_char (unat b div 16), digit_char (unat b mod 16)]) bs)"

abbreviation Itoa :: "nat \<Rightarrow> string" where
  "Itoa n \<equiv> print_base 10 n"

lemma digit_in_char: "d < b \<Longrightarrow> b \<le> 16 \<Longrightarrow> digit_in b (digit_char d) = Some d"
  by (auto simp: digit_in_def char_digit_def digit_char_def Let_def)

lemma those_Some [simp]: "those (map Some xs) = Some xs"
  by (induction xs) auto

lemma those_map:
  assumes "\<And>x. x \<in> set xs \<Longrightarrow> f x = Some (g x)"
  shows "those (map f xs) = Some (map g xs)"
  using assms by (induction xs) auto

lemma those_None: "x \<in> set xs \<Longrightarrow> f x = None \<Longrightarrow> those (map f xs) = None"
  by (induction xs) (auto split: option.splits)

lemma print_base_nonempty [simp]: "print_base b n \<noteq> []"
  by (simp add: print_base_def)

lemma parse_print [str_simps]:
  assumes "2 \<le> b" "b \<le> 16"
  shows "parse_base b (print_base b n) = Some n"
proof -
  have "those (map (digit_in b) (print_base b n)) = Some (digits b n)"
    using digits_less [OF assms(1), of n] assms(2) those_map [of "digits b n" "digit_in b \<circ> digit_char" id]
    by (simp add: print_base_def digit_in_char)
  then show ?thesis
    by (simp add: parse_base_def str_simps)
qed

lemma print_base_digits:
  assumes "2 \<le> b" "b \<le> 16" "c \<in> set (print_base b n)"
  shows "char_digit c \<noteq> None"
proof -
  obtain d where d: "d \<in> set (digits b n)" "c = digit_char d"
    using assms(3) by (auto simp: print_base_def)
  then have "digit_in b c = Some d"
    using digits_less [OF assms(1), of n] assms(2) by (simp add: digit_in_char)
  then show ?thesis
    by (auto simp: digit_in_def split: option.splits)
qed

lemma no_digit [simp]:
  "char_digit CHR '':'' = None" "char_digit CHR ''.'' = None" "char_digit CHR ''%'' = None"
  "char_digit CHR ''['' = None" "char_digit CHR '']'' = None" "char_digit CHR ''-'' = None"
  by code_simp+

lemma print_base_free:
  assumes "2 \<le> b" "b \<le> 16" "char_digit c = None"
  shows "c \<notin> set (print_base b n)"
  using print_base_digits [OF assms(1,2)] assms(3) by blast

end
