(* ===== verification/Go_Net.thy ===== *)
theory Go_Net
  imports Go_Strings
begin

text \<open>
  The address functions of package \<^verbatim>\<open>net\<close> the program calls: \<^verbatim>\<open>ParseIP\<close>, \<^verbatim>\<open>IP.String\<close>, \<^verbatim>\<open>IP.To4\<close>,
  \<^verbatim>\<open>JoinHostPort\<close> and \<^verbatim>\<open>SplitHostPort\<close>.  Addresses are byte strings of length 4 or 16, as in Go;
  IPv6 text is RFC 5952, with the first longest run of at least two zero groups written \<open>::\<close>.
  The results: \<open>ParseIP\<close> reads back what \<open>IP_String\<close> prints, for every address, and
  \<open>SplitHostPort\<close> what \<open>JoinHostPort\<close> makes of a host without brackets.
\<close>

subsection \<open>IPv4\<close>

definition v4_field :: "string \<Rightarrow> nat option" where
  "v4_field f =
     (if length f \<le> 3 \<and> (1 < length f \<longrightarrow> hd f \<noteq> CHR ''0'') then
        (case parse_base 10 f of None \<Rightarrow> None | Some n \<Rightarrow> if n \<le> 255 then Some n else None)
      else None)"

definition parse_v4 :: "string \<Rightarrow> bytes option" where
  "parse_v4 s =
     (case those (map v4_field (split_on CHR ''.'' s)) of
        None \<Rightarrow> None
      | Some ns \<Rightarrow> if length ns = 4 then Some (map of_nat ns) else None)"

definition print_v4 :: "bytes \<Rightarrow> string" where
  "print_v4 ip = join_with CHR ''.'' (map (\<lambda>b. Itoa (unat b)) ip)"

lemma hd_Itoa: "hd (Itoa n) = CHR ''0'' \<Longrightarrow> n = 0"
proof (rule ccontr)
  assume "hd (Itoa n) = CHR ''0''" "n \<noteq> 0"
  moreover have "CHR ''0'' = digit_char 0"
    by code_simp
  ultimately have "digit_char (hd (digits 10 n)) = digit_char 0" "hd (digits 10 n) \<noteq> 0"
    using hd_digits [of 10 n] by (simp_all add: print_base_def hd_map)
  moreover have "hd (digits 10 n) < 10"
    using digits_less [of 10 n] by simp
  ultimately show False
    using digit_in_char [of "hd (digits 10 n)" 10] digit_in_char [of 0 10] by simp
qed

lemma v4_field_Itoa:
  assumes "n \<le> 255"
  shows "v4_field (Itoa n) = Some n"
proof -
  have l: "length (Itoa n) \<le> 3"
    using length_digits [of 10 3 n] assms by (simp add: print_base_def)
  have "length (Itoa 0) = 1"
    by (simp add: print_base_def digits.simps [of 10 0])
  then have "hd (Itoa n) \<noteq> CHR ''0''" if "1 < length (Itoa n)"
    using that hd_Itoa [of n] by fastforce
  with l show ?thesis
    using assms by (simp add: v4_field_def str_simps)
qed

lemma byte_le [simp]: "unat (b :: byte) \<le> 255"
  using unsigned_less [of b, where 'a = nat] by simp

lemma unat_byte_div [simp]: "unat (b :: byte) div 256 = 0"
  using unsigned_less [of b, where 'a = nat] by simp

lemma parse_print_v4 [str_simps]:
  assumes "length ip = 4"
  shows "parse_v4 (print_v4 ip) = Some ip"
proof -
  let ?fs = "map (\<lambda>b. Itoa (unat b)) ip"
  have "?fs \<noteq> []" "\<forall>f \<in> set ?fs. CHR ''.'' \<notin> set f"
    using assms by (auto simp: print_base_free)
  then have "split_on CHR ''.'' (print_v4 ip) = ?fs"
    unfolding print_v4_def by (rule split_join)
  moreover have "those (map v4_field ?fs) = Some (map unat ip)"
    using those_map [of ip "v4_field \<circ> (\<lambda>b. Itoa (unat b))" unat] by (simp add: v4_field_Itoa comp_def)
  ultimately show ?thesis
    using assms by (simp add: parse_v4_def comp_def)
qed

subsection \<open>IPv6\<close>

definition hex_field :: "string \<Rightarrow> nat option" where
  "hex_field f = (if length f \<le> 4 then parse_base 16 f else None)"

text \<open>The groups of the text after the \<open>::\<close>, or of the whole text; the last may be an IPv4 address.\<close>

fun v6_groups :: "string list \<Rightarrow> nat list option" where
  "v6_groups [] = Some []"
| "v6_groups [f] =
     (if CHR ''.'' \<in> set f then
        (case parse_v4 f of
           Some [a, b, c, d] \<Rightarrow> Some [unat a * 256 + unat b, unat c * 256 + unat d]
         | _ \<Rightarrow> None)
      else map_option (\<lambda>x. [x]) (hex_field f))"
| "v6_groups (f # g # fs) =
     (case hex_field f of None \<Rightarrow> None | Some x \<Rightarrow> map_option (Cons x) (v6_groups (g # fs)))"

fun cut_ellipsis :: "string \<Rightarrow> (string \<times> string) option" where
  "cut_ellipsis (x # y # r) =
     (if x = CHR '':'' \<and> y = CHR '':'' then Some ([], r)
      else map_option (apfst (Cons x)) (cut_ellipsis (y # r)))"
| "cut_ellipsis _ = None"

definition parse_v6 :: "string \<Rightarrow> nat list option" where
  "parse_v6 s =
     (case cut_ellipsis s of
        None \<Rightarrow>
          (case v6_groups (split_on CHR '':'' s) of
             Some gs \<Rightarrow> if length gs = 8 then Some gs else None
           | None \<Rightarrow> None)
      | Some (a, b) \<Rightarrow>
          (case (if a = [] then Some [] else those (map hex_field (split_on CHR '':'' a)),
                 if b = [] then Some [] else v6_groups (split_on CHR '':'' b)) of
             (Some xs, Some ys) \<Rightarrow>
               if length xs + length ys \<le> 7 then Some (xs @ replicate (8 - (length xs + length ys)) 0 @ ys)
               else None
           | _ \<Rightarrow> None))"

text \<open>The first longest run of zero groups: its start and length.\<close>

fun leading_zeros :: "nat list \<Rightarrow> nat" where
  "leading_zeros (x # xs) = (if x = 0 then Suc (leading_zeros xs) else 0)"
| "leading_zeros [] = 0"

definition zero_run :: "nat list \<Rightarrow> nat \<times> nat" where
  "zero_run gs =
     foldl (\<lambda>(s, l) i. let z = leading_zeros (drop i gs) in if l < z then (i, z) else (s, l))
       (0, 0) [0..<length gs]"

definition print_v6 :: "nat list \<Rightarrow> string" where
  "print_v6 gs =
     (case zero_run gs of (s, l) \<Rightarrow>
        if 2 \<le> l then
          join_with CHR '':'' (map (print_base 16) (take s gs)) @ ''::'' @
          join_with CHR '':'' (map (print_base 16) (drop (s + l) gs))
        else join_with CHR '':'' (map (print_base 16) gs))"

fun groups_of :: "bytes \<Rightarrow> nat list" where
  "groups_of (a # b # r) = (unat a * 256 + unat b) # groups_of r"
| "groups_of _ = []"

fun bytes_of_groups :: "nat list \<Rightarrow> bytes" where
  "bytes_of_groups (x # xs) = of_nat (x div 256) # of_nat (x mod 256) # bytes_of_groups xs"
| "bytes_of_groups [] = []"

subsection \<open>\<^verbatim>\<open>net.IP\<close>\<close>

definition v4InV6Prefix :: bytes where
  "v4InV6Prefix = [0, 0, 0, 0, 0, 0, 0, 0, 0, 0, 0xff, 0xff]"

definition To4 :: "bytes \<Rightarrow> bytes option" where
  "To4 ip =
     (if length ip = 4 then Some ip
      else if length ip = 16 \<and> take 12 ip = v4InV6Prefix then Some (drop 12 ip)
      else None)"

definition To16 :: "bytes \<Rightarrow> bytes option" where
  "To16 ip =
     (if length ip = 4 then Some (v4InV6Prefix @ ip) else if length ip = 16 then Some ip else None)"

text \<open>The first of \<open>.\<close>, \<open>:\<close> and \<open>%\<close> in the text decides how it is read.\<close>

definition ip_mark :: "char \<Rightarrow> bool" where
  "ip_mark c \<longleftrightarrow> c \<in> {CHR ''.'', CHR '':'', CHR ''%''}"

definition ParseIP :: "string \<Rightarrow> bytes option" where
  "ParseIP s =
     (case find ip_mark s of
        None \<Rightarrow> None
      | Some c \<Rightarrow>
          if c = CHR ''.'' then map_option ((@) v4InV6Prefix) (parse_v4 s)
          else if c = CHR '':'' then map_option bytes_of_groups (parse_v6 s)
          else None)"

definition IP_String :: "bytes \<Rightarrow> string" where
  "IP_String ip =
     (if ip = [] then ''<nil>''
      else
        (case To4 ip of
           Some ip4 \<Rightarrow> print_v4 ip4
         | None \<Rightarrow> if length ip = 16 then print_v6 (groups_of ip) else CHR ''?'' # hex_string ip))"

subsection \<open>Reading what was printed\<close>

lemma cut_skip:
  "a \<noteq> CHR '':'' \<Longrightarrow> cut_ellipsis (a # s) = map_option (apfst (Cons a)) (cut_ellipsis s)"
  by (cases s) auto

lemma cut_field:
  "CHR '':'' \<notin> set f \<Longrightarrow> cut_ellipsis (f @ s) = map_option (apfst ((@) f)) (cut_ellipsis s)"
  by (induction f; cases "cut_ellipsis s") (auto simp: cut_skip)

lemma cut_single: "cut_ellipsis [CHR '':''] = None"
  by simp

definition fields_ok :: "string list \<Rightarrow> bool" where
  "fields_ok fs \<longleftrightarrow> (\<forall>f \<in> set fs. f \<noteq> [] \<and> CHR '':'' \<notin> set f)"

lemma cut_colon:
  assumes "fields_ok (g # fs)"
  shows "cut_ellipsis (CHR '':'' # join_with CHR '':'' (g # fs) @ s) =
         map_option (apfst (Cons CHR '':'')) (cut_ellipsis (join_with CHR '':'' (g # fs) @ s))"
proof -
  obtain x r where "join_with CHR '':'' (g # fs) = x # r" "x \<noteq> CHR '':''"
    using assms by (cases g; cases fs) (auto simp: fields_ok_def)
  then show ?thesis
    by simp
qed

lemma cut_join_some:
  "fields_ok fs \<Longrightarrow> cut_ellipsis (join_with CHR '':'' fs @ CHR '':'' # CHR '':'' # r)
     = Some (join_with CHR '':'' fs, r)"
proof (induction "CHR '':''" fs rule: join_with.induct)
  case (3 f g fs)
  then have "CHR '':'' \<notin> set f" "fields_ok (g # fs)"
    by (simp_all add: fields_ok_def)
  then show ?case
    using 3 cut_colon [of g fs] by (simp add: cut_field)
qed (simp_all add: cut_field fields_ok_def)

lemma cut_join_none: "fields_ok fs \<Longrightarrow> cut_ellipsis (join_with CHR '':'' fs) = None"
proof (induction "CHR '':''" fs rule: join_with.induct)
  case (2 f)
  then show ?case
    using cut_field [of f "[]"] by (simp add: fields_ok_def)
next
  case (3 f g fs)
  then have "CHR '':'' \<notin> set f" "fields_ok (g # fs)"
    by (simp_all add: fields_ok_def)
  then show ?case
    using 3 cut_colon [of g fs "[]"] by (simp add: cut_field)
qed simp

abbreviation group_ok :: "nat \<Rightarrow> bool" where
  "group_ok x \<equiv> x < 65536"

abbreviation hexes :: "nat list \<Rightarrow> string list" where
  "hexes gs \<equiv> map (print_base 16) gs"

lemma hex_field_print: "group_ok x \<Longrightarrow> hex_field (print_base 16 x) = Some x"
proof -
  assume "group_ok x"
  then have "length (print_base 16 x) \<le> 4"
    using length_digits [of 16 4 x] by (simp add: print_base_def)
  then show ?thesis
    by (simp add: hex_field_def str_simps)
qed

lemma fields_ok_hexes: "fields_ok (hexes gs)"
  by (auto simp: fields_ok_def print_base_free)

lemma split_hexes: "gs \<noteq> [] \<Longrightarrow> split_on CHR '':'' (join_with CHR '':'' (hexes gs)) = hexes gs"
  by (rule split_join) (auto simp: print_base_free)

lemma v6_groups_hexes: "\<forall>x \<in> set gs. group_ok x \<Longrightarrow> v6_groups (hexes gs) = Some gs"
  by (induction gs rule: induct_list012) (simp_all add: hex_field_print print_base_free)

lemma join_hexes_Nil: "join_with CHR '':'' (hexes gs) = [] \<longleftrightarrow> gs = []"
  by (cases gs; cases "tl gs") auto

lemma front_groups:
  assumes "\<forall>x \<in> set gs. group_ok x"
  shows "(if join_with CHR '':'' (hexes gs) = [] then Some []
          else those (map hex_field (split_on CHR '':'' (join_with CHR '':'' (hexes gs))))) = Some gs"
  using those_map [of gs "hex_field \<circ> print_base 16" id] assms
  by (cases "gs = []") (simp_all add: join_hexes_Nil split_hexes hex_field_print)

lemma back_groups:
  assumes "\<forall>x \<in> set gs. group_ok x"
  shows "(if join_with CHR '':'' (hexes gs) = [] then Some []
          else v6_groups (split_on CHR '':'' (join_with CHR '':'' (hexes gs)))) = Some gs"
  using assms by (cases "gs = []") (simp_all add: join_hexes_Nil split_hexes v6_groups_hexes)

lemma leading_zeros_le: "leading_zeros xs \<le> length xs"
  by (induction xs) auto

lemma leading_zeros_take: "take (leading_zeros xs) xs = replicate (leading_zeros xs) 0"
  by (induction xs) auto

lemma zero_run:
  assumes "zero_run gs = (s, l)"
  shows "s + l \<le> length gs \<and> take l (drop s gs) = replicate l 0"
proof -
  define ok where "ok = (\<lambda>(s, l). s + l \<le> length gs \<and> take l (drop s gs) = replicate l 0)"
  define f where "f = (\<lambda>(s, l) i. let z = leading_zeros (drop i gs) in if l < z then (i, z) else (s, l))"
  have step: "ok (f p i)" if "ok p" "i < length gs" for p i
    using that leading_zeros_le [of "drop i gs"] leading_zeros_take [of "drop i gs"]
    by (cases p) (auto simp: ok_def f_def Let_def)
  have "ok (foldl f p js)" if "ok p" "\<forall>i \<in> set js. i < length gs" for p js
    using that by (induction js arbitrary: p) (simp_all add: step)
  from this [of "(0, 0)" "[0..<length gs]"] assms show ?thesis
    by (simp add: zero_run_def f_def ok_def)
qed

lemma parse_print_v6:
  assumes "length gs = 8" and ok: "\<forall>x \<in> set gs. group_ok x"
  shows "parse_v6 (print_v6 gs) = Some gs"
proof -
  obtain s l where r: "zero_run gs = (s, l)"
    by fastforce
  show ?thesis
  proof (cases "2 \<le> l")
    case True
    let ?a = "take s gs" and ?b = "drop (s + l) gs"
    have z: "s + l \<le> 8" "take l (drop s gs) = replicate l 0"
      using zero_run [OF r] assms(1) by auto
    then have g: "?a @ replicate l 0 @ ?b = gs"
      by (metis append_take_drop_id drop_drop add.commute)
    have ab: "\<forall>x \<in> set ?a. group_ok x" "\<forall>x \<in> set ?b. group_ok x"
      using ok by (auto dest: in_set_takeD in_set_dropD)
    have len: "length ?a + length ?b = 8 - l"
      using z assms(1) by simp
    have p: "parse_v6 (print_v6 gs) =
        (if length ?a + length ?b \<le> 7 then Some (?a @ replicate (8 - (length ?a + length ?b)) 0 @ ?b) else None)"
      unfolding parse_v6_def print_v6_def r
      by (simp only: prod.case True if_True append_Cons append_Nil cut_join_some [OF fields_ok_hexes]
          option.case front_groups [OF ab(1)] back_groups [OF ab(2)])
    show ?thesis
      unfolding p len using True z(1) g by simp
  next
    case False
    then show ?thesis
      using assms by (simp add: parse_v6_def print_v6_def r cut_join_none fields_ok_hexes split_hexes
          v6_groups_hexes flip: length_greater_0_conv)
  qed
qed

lemma find_only:
  assumes "c \<in> set s" "Q c" "\<forall>x \<in> set s. x \<noteq> c \<longrightarrow> \<not> Q x"
  shows "find Q s = Some c"
  using assms by (induction s) auto

lemma set_join_digits:
  assumes "x \<in> set (join_with c (map (print_base b) gs))" "2 \<le> b" "b \<le> 16"
  shows "x = c \<or> char_digit x \<noteq> None"
proof -
  have "x \<in> insert c (\<Union>f \<in> set (map (print_base b) gs). set f)"
    using set_join_with assms(1) by (rule subsetD)
  then consider "x = c" | g where "x \<in> set (print_base b g)"
    by auto
  then show ?thesis
    using print_base_digits [OF assms(2,3)] by cases auto
qed

lemma sep_in_join: "2 \<le> length fs \<Longrightarrow> c \<in> set (join_with c fs)"
  by (induction c fs rule: join_with.induct) simp_all

lemma ip_mark_no_digit: "ip_mark x \<Longrightarrow> char_digit x = None"
  unfolding ip_mark_def by (elim insertE emptyE) (simp_all only: no_digit)

lemma find_v4:
  assumes "length ip = 4"
  shows "find ip_mark (print_v4 ip) = Some CHR ''.''"
proof (rule find_only)
  have p: "print_v4 ip = join_with CHR ''.'' (map (print_base 10) (map unat ip))"
    by (simp add: print_v4_def comp_def)
  show "CHR ''.'' \<in> set (print_v4 ip)"
    unfolding p by (rule sep_in_join) (simp add: assms)
  show "\<forall>x \<in> set (print_v4 ip). x \<noteq> CHR ''.'' \<longrightarrow> \<not> ip_mark x"
    using set_join_digits [of _ "CHR ''.''" 10 "map unat ip"] ip_mark_no_digit unfolding p by fastforce
qed (simp add: ip_mark_def)

lemma set_print_v6:
  assumes "x \<in> set (print_v6 gs)"
  shows "x = CHR '':'' \<or> char_digit x \<noteq> None"
proof -
  obtain xs where "x = CHR '':'' \<or> x \<in> set (join_with CHR '':'' (hexes xs))"
    using assms by (auto simp: print_v6_def split: prod.splits if_splits)
  then show ?thesis
    using set_join_digits [of x "CHR '':''" 16 xs] by auto
qed

lemma find_v6:
  assumes "length gs = 8"
  shows "find ip_mark (print_v6 gs) = Some CHR '':''"
proof (rule find_only)
  have "CHR '':'' \<in> set (join_with CHR '':'' (hexes gs))"
    by (rule sep_in_join) (simp add: assms)
  then show "CHR '':'' \<in> set (print_v6 gs)"
    by (simp add: print_v6_def case_prod_beta)
  show "\<forall>x \<in> set (print_v6 gs). x \<noteq> CHR '':'' \<longrightarrow> \<not> ip_mark x"
    using set_print_v6 ip_mark_no_digit by fastforce
qed (simp add: ip_mark_def)

lemma bytes_of_groups_of: "even (length ip) \<Longrightarrow> bytes_of_groups (groups_of ip) = ip"
proof (induction ip rule: groups_of.induct)
  case (1 a b r)
  then show ?case
    by simp
qed simp_all

lemma length_groups_of: "length (groups_of ip) = length ip div 2"
  by (induction ip rule: groups_of.induct) simp_all

lemma groups_of_ok: "\<forall>x \<in> set (groups_of ip). group_ok x"
proof (induction ip rule: groups_of.induct)
  case (1 a b r)
  have "unat a * 256 + unat b < 65536"
    using byte_le [of a] byte_le [of b] by linarith
  then show ?case
    using 1 by simp
qed simp_all

lemma v4_mapped: "take 12 ip = v4InV6Prefix \<Longrightarrow> v4InV6Prefix @ drop 12 ip = ip"
  by (metis append_take_drop_id)

text \<open>Printing an address and reading it gives the address, in its 16-byte form.\<close>

lemma ParseIP_String [str_simps]:
  assumes "length ip = 4 \<or> length ip = 16"
  shows "ParseIP (IP_String ip) = To16 ip"
proof (cases "To4 ip")
  case None
  then have l: "length ip = 16" "ip \<noteq> []"
    using assms by (auto simp: To4_def)
  then have "length (groups_of ip) = 8"
    by (simp add: length_groups_of)
  then show ?thesis
    using None l groups_of_ok [of ip]
    by (simp add: IP_String_def ParseIP_def find_v6 parse_print_v6 bytes_of_groups_of To16_def)
next
  case (Some ip4)
  then have l: "length ip4 = 4" "ip \<noteq> []" "To16 ip = Some (v4InV6Prefix @ ip4)"
    using assms by (auto simp: To4_def To16_def v4_mapped split: if_splits)
  then show ?thesis
    using Some by (simp add: IP_String_def ParseIP_def find_v4 str_simps)
qed

subsection \<open>Host and port\<close>

definition JoinHostPort :: "string \<Rightarrow> string \<Rightarrow> string" where
  "JoinHostPort host port =
     (if CHR '':'' \<in> set host then ''['' @ host @ '']:'' @ port else host @ '':'' @ port)"

definition SplitHostPort :: "string \<Rightarrow> error + string \<times> string" where
  "SplitHostPort hp =
     (case split_last CHR '':'' hp of
        None \<Rightarrow> Inl (Errorf ''missing port in address'')
      | Some (before, port) \<Rightarrow>
          if hp \<noteq> [] \<and> hd hp = CHR ''['' then
            (case split_first CHR '']'' hp of
               None \<Rightarrow> Inl (Errorf ''missing ']' in address'')
             | Some (h, r) \<Rightarrow>
                 if r = [] then Inl (Errorf ''missing port in address'')
                 else if h @ '']'' = before then
                   (if CHR ''['' \<in> set (drop 1 hp) then Inl (Errorf ''unexpected '[' in address'')
                    else if CHR '']'' \<in> set r then Inl (Errorf ''unexpected ']' in address'')
                    else Inr (drop 1 h, port))
                 else if hd r = CHR '':'' then Inl (Errorf ''too many colons in address'')
                 else Inl (Errorf ''missing port in address''))
          else if CHR '':'' \<in> set before then Inl (Errorf ''too many colons in address'')
          else if CHR ''['' \<in> set hp then Inl (Errorf ''unexpected '[' in address'')
          else if CHR '']'' \<in> set hp then Inl (Errorf ''unexpected ']' in address'')
          else Inr (before, port))"

lemma Split_JoinHostPort [str_simps]:
  assumes "CHR ''['' \<notin> set host" "CHR '']'' \<notin> set host"
    "CHR ''['' \<notin> set port" "CHR '']'' \<notin> set port" "CHR '':'' \<notin> set port"
  shows "SplitHostPort (JoinHostPort host port) = Inr (host, port)"
proof (cases "CHR '':'' \<in> set host")
  case True
  have "split_last CHR '':'' (CHR ''['' # host @ CHR '']'' # CHR '':'' # port) = Some (CHR ''['' # host @ '']'', port)"
    using split_last_sep [OF assms(5), of "CHR ''['' # host @ '']''"] by simp
  moreover have "split_first CHR '']'' (CHR ''['' # host @ CHR '']'' # CHR '':'' # port) = Some (CHR ''['' # host, CHR '':'' # port)"
    using split_first_sep [of "CHR '']''" "CHR ''['' # host" "CHR '':'' # port"] assms(2) by simp
  ultimately show ?thesis
    using True assms by (simp add: SplitHostPort_def JoinHostPort_def)
next
  case False
  then have "\<not> (host @ CHR '':'' # port \<noteq> [] \<and> hd (host @ CHR '':'' # port) = CHR ''['')"
    using assms(1) by (cases host) auto
  then show ?thesis
    using False assms by (simp add: SplitHostPort_def JoinHostPort_def str_simps)
qed

end
