(* ===== verification/Socks5_Server.thy ===== *)
theory Socks5_Server
  imports Go_Conn Go_Net
begin

text \<open>
  \<^verbatim>\<open>snowflake/common/socks5/socks5.go\<close>: the SOCKS5 server handshake (RFC 1928), its replies, and the
  accept loop.  \<open>socks_host\<close> is the address field of the RFC, a reference for the three address
  types; \<open>HandshakeServer\<close> accepts exactly the greetings and requests built from it.
\<close>

subsection \<open>The handshake\<close>

definition version5 :: byte where "version5 = 0x05"
definition cmdConnect :: byte where "cmdConnect = 0x01"
definition atypIPv4 :: byte where "atypIPv4 = 0x01"
definition atypDomain :: byte where "atypDomain = 0x03"
definition atypIPv6 :: byte where "atypIPv6 = 0x04"

lemmas socks_consts = version5_def cmdConnect_def atypIPv4_def atypDomain_def atypIPv6_def

record Target =
  tNetwork :: string
  Host :: string
  Port :: int

definition Target_Addr :: "Target \<Rightarrow> string" where
  "Target_Addr t = JoinHostPort (Host t)
     ((if Port t < 0 then ''-'' else []) @ Itoa (nat \<bar>Port t\<bar>))"

text \<open>The switch over the address type; \<^verbatim>\<open>ReadTarget\<close> of \<^verbatim>\<open>stream.go\<close> has the same one.\<close>

definition read_host :: "(nat \<Rightarrow> 'c \<Rightarrow> (error + bytes) \<times> 'c) \<Rightarrow> byte \<Rightarrow> 'c \<Rightarrow> (error + string) \<times> 'c" where
  "read_host rd atyp =
     (if atyp = atypIPv4 then bind_io (rd 4) (\<lambda>ip. ret_io (IP_String ip))
      else if atyp = atypDomain then
        bind_io (rd 1) (\<lambda>lenByte. bind_io (rd (unat (lenByte ! 0))) (\<lambda>name. ret_io (go_string name)))
      else if atyp = atypIPv6 then bind_io (rd 16) (\<lambda>ip. ret_io (IP_String ip))
      else fail_io ErrUnsupportedAddr)"

definition HandshakeServer :: "(nat \<Rightarrow> 'c \<Rightarrow> (error + bytes) \<times> 'c) \<Rightarrow>
    ('c \<Rightarrow> bytes \<Rightarrow> (nat \<times> error option) \<times> 'c) \<Rightarrow> 'c \<Rightarrow> (error + Target) \<times> 'c" where
  "HandshakeServer rd wr =
     bind_io (rd 2) (\<lambda>hdr.
       if hdr ! 0 \<noteq> version5 then fail_io ErrUnsupportedVersion
       else
         bind_io (rd (unat (hdr ! 1))) (\<lambda>methods.
         bind_io (put_io wr [version5, 0x00]) (\<lambda>_.
         bind_io (rd 2) (\<lambda>hdr.
           if hdr ! 0 \<noteq> version5 then fail_io ErrUnsupportedVersion
           else if hdr ! 1 \<noteq> cmdConnect then fail_io ErrUnsupportedCommand
           else
             bind_io (rd 1) (\<lambda>rsv.
             bind_io (rd 1) (\<lambda>atyp.
             bind_io (read_host rd (atyp ! 0)) (\<lambda>host.
             bind_io (rd 2) (\<lambda>portBytes.
             ret_io \<lparr>tNetwork = ''tcp'', Host = host, Port = int (unat (be16 portBytes))\<rparr>))))))))"

subsection \<open>Replies and the accept loop\<close>

definition ReplyConnectSuccess :: "('c \<Rightarrow> bytes \<Rightarrow> (nat \<times> error option) \<times> 'c) \<Rightarrow> 'c \<Rightarrow> (error + unit) \<times> 'c" where
  "ReplyConnectSuccess wr = put_io wr [version5, 0x00, 0x00, atypIPv4, 0, 0, 0, 0, 0, 0]"

definition ReplyConnectFailed :: "('c \<Rightarrow> bytes \<Rightarrow> (nat \<times> error option) \<times> 'c) \<Rightarrow> 'c \<Rightarrow> (error + unit) \<times> 'c" where
  "ReplyConnectFailed wr = put_io wr [version5, 0x01, 0x00, atypIPv4, 0, 0, 0, 0, 0, 0]"

text \<open>The goroutine of one connection: whether it closes the connection, and the connection.\<close>

definition serve_conn :: "(nat \<Rightarrow> 'c \<Rightarrow> (error + bytes) \<times> 'c) \<Rightarrow>
    ('c \<Rightarrow> bytes \<Rightarrow> (nat \<times> error option) \<times> 'c) \<Rightarrow> ('c \<Rightarrow> Target \<Rightarrow> error option \<times> 'c) \<Rightarrow> 'c \<Rightarrow> bool \<times> 'c" where
  "serve_conn rd wr handle c =
     (case HandshakeServer rd wr c of
        (Inl e, c1) \<Rightarrow> (True, c1)
      | (Inr t, c1) \<Rightarrow>
          (case handle c1 t of
             (Some e, c2) \<Rightarrow> (True, snd (ReplyConnectFailed wr c2))
           | (None, c2) \<Rightarrow> (False, c2)))"

fun Temporary :: "error \<Rightarrow> bool" where
  "Temporary (NetErr t m) = t"
| "Temporary (OpError opn e) = Temporary e"
| "Temporary _ = False"

text \<open>The loop over \<^verbatim>\<open>Accept\<close>: the connections served, and the error it returns (\<open>None\<close>: it waits).\<close>

fun accept_loop :: "(error + 'c) list \<Rightarrow> 'c list \<times> error option" where
  "accept_loop [] = ([], None)"
| "accept_loop (Inl e # rs) = (if Temporary e then accept_loop rs else ([], Some e))"
| "accept_loop (Inr c # rs) = (case accept_loop rs of (cs, e) \<Rightarrow> (c # cs, e))"

definition ListenAndServe :: "error option \<Rightarrow> (error + 'c) list \<Rightarrow> 'c list \<times> error option" where
  "ListenAndServe listen accepts =
     (case listen of Some e \<Rightarrow> ([], Some e) | None \<Rightarrow> accept_loop accepts)"

subsection \<open>The request format\<close>

inductive socks_host :: "string \<Rightarrow> bytes \<Rightarrow> bool" where
  v4: "length ip = 4 \<Longrightarrow> socks_host (IP_String ip) (0x01 # ip)"
| name: "length n < 256 \<Longrightarrow> socks_host (go_string n) (0x03 # of_nat (length n) # n)"
| v6: "length ip = 16 \<Longrightarrow> socks_host (IP_String ip) (0x04 # ip)"

inductive_simps socks_host_simps: "socks_host h (b # bs)"

definition read_address :: "(nat \<Rightarrow> 'c \<Rightarrow> (error + bytes) \<times> 'c) \<Rightarrow> 'c \<Rightarrow> (error + string) \<times> 'c" where
  "read_address rd = bind_io (rd 1) (\<lambda>atyp. read_host rd (atyp ! 0))"

lemmas wire_simps = bind_io_Inr wire_read_Inr length_Suc_conv

lemma read_address_wire:
  "read_address wire_read w = (Inr h, w') \<longleftrightarrow>
     (\<exists>bs ys. socks_host h bs \<and> ahead w = bs @ ys \<and> w' = w\<lparr>ahead := ys\<rparr>)"
  (is "?l \<longleftrightarrow> ?r")
proof
  assume ?l
  then obtain atyp ys where a: "ahead w = atyp # ys"
    and h: "read_host wire_read atyp (w\<lparr>ahead := ys\<rparr>) = (Inr h, w')"
    by (auto simp: read_address_def wire_simps)
  consider "atyp = atypIPv4" | "atyp = atypDomain" | "atyp = atypIPv6"
    using h by (auto simp: read_host_def split: if_splits)
  then show ?r
  proof cases
    case 1
    then obtain ip zs where "length ip = 4" "ys = ip @ zs" "w' = w\<lparr>ahead := zs\<rparr>" "h = IP_String ip"
      using h by (auto simp: read_host_def wire_simps)
    then show ?thesis
      using a 1 socks_host.v4 [of ip] by - (rule exI [of _ "1 # ip"], rule exI [of _ zs], simp add: atypIPv4_def)
  next
    case 2
    then obtain n nm zs where "ys = n # nm @ zs" "length nm = unat n" "w' = w\<lparr>ahead := zs\<rparr>" "h = go_string nm"
      using h by (auto simp: read_host_def socks_consts wire_simps)
    moreover have "unat n < 256"
      using byte_le [of n] by linarith
    ultimately show ?thesis
      using a 2 socks_host.name [of nm] by - (rule exI [of _ "3 # n # nm"], rule exI [of _ zs], simp add: atypDomain_def)
  next
    case 3
    then obtain ip zs where "length ip = 16" "ys = ip @ zs" "w' = w\<lparr>ahead := zs\<rparr>" "h = IP_String ip"
      using h by (auto simp: read_host_def socks_consts wire_simps)
    then show ?thesis
      using a 3 socks_host.v6 [of ip] by - (rule exI [of _ "4 # ip"], rule exI [of _ zs], simp add: atypIPv6_def)
  qed
next
  assume ?r
  then obtain bs ys where bs: "socks_host h bs" "ahead w = bs @ ys" "w' = w\<lparr>ahead := ys\<rparr>"
    by blast
  from bs(1) show ?l
    using bs(2,3) by cases
      (simp_all add: read_address_def bind_io_def wire_read_def read_host_def socks_consts unat_of_nat)
qed

subsection \<open>The handshake on a wire\<close>

text \<open>The handshake in two halves.\<close>

definition greeting :: "(nat \<Rightarrow> 'c \<Rightarrow> (error + bytes) \<times> 'c) \<Rightarrow>
    ('c \<Rightarrow> bytes \<Rightarrow> (nat \<times> error option) \<times> 'c) \<Rightarrow> 'c \<Rightarrow> (error + unit) \<times> 'c" where
  "greeting rd wr =
     bind_io (rd 2) (\<lambda>hdr.
       if hdr ! 0 \<noteq> version5 then fail_io ErrUnsupportedVersion
       else bind_io (rd (unat (hdr ! 1))) (\<lambda>methods. put_io wr [version5, 0x00]))"

definition request :: "(nat \<Rightarrow> 'c \<Rightarrow> (error + bytes) \<times> 'c) \<Rightarrow> 'c \<Rightarrow> (error + Target) \<times> 'c" where
  "request rd =
     bind_io (rd 2) (\<lambda>hdr.
       if hdr ! 0 \<noteq> version5 then fail_io ErrUnsupportedVersion
       else if hdr ! 1 \<noteq> cmdConnect then fail_io ErrUnsupportedCommand
       else
         bind_io (rd 1) (\<lambda>rsv.
         bind_io (read_address rd) (\<lambda>host.
         bind_io (rd 2) (\<lambda>portBytes.
         ret_io \<lparr>tNetwork = ''tcp'', Host = host, Port = int (unat (be16 portBytes))\<rparr>))))"

lemma HandshakeServer_split: "HandshakeServer rd wr = bind_io (greeting rd wr) (\<lambda>_. request rd)"
  by (simp add: HandshakeServer_def greeting_def request_def read_address_def bind_io_assoc bind_io_if
      cong: if_cong)

lemma length_2: "length xs = 2 \<longleftrightarrow> (\<exists>a b. xs = [a, b])"
  by (auto simp: numeral_2_eq_2 length_Suc_conv)

lemma greeting_wire:
  "greeting wire_read wire_write w = (Inr (), w') \<longleftrightarrow>
     (\<exists>methods ys. length methods < 256 \<and> ahead w = 5 # of_nat (length methods) # methods @ ys \<and>
        w' = w\<lparr>ahead := ys, said := said w @ [5, 0]\<rparr>)"
  (is "?l \<longleftrightarrow> ?r")
proof
  assume ?l
  then obtain n ms ys where "ahead w = 5 # n # ms @ ys" "length ms = unat n"
    "w' = w\<lparr>ahead := ys, said := said w @ [5, 0]\<rparr>"
    by (auto simp: greeting_def bind_io_Inr wire_read_Inr length_2 version5_def split: if_splits)
  moreover have "unat n < 256"
    using byte_le [of n] by linarith
  ultimately show ?r
    by - (rule exI [of _ ms], rule exI [of _ ys], simp)
next
  assume ?r
  then show ?l
    by (auto simp: greeting_def bind_io_def wire_read_def version5_def unat_of_nat)
qed

lemma request_wire:
  "request wire_read w = (Inr t, w') \<longleftrightarrow>
     (\<exists>rsv hb ys. socks_host (Host t) hb \<and> tNetwork t = ''tcp'' \<and> 0 \<le> Port t \<and> Port t < 65536 \<and>
        ahead w = 5 # 1 # rsv # hb @ put_be16 (of_int (Port t)) @ ys \<and> w' = w\<lparr>ahead := ys\<rparr>)"
  (is "?l \<longleftrightarrow> ?r")
proof
  assume ?l
  then obtain rsv zs h w1 a b ys where r: "ahead w = 5 # 1 # rsv # zs"
    "read_address wire_read (w\<lparr>ahead := zs\<rparr>) = (Inr h, w1)" "ahead w1 = a # b # ys"
    "w' = w1\<lparr>ahead := ys\<rparr>" "t = \<lparr>tNetwork = ''tcp'', Host = h, Port = int (unat (be16 [a, b]))\<rparr>"
    by (auto simp: request_def wire_simps length_2 version5_def cmdConnect_def split: if_splits
        simp del: be16.simps)
  then obtain hb us where "socks_host h hb" "zs = hb @ us" "w1 = w\<lparr>ahead := us\<rparr>"
    by (auto simp: read_address_wire)
  moreover have "uint (be16 [a, b]) < 65536"
    using unsigned_less [of "be16 [a, b]", where 'a = int] by simp
  moreover have "put_be16 (be16 [a, b]) = [a, b]"
    by (simp add: be_simps del: be16.simps)
  ultimately show ?r
    using r by - (rule exI [of _ rsv], rule exI [of _ hb], rule exI [of _ ys], simp del: be16.simps)
next
  assume ?r
  then obtain rsv hb ys where r: "socks_host (Host t) hb" "tNetwork t = ''tcp''" "0 \<le> Port t" "Port t < 65536"
    "ahead w = 5 # 1 # rsv # hb @ put_be16 (of_int (Port t)) @ ys" "w' = w\<lparr>ahead := ys\<rparr>"
    by blast
  let ?p = "put_be16 (of_int (Port t))"
  have "read_address wire_read (w\<lparr>ahead := hb @ ?p @ ys\<rparr>) = (Inr (Host t), w\<lparr>ahead := ?p @ ys\<rparr>)"
    using r(1) by (auto simp: read_address_wire)
  moreover have "int (unat (of_int (Port t) :: u16)) = Port t"
    using r(3,4) by (simp add: uint_word_of_int flip: uint_nat)
  ultimately show ?l
    using r by (simp add: request_def bind_io_def wire_read_def version5_def cmdConnect_def be_simps)
qed

lemma HandshakeServer_wire:
  "HandshakeServer wire_read wire_write w = (Inr t, w') \<longleftrightarrow>
     (\<exists>methods rsv hb ys. length methods < 256 \<and> socks_host (Host t) hb \<and>
        tNetwork t = ''tcp'' \<and> 0 \<le> Port t \<and> Port t < 65536 \<and>
        ahead w = 5 # of_nat (length methods) # methods @ 5 # 1 # rsv # hb @ put_be16 (of_int (Port t)) @ ys \<and>
        w' = w\<lparr>ahead := ys, said := said w @ [5, 0]\<rparr>)"
  (is "?l \<longleftrightarrow> ?r")
proof
  assume ?l
  then obtain w1 where g: "greeting wire_read wire_write w = (Inr (), w1)" "request wire_read w1 = (Inr t, w')"
    by (auto simp: HandshakeServer_split bind_io_Inr)
  obtain ms ys where ms: "length ms < 256" "ahead w = 5 # of_nat (length ms) # ms @ ys"
    "w1 = w\<lparr>ahead := ys, said := said w @ [5, 0]\<rparr>"
    using g(1) unfolding greeting_wire by blast
  obtain rsv hb zs where "socks_host (Host t) hb" "tNetwork t = ''tcp''" "0 \<le> Port t" "Port t < 65536"
    "ahead w1 = 5 # 1 # rsv # hb @ put_be16 (of_int (Port t)) @ zs" "w' = w1\<lparr>ahead := zs\<rparr>"
    using g(2) unfolding request_wire by blast
  then show ?r
    using ms by - (rule exI [of _ ms], rule exI [of _ rsv], rule exI [of _ hb], rule exI [of _ zs], simp)
next
  assume ?r
  then obtain ms rsv hb ys where r: "length ms < 256" "socks_host (Host t) hb" "tNetwork t = ''tcp''" "0 \<le> Port t"
    "Port t < 65536"
    "ahead w = 5 # of_nat (length ms) # ms @ 5 # 1 # rsv # hb @ put_be16 (of_int (Port t)) @ ys"
    "w' = w\<lparr>ahead := ys, said := said w @ [5, 0]\<rparr>"
    by blast
  let ?w1 = "w\<lparr>ahead := 5 # 1 # rsv # hb @ put_be16 (of_int (Port t)) @ ys, said := said w @ [5, 0]\<rparr>"
  have "greeting wire_read wire_write w = (Inr (), ?w1)"
    unfolding greeting_wire using r(1,6) by blast
  moreover have "request wire_read ?w1 = (Inr t, w')"
    unfolding request_wire using r(2-5,7) by - (rule exI [of _ rsv], rule exI [of _ hb], rule exI [of _ ys], simp)
  ultimately show ?l
    by (simp add: HandshakeServer_split)
qed

subsection \<open>Properties\<close>

context duplex
begin

lemma follows_read_host: "follows (read_host rd a) (read_host wire_read a)"
  unfolding read_host_def by (intro follows_intros)

lemma follows_HandshakeServer: "follows (HandshakeServer rd wr) (HandshakeServer wire_read wire_write)"
  unfolding HandshakeServer_def by (intro follows_intros follows_read_host)

end

text \<open>
  C11: \<^verbatim>\<open>HandshakeServer\<close> returns a target exactly when the client sends a greeting with any methods
  followed by a version 5 CONNECT request for that host and port (an IPv4 or IPv6 address, printed
  as \<^verbatim>\<open>net.IP\<close> prints it, or a name of up to 255 bytes), however the bytes arrive; it then has read
  exactly the request, leaving what follows for the relay, and has answered \<open>05 00\<close>.
\<close>

theorem HandshakeServer_accepts_iff:
  assumes "talks c w"
  shows "(\<exists>c'. HandshakeServer recv send c = (Inr t, c') \<and> talks c' w') \<longleftrightarrow>
     (\<exists>methods rsv hb ys. length methods < 256 \<and> socks_host (Host t) hb \<and>
        tNetwork t = ''tcp'' \<and> 0 \<le> Port t \<and> Port t < 65536 \<and>
        ahead w = 5 # of_nat (length methods) # methods @ 5 # 1 # rsv # hb @ put_be16 (of_int (Port t)) @ ys \<and>
        w' = w\<lparr>ahead := ys, said := said w @ [5, 0]\<rparr>)"
  unfolding follows_iff [OF tcp.follows_HandshakeServer assms] by (rule HandshakeServer_wire)

theorem HandshakeServer_accepts_iff_witness:
  "\<exists>c'. HandshakeServer recv send
      \<lparr>cin = \<lparr>chunks = [[5], [1, 0, 5, 1], [0, 3, 2, 104, 105, 1, 187, 9]], fin = EOF\<rparr>,
       cout = \<lparr>sent = [], budget = None, werr = EOF\<rparr>\<rparr> = (Inr \<lparr>tNetwork = ''tcp'', Host = ''hi'', Port = 443\<rparr>, c') \<and>
    talks c' \<lparr>ahead = [9], final = EOF, said = [5, 0]\<rparr>"
proof -
  let ?c = "\<lparr>cin = \<lparr>chunks = [[5], [1, 0, 5, 1], [0, 3, 2, 104, 105, 1, 187, 9]], fin = EOF\<rparr>,
             cout = \<lparr>sent = [], budget = None, werr = EOF\<rparr>\<rparr>"
  let ?w = "\<lparr>ahead = [5, 1, 0, 5, 1, 0, 3, 2, 104, 105, 1, 187, 9], final = EOF, said = []\<rparr>"
  have c: "talks ?c ?w"
    by (simp add: talks_def reads_def productive_def stream_def unlimited_def)
  have "go_string [104, 105] = ''hi''"
    by code_simp
  moreover have "put_be16 443 = [1, 187]"
    by code_simp
  ultimately show ?thesis
    unfolding HandshakeServer_accepts_iff [OF c]
    using socks_host.name [of "[104, 105]"]
    by - (rule exI [of _ "[0]"], rule exI [of _ 0], rule exI [of _ "[3, 2, 104, 105]"], rule exI [of _ "[9]"], simp)
qed

text \<open>
  The accept loop serves every connection accepted before the first error that is not
  temporary, skips temporary errors, and stops with that error and only then.
\<close>

theorem accept_loop_serves:
  "ListenAndServe None rs =
     (let rs' = takeWhile (\<lambda>r. case r of Inl e \<Rightarrow> Temporary e | Inr c \<Rightarrow> True) rs
      in ([c. Inr c \<leftarrow> rs'],
          if length rs' < length rs then (case rs ! length rs' of Inl e \<Rightarrow> Some e | Inr c \<Rightarrow> None) else None))"
  unfolding ListenAndServe_def Let_def option.case
  by (induction rs rule: accept_loop.induct) (auto simp: case_prod_beta)

end
