(* ===== verification/Standalone_Stream.thy ===== *)
theory Standalone_Stream
  imports Socks5_Server
begin

text \<open>
  \<^verbatim>\<open>snowflake/common/standalone/stream.go\<close>: the header that opens every smux stream (the stream type
  and, unless it is a forward stream, the target), and the relay between two connections.
  \<open>WriteTarget\<close> parses the host to choose the address type and \<open>ReadTarget\<close> prints what it reads,
  so a host comes out as \<open>canonical_host\<close> of what went in.
\<close>

subsection \<open>The stream header\<close>

definition StreamClientDial :: byte where "StreamClientDial = 1"
definition StreamServerDial :: byte where "StreamServerDial = 2"
definition StreamForward :: byte where "StreamForward = 3"

definition host_address :: "string \<Rightarrow> byte \<times> bytes" where
  "host_address host =
     (case ParseIP host of
        None \<Rightarrow> (0x03, go_bytes host)
      | Some ip \<Rightarrow>
          (case To4 ip of
             Some a \<Rightarrow> (0x01, a)
           | None \<Rightarrow> (case To16 ip of Some a \<Rightarrow> (0x04, a) | None \<Rightarrow> (0x03, go_bytes host))))"

definition WriteTarget :: "('w \<Rightarrow> bytes \<Rightarrow> (nat \<times> error option) \<times> 'w) \<Rightarrow> byte \<Rightarrow> Target \<Rightarrow> 'w \<Rightarrow> (error + unit) \<times> 'w" where
  "WriteTarget wr streamType target =
     bind_io (put_io wr [streamType]) (\<lambda>_.
       if streamType = StreamForward then ret_io ()
       else
         (case host_address (Host target) of (atyp, addr) \<Rightarrow>
            bind_io (put_io wr [atyp]) (\<lambda>_.
            bind_io
              (if atyp = 0x01 \<or> atyp = 0x04 then put_io wr addr
               else if atyp = 0x03 then
                 (if 255 < length addr then fail_io (Errorf ''hostname too long'')
                  else bind_io (put_io wr [of_nat (length addr)]) (\<lambda>_. put_io wr addr))
               else ret_io ())
              (\<lambda>_. put_io wr (put_be16 (of_int (Port target)))))))"

definition no_target :: Target where
  "no_target = \<lparr>tNetwork = [], Host = [], Port = 0\<rparr>"

definition ReadTarget :: "(nat \<Rightarrow> 'c \<Rightarrow> (error + bytes) \<times> 'c) \<Rightarrow> 'c \<Rightarrow> (error + byte \<times> Target) \<times> 'c" where
  "ReadTarget rd =
     bind_io (rd 1) (\<lambda>streamType.
       if streamType ! 0 = StreamForward then ret_io (streamType ! 0, no_target)
       else
         bind_io (rd 1) (\<lambda>atyp.
         bind_io (read_host rd (atyp ! 0)) (\<lambda>host.
         bind_io (rd 2) (\<lambda>portBytes.
         ret_io (streamType ! 0, \<lparr>tNetwork = ''tcp'', Host = host, Port = int (unat (be16 portBytes))\<rparr>)))))"

subsection \<open>What is written\<close>

definition canonical_host :: "string \<Rightarrow> string" where
  "canonical_host h = (case ParseIP h of None \<Rightarrow> h | Some ip \<Rightarrow> IP_String ip)"

definition host_bytes :: "string \<Rightarrow> bytes" where
  "host_bytes h =
     (case host_address h of (atyp, addr) \<Rightarrow>
        if atyp = 0x03 then atyp # of_nat (length addr) # addr else atyp # addr)"

definition host_fits :: "string \<Rightarrow> bool" where
  "host_fits h \<longleftrightarrow> ParseIP h \<noteq> None \<or> length h \<le> 255"

lemma those_length: "those xs = Some ys \<Longrightarrow> length ys = length xs"
  by (induction xs arbitrary: ys) (auto split: option.splits)

lemma length_bytes_of_groups: "length (bytes_of_groups gs) = 2 * length gs"
  by (induction gs rule: bytes_of_groups.induct) auto

lemma length_parse_v6: "parse_v6 s = Some gs \<Longrightarrow> length gs = 8"
  by (auto simp: parse_v6_def split: option.splits if_splits)

lemma length_ParseIP: "ParseIP s = Some ip \<Longrightarrow> length ip = 16"
  by (auto simp: ParseIP_def parse_v4_def length_bytes_of_groups length_parse_v6 v4InV6Prefix_def
      split: option.splits if_splits)

lemma host_address_cases:
  obtains (v4) a where "ParseIP h \<noteq> None" "host_address h = (1, a)" "length a = 4" "canonical_host h = IP_String a"
  | (v6) a where "ParseIP h \<noteq> None" "host_address h = (4, a)" "length a = 16" "canonical_host h = IP_String a"
  | (name) "ParseIP h = None" "host_address h = (3, go_bytes h)" "canonical_host h = h"
proof (cases "ParseIP h")
  case None
  then show thesis
    using name by (simp add: host_address_def canonical_host_def)
next
  case (Some ip)
  then have l: "length ip = 16"
    by (rule length_ParseIP)
  show thesis
  proof (cases "To4 ip")
    case None
    then show thesis
      using v6 [of ip] Some l by (simp add: host_address_def canonical_host_def To16_def)
  next
    case (Some a)
    then have "length a = 4" "IP_String ip = IP_String a" "a \<noteq> []"
      using l by (auto simp: To4_def IP_String_def split: if_splits)
    then show thesis
      using v4 [of a] Some \<open>ParseIP h = Some ip\<close> by (simp add: host_address_def canonical_host_def)
  qed
qed

lemma host_bytes_ok: "host_fits h \<Longrightarrow> socks_host (canonical_host h) (host_bytes h)"
proof (cases h rule: host_address_cases)
  case name
  assume "host_fits h"
  with name have "length (go_bytes h) < 256"
    by (auto simp: host_fits_def)
  then show ?thesis
    using socks_host.name [of "go_bytes h"] name by (simp add: host_bytes_def)
qed (auto simp: host_bytes_def intro: socks_host.intros)

definition target_bytes :: "byte \<Rightarrow> Target \<Rightarrow> bytes" where
  "target_bytes st t =
     (if st = StreamForward then [st] else st # host_bytes (Host t) @ put_be16 (of_int (Port t)))"

context byte_sink
begin

lemma put_io_ok:
  assumes "healthy w"
  obtains w' where "put_io wr p w = (Inr (), w')" "healthy w'" "content w' = content w @ p"
  using wr_ok [OF assms, of p] by (auto simp: put_io_def)

definition puts :: "('w \<Rightarrow> (error + unit) \<times> 'w) \<Rightarrow> bytes \<Rightarrow> bool" where
  "puts m p \<longleftrightarrow> (\<forall>w. healthy w \<longrightarrow> (\<exists>w'. m w = (Inr (), w') \<and> healthy w' \<and> content w' = content w @ p))"

lemma puts_put: "puts (put_io wr p) p"
  unfolding puts_def using put_io_ok by metis

lemma puts_ret: "puts (ret_io ()) []"
  by (simp add: puts_def)

lemma puts_bind:
  assumes "puts m p" "puts n q"
  shows "puts (bind_io m (\<lambda>_. n)) (p @ q)"
  unfolding puts_def
proof (intro allI impI)
  fix w assume "healthy w"
  then obtain w1 where w1: "m w = (Inr (), w1)" "healthy w1" "content w1 = content w @ p"
    using assms(1) by (auto simp: puts_def)
  then obtain w2 where "n w1 = (Inr (), w2)" "healthy w2" "content w2 = content w1 @ q"
    using assms(2) by (auto simp: puts_def)
  then show "\<exists>w'. bind_io m (\<lambda>_. n) w = (Inr (), w') \<and> healthy w' \<and> content w' = content w @ p @ q"
    using w1 by simp
qed

lemma WriteTarget_puts:
  assumes "st = StreamForward \<or> host_fits (Host t)"
  shows "puts (WriteTarget wr st t) (target_bytes st t)"
proof (cases "st = StreamForward")
  case True
  then show ?thesis
    using puts_bind [OF puts_put [of "[st]"] puts_ret] by (simp add: WriteTarget_def target_bytes_def)
next
  case False
  let ?port = "put_be16 (of_int (Port t))"
  have *: "puts (bind_io (put_io wr [st]) (\<lambda>_. bind_io (put_io wr [a]) (\<lambda>_. bind_io m (\<lambda>_. put_io wr ?port))))
      ([st] @ [a] @ p @ ?port)" if "puts m p" for a m p
    by (intro puts_bind puts_put that)
  show ?thesis
  proof (cases "Host t" rule: host_address_cases)
    case (v4 a)
    then show ?thesis
      using False * [OF puts_put [of a], of 1]
      by (simp add: WriteTarget_def target_bytes_def host_bytes_def)
  next
    case (v6 a)
    then show ?thesis
      using False * [OF puts_put [of a], of 4]
      by (simp add: WriteTarget_def target_bytes_def host_bytes_def)
  next
    case name
    then show ?thesis
      using False assms * [OF puts_bind [OF puts_put [of "[of_nat (length (Host t))]"] puts_put [of "go_bytes (Host t)"]], of 3]
      by (simp add: WriteTarget_def target_bytes_def host_bytes_def host_fits_def)
  qed
qed

end

lemma WriteTarget_too_long:
  assumes "unlimited w" "st \<noteq> StreamForward" "\<not> host_fits (Host t)"
  shows "\<exists>w'. WriteTarget Write st t w = (Inl (Errorf ''hostname too long''), w') \<and> sent w' = sent w @ [st, 3]"
proof (cases "Host t" rule: host_address_cases)
  case name
  then show ?thesis
    using assms
    by (simp add: WriteTarget_def host_fits_def bind_io_def put_io_def Write_def unlimited_def)
qed (use assms in \<open>auto simp: host_fits_def\<close>)

subsection \<open>What is read\<close>

lemma ReadTarget_address:
  "ReadTarget rd =
     bind_io (rd 1) (\<lambda>streamType.
       if streamType ! 0 = StreamForward then ret_io (streamType ! 0, no_target)
       else
         bind_io (read_address rd) (\<lambda>host.
         bind_io (rd 2) (\<lambda>portBytes.
         ret_io (streamType ! 0, \<lparr>tNetwork = ''tcp'', Host = host, Port = int (unat (be16 portBytes))\<rparr>))))"
  unfolding ReadTarget_def read_address_def bind_io_assoc ..

lemma port_roundtrip: "0 \<le> p \<Longrightarrow> p < 65536 \<Longrightarrow> uint (of_int p :: u16) = p"
  by (simp add: uint_word_of_int)

lemma ReadTarget_wire:
  assumes "socks_host h hb" "0 \<le> p" "p < 65536" "st \<noteq> StreamForward"
  shows "ReadTarget wire_read (w\<lparr>ahead := st # hb @ put_be16 (of_int p) @ ys\<rparr>) =
         (Inr (st, \<lparr>tNetwork = ''tcp'', Host = h, Port = p\<rparr>), w\<lparr>ahead := ys\<rparr>)"
proof -
  let ?p = "put_be16 (of_int p)"
  have "read_address wire_read (w\<lparr>ahead := hb @ ?p @ ys\<rparr>) = (Inr h, w\<lparr>ahead := ?p @ ys\<rparr>)"
    using assms(1) by (auto simp: read_address_wire)
  then show ?thesis
    using assms(2-4) by (simp add: ReadTarget_address bind_io_def wire_read_def be_simps port_roundtrip)
qed

lemma ReadTarget_forward: "ReadTarget wire_read (w\<lparr>ahead := StreamForward # ys\<rparr>) = (Inr (StreamForward, no_target), w\<lparr>ahead := ys\<rparr>)"
  by (simp add: ReadTarget_def bind_io_def wire_read_def)

context duplex
begin

lemma follows_ReadTarget: "follows (ReadTarget rd) (ReadTarget wire_read)"
  unfolding ReadTarget_def by (intro follows_intros follows_read_host)

end

subsection \<open>Properties\<close>

text \<open>
  C14: A stream header survives the trip.  For a stream that carries a target whose host is an IP
  literal or a name of at most 255 bytes and whose port is a port, \<^verbatim>\<open>WriteTarget\<close> succeeds, and
  \<^verbatim>\<open>ReadTarget\<close> at the other end, however the bytes arrive, returns the stream type and the target,
  with the host in canonical form, and leaves everything after the header unread.
\<close>

theorem target_header_roundtrip:
  assumes "unlimited w" "host_fits (Host t)" "0 \<le> Port t" "Port t < 65536" "st \<noteq> StreamForward"
  shows "\<exists>w' bs. WriteTarget Write st t w = (Inr (), w') \<and> sent w' = sent w @ bs \<and>
           (\<forall>c rest e o'. talks c \<lparr>ahead = bs @ rest, final = e, said = o'\<rparr> \<longrightarrow>
              (\<exists>c'. ReadTarget recv c
                    = (Inr (st, \<lparr>tNetwork = ''tcp'', Host = canonical_host (Host t), Port = Port t\<rparr>), c') \<and>
                  talks c' \<lparr>ahead = rest, final = e, said = o'\<rparr>))"
proof -
  obtain w' where w': "WriteTarget Write st t w = (Inr (), w')" "sent w' = sent w @ target_bytes st t"
    using plain.WriteTarget_puts [of st t] assms(1,2) by (auto simp: plain.puts_def)
  have "\<exists>c'. ReadTarget recv c
        = (Inr (st, \<lparr>tNetwork = ''tcp'', Host = canonical_host (Host t), Port = Port t\<rparr>), c') \<and>
      talks c' \<lparr>ahead = rest, final = e, said = o'\<rparr>"
    if "talks c \<lparr>ahead = target_bytes st t @ rest, final = e, said = o'\<rparr>" for c rest e o'
    unfolding follows_iff [OF tcp.follows_ReadTarget that]
    using ReadTarget_wire [OF host_bytes_ok [OF assms(2)] assms(3-5), of rest "\<lparr>ahead = [], final = e, said = o'\<rparr>"]
      assms(5) by (simp add: target_bytes_def)
  with w' show ?thesis
    by blast
qed

theorem target_header_roundtrip_witness:
  "\<exists>w' bs. WriteTarget Write 1 \<lparr>tNetwork = ''tcp'', Host = ''10.0.0.1'', Port = 80\<rparr>
       \<lparr>sent = [], budget = None, werr = EOF\<rparr> = (Inr (), w') \<and> sent w' = [] @ bs \<and>
     (\<forall>c rest e o'. talks c \<lparr>ahead = bs @ rest, final = e, said = o'\<rparr> \<longrightarrow>
        (\<exists>c'. ReadTarget recv c
              = (Inr (1, \<lparr>tNetwork = ''tcp'', Host = canonical_host ''10.0.0.1'', Port = 80\<rparr>), c') \<and>
            talks c' \<lparr>ahead = rest, final = e, said = o'\<rparr>))"
  using target_header_roundtrip [of "\<lparr>sent = [], budget = None, werr = EOF\<rparr>"
      "\<lparr>tNetwork = ''tcp'', Host = ''10.0.0.1'', Port = 80\<rparr>" 1]
  by (simp add: unlimited_def host_fits_def StreamForward_def)

text \<open>
  A name of more than 255 bytes that is no IP literal is refused, but only after the stream
  type and the address type have been sent: the peer is left inside a header.
\<close>

theorem long_name_leaves_partial_header:
  assumes "unlimited w" "st \<noteq> StreamForward" "ParseIP (Host t) = None" "255 < length (Host t)"
  shows "\<exists>w'. WriteTarget Write st t w = (Inl (Errorf ''hostname too long''), w') \<and> sent w' = sent w @ [st, 3]"
  by (rule WriteTarget_too_long) (use assms in \<open>auto simp: host_fits_def\<close>)

theorem long_name_leaves_partial_header_witness:
  "\<exists>w'. WriteTarget Write 1 \<lparr>tNetwork = ''tcp'', Host = replicate 256 CHR ''a'', Port = 80\<rparr>
      \<lparr>sent = [], budget = None, werr = EOF\<rparr> = (Inl (Errorf ''hostname too long''), w') \<and> sent w' = [] @ [1, 3]"
proof -
  have "find ip_mark (replicate 256 CHR ''a'') = None"
    by (simp add: find_None_iff ip_mark_def)
  then have "ParseIP (replicate 256 CHR ''a'') = None"
    by (simp add: ParseIP_def)
  then show ?thesis
    using long_name_leaves_partial_header [of "\<lparr>sent = [], budget = None, werr = EOF\<rparr>" 1
        "\<lparr>tNetwork = ''tcp'', Host = replicate 256 CHR ''a'', Port = 80\<rparr>"]
    by (simp add: unlimited_def StreamForward_def)
qed

end
