(* ===== verification/Snowflake_Session.thy ===== *)
theory Snowflake_Session
  imports Standalone_Stream
begin

text \<open>
  \<^verbatim>\<open>snowflake/common/standalone/session.go\<close>, \<^verbatim>\<open>client.go\<close>, the session table of \<^verbatim>\<open>handler.go\<close> and the
  exit loop of \<^verbatim>\<open>main/snowflake.go\<close>: what runs inside a multiplexed session.  Opening a stream, dialling
  and listening are outcomes given as arguments; what the code writes to, reads from and closes is
  the result.
\<close>

subsection \<open>Sessions and streams\<close>

text \<open>\<^verbatim>\<open>sessionCloser.Close\<close>: every closer is closed; the first error is returned.\<close>

primrec sessionCloser_Close :: "error option list \<Rightarrow> error option" where
  "sessionCloser_Close [] = None"
| "sessionCloser_Close (e # es) = (case e of Some x \<Rightarrow> Some x | None \<Rightarrow> sessionCloser_Close es)"

datatype closer = KcpConn | PacketConn

text \<open>\<^verbatim>\<open>NewClientSession\<close>: the error or the closers of the session, and what it has closed itself.\<close>

definition NewClientSession :: "error option \<Rightarrow> error option \<Rightarrow> (error + closer list) \<times> closer list" where
  "NewClientSession kcp smux =
     (case kcp of
        Some e \<Rightarrow> (Inl e, [PacketConn])
      | None \<Rightarrow>
          (case smux of
             Some e \<Rightarrow> (Inl e, [KcpConn, PacketConn])
           | None \<Rightarrow> (Inr [KcpConn, PacketConn], [])))"

definition OpenClientDial ::
  "('w \<Rightarrow> bytes \<Rightarrow> (nat \<times> error option) \<times> 'w) \<Rightarrow> error + 'w \<Rightarrow> Target \<Rightarrow> 'w opened" where
  "OpenClientDial wr strm target =
     (case strm of
        Inl e \<Rightarrow> NotOpened e
      | Inr w \<Rightarrow>
          (case WriteTarget wr StreamClientDial target w of
             (Inl e, w') \<Rightarrow> Abandoned e w'
           | (Inr _, w') \<Rightarrow> Opened w'))"

definition OpenForward :: "('w \<Rightarrow> bytes \<Rightarrow> (nat \<times> error option) \<times> 'w) \<Rightarrow> error + 'w \<Rightarrow> 'w opened" where
  "OpenForward wr strm =
     (case strm of
        Inl e \<Rightarrow> NotOpened e
      | Inr w \<Rightarrow>
          (case WriteTarget wr StreamForward no_target w of
             (Inl e, w') \<Rightarrow> Abandoned e w'
           | (Inr _, w') \<Rightarrow> Opened w'))"

text \<open>
  What becomes of a stream the peer opens; only in \<open>Relayed\<close> does data flow, to the network and
  address named.  \<open>dial\<close> is the outcome of \<^verbatim>\<open>net.Dial\<close>.
\<close>

datatype inbound =
    NoTarget error
  | DialFailed string string error
  | Unexpected
  | NoForward
  | UnknownType byte
  | Relayed string string

definition dial_and_relay :: "(string \<Rightarrow> string \<Rightarrow> error option) \<Rightarrow> string \<Rightarrow> string \<Rightarrow> inbound" where
  "dial_and_relay dial net addr = (case dial net addr of Some e \<Rightarrow> DialFailed net addr e | None \<Rightarrow> Relayed net addr)"

definition handleInboundStream ::
  "(nat \<Rightarrow> 'c \<Rightarrow> (error + bytes) \<times> 'c) \<Rightarrow> (string \<Rightarrow> string \<Rightarrow> error option) \<Rightarrow> string \<Rightarrow> 'c \<Rightarrow> inbound \<times> 'c" where
  "handleInboundStream rd dial forwardSocks strm =
     (case ReadTarget rd strm of
        (Inl e, s) \<Rightarrow> (NoTarget e, s)
      | (Inr (streamType, target), s) \<Rightarrow>
          if streamType = StreamClientDial then (dial_and_relay dial (tNetwork target) (Target_Addr target), s)
          else if streamType = StreamServerDial then (Unexpected, s)
          else if streamType = StreamForward then
            (if forwardSocks = [] then (NoForward, s) else (dial_and_relay dial ''tcp'' forwardSocks, s))
          else (UnknownType streamType, s))"

text \<open>
  \<^verbatim>\<open>RunStreamAcceptor\<close>, \<^verbatim>\<open>acceptKCP\<close> and the loops of \<^verbatim>\<open>ServeLocalSOCKS\<close> and \<^verbatim>\<open>ServeTunnelForward\<close> are
  the accept loop of the SOCKS server.
\<close>

definition RunStreamAcceptor :: "(error + 'c) list \<Rightarrow> 'c list \<times> error option" where
  "RunStreamAcceptor accepts = accept_loop accepts"

definition acceptKCP :: "(error + 'c) list \<Rightarrow> 'c list \<times> error option" where
  "acceptKCP accepts = accept_loop accepts"

definition ServeLocalSOCKS :: "error + string \<Rightarrow> (error + 'c) list \<Rightarrow> (error + string) \<times> 'c list" where
  "ServeLocalSOCKS listen accepts =
     (case listen of Inl e \<Rightarrow> (Inl e, []) | Inr a \<Rightarrow> (Inr a, fst (accept_loop accepts)))"

definition ServeTunnelForward :: "error + string \<Rightarrow> (error + 'c) list \<Rightarrow> (error + string) \<times> 'c list" where
  "ServeTunnelForward listen accepts =
     (case listen of Inl e \<Rightarrow> (Inl e, []) | Inr a \<Rightarrow> (Inr a, fst (accept_loop accepts)))"

subsection \<open>Local connections\<close>

text \<open>
  The end of a local SOCKS connection: closed after a failed handshake, closed after a failure
  reply, both ends closed because the success reply was lost, or bridged to the stream.
\<close>

datatype 'w local_end = HandshakeFailed | Refused | ReplyLost 'w | Bridged 'w

definition handleLocalSocks ::
  "(nat \<Rightarrow> 'c \<Rightarrow> (error + bytes) \<times> 'c) \<Rightarrow> ('c \<Rightarrow> bytes \<Rightarrow> (nat \<times> error option) \<times> 'c) \<Rightarrow>
   ('w \<Rightarrow> bytes \<Rightarrow> (nat \<times> error option) \<times> 'w) \<Rightarrow> error + 'w \<Rightarrow> 'c \<Rightarrow> 'w local_end \<times> 'c" where
  "handleLocalSocks rd wr wrs strm c =
     (case HandshakeServer rd wr c of
        (Inl e, c1) \<Rightarrow> (HandshakeFailed, c1)
      | (Inr target, c1) \<Rightarrow>
          (case OpenClientDial wrs strm target of
             Opened w \<Rightarrow>
               (case ReplyConnectSuccess wr c1 of
                  (Inl e, c2) \<Rightarrow> (ReplyLost w, c2)
                | (Inr _, c2) \<Rightarrow> (Bridged w, c2))
           | _ \<Rightarrow> (Refused, snd (ReplyConnectFailed wr c1))))"

definition handleForward :: "('w \<Rightarrow> bytes \<Rightarrow> (nat \<times> error option) \<times> 'w) \<Rightarrow> error + 'w \<Rightarrow> 'w option" where
  "handleForward wrs strm = (case OpenForward wrs strm of Opened w \<Rightarrow> Some w | _ \<Rightarrow> None)"

definition PickListenAddr :: "string \<Rightarrow> string" where
  "PickListenAddr host = (if host = [] then ''127.0.0.1'' else host) @ '':0''"

definition ManagedByTor :: "(string \<Rightarrow> string) \<Rightarrow> bool" where
  "ManagedByTor Getenv = (Getenv ''TOR_PT_MANAGED_TRANSPORT_VER'' \<noteq> [])"

text \<open>One connection of the server's SOCKS exit; the stream is the dialled address.\<close>

definition serveSnowflakeSOCKS ::
  "(nat \<Rightarrow> 'c \<Rightarrow> (error + bytes) \<times> 'c) \<Rightarrow> ('c \<Rightarrow> bytes \<Rightarrow> (nat \<times> error option) \<times> 'c) \<Rightarrow>
   (string \<Rightarrow> string \<Rightarrow> error option) \<Rightarrow> 'c \<Rightarrow> (string \<times> string) local_end \<times> 'c" where
  "serveSnowflakeSOCKS rd wr dial c =
     (case HandshakeServer rd wr c of
        (Inl e, c1) \<Rightarrow> (HandshakeFailed, c1)
      | (Inr target, c1) \<Rightarrow>
          (case dial (tNetwork target) (Target_Addr target) of
             Some e \<Rightarrow> (Refused, snd (ReplyConnectFailed wr c1))
           | None \<Rightarrow>
               (case ReplyConnectSuccess wr c1 of
                  (Inl e, c2) \<Rightarrow> (ReplyLost (tNetwork target, Target_Addr target), c2)
                | (Inr _, c2) \<Rightarrow> (Bridged (tNetwork target, Target_Addr target), c2))))"

subsection \<open>The session table\<close>

text \<open>
  One entry of \<open>smux_store\<close> per session ever served: the client it belongs to (\<open>None\<close>: the packet
  connection gave no client id), whether it is open and whether its \<^verbatim>\<open>acceptSmux\<close> still runs.
\<close>

record smux_session =
  sess_client :: "bytes option"
  sess_open :: bool
  sess_serving :: bool

record smux_server =
  smuxSessions :: "bytes \<rightharpoonup> nat"
  smux_store :: "smux_session list"

definition new_smux_server :: smux_server where
  "new_smux_server = \<lparr>smuxSessions = Map.empty, smux_store = []\<rparr>"

definition close_session :: "nat \<Rightarrow> smux_session list \<Rightarrow> smux_session list" where
  "close_session i ss = ss[i := (ss ! i)\<lparr>sess_open := False\<rparr>]"

text \<open>The start of \<^verbatim>\<open>acceptSmux\<close>, up to the accept loop.\<close>

definition acceptSmux :: "bytes option \<Rightarrow> smux_server \<Rightarrow> smux_server" where
  "acceptSmux client s =
     (let i = length (smux_store s);
          fresh = \<lparr>sess_client = client, sess_open = True, sess_serving = True\<rparr>
      in case client of
           None \<Rightarrow> s\<lparr>smux_store := smux_store s @ [fresh]\<rparr>
         | Some cid \<Rightarrow>
             (let ss = (case smuxSessions s cid of None \<Rightarrow> smux_store s | Some old \<Rightarrow> close_session old (smux_store s))
              in \<lparr>smuxSessions = (smuxSessions s)(cid \<mapsto> i), smux_store = ss @ [fresh]\<rparr>))"

text \<open>Its deferred functions, when the accept loop of session \<open>i\<close>, which is no longer open, has returned.\<close>

definition acceptSmux_returns :: "nat \<Rightarrow> smux_server \<Rightarrow> smux_server" where
  "acceptSmux_returns i s =
     (let ss = (smux_store s)[i := (smux_store s ! i)\<lparr>sess_serving := False, sess_open := False\<rparr>]
      in case sess_client (smux_store s ! i) of
           None \<Rightarrow> s\<lparr>smux_store := ss\<rparr>
         | Some cid \<Rightarrow> \<lparr>smuxSessions = (smuxSessions s)(cid := None), smux_store = ss\<rparr>)"

inductive smux_step :: "smux_server \<Rightarrow> smux_server \<Rightarrow> bool" where
  accept: "smux_step s (acceptSmux client s)"
| dies: "i < length (smux_store s) \<Longrightarrow> smux_step s (s\<lparr>smux_store := close_session i (smux_store s)\<rparr>)"
| returns: "i < length (smux_store s) \<Longrightarrow> sess_serving (smux_store s ! i) \<Longrightarrow> \<not> sess_open (smux_store s ! i) \<Longrightarrow>
    smux_step s (acceptSmux_returns i s)"

inductive smux_reachable :: "smux_server \<Rightarrow> bool" where
  start: "smux_reachable new_smux_server"
| step: "smux_reachable s \<Longrightarrow> smux_step s s' \<Longrightarrow> smux_reachable s'"

text \<open>
  What the table guarantees: an entry is a session of its client that is still served, every open
  session is served, and no session is registered twice.
\<close>

definition smux_ok :: "smux_server \<Rightarrow> bool" where
  "smux_ok s \<longleftrightarrow>
     (\<forall>cid i. smuxSessions s cid = Some i \<longrightarrow>
        i < length (smux_store s) \<and> sess_client (smux_store s ! i) = Some cid \<and> sess_serving (smux_store s ! i)) \<and>
     (\<forall>x\<in>set (smux_store s). sess_open x \<longrightarrow> sess_serving x)"

lemma close_session_simps [simp]:
  "length (close_session i ss) = length ss"
  "j < length ss \<Longrightarrow> sess_client (close_session i ss ! j) = sess_client (ss ! j)"
  "j < length ss \<Longrightarrow> sess_serving (close_session i ss ! j) = sess_serving (ss ! j)"
  "j < length ss \<Longrightarrow> sess_open (close_session i ss ! j) \<longleftrightarrow> sess_open (ss ! j) \<and> j \<noteq> i"
  by (cases "i < length ss"; auto simp: close_session_def nth_list_update)+

lemma smux_ok_nth:
  "smux_ok s \<longleftrightarrow>
     (\<forall>cid i. smuxSessions s cid = Some i \<longrightarrow>
        i < length (smux_store s) \<and> sess_client (smux_store s ! i) = Some cid \<and> sess_serving (smux_store s ! i)) \<and>
     (\<forall>j < length (smux_store s). sess_open (smux_store s ! j) \<longrightarrow> sess_serving (smux_store s ! j))"
  by (auto simp: smux_ok_def all_set_conv_all_nth)

lemma smux_ok_step: "smux_step s s' \<Longrightarrow> smux_ok s \<Longrightarrow> smux_ok s'"
proof (induction rule: smux_step.induct)
  case (accept s client)
  then show ?case
    by (cases client; cases "smuxSessions s (the client)")
      (force simp: smux_ok_nth acceptSmux_def Let_def nth_append)+
next
  case (dies i s)
  then show ?case
    by (auto simp: smux_ok_nth)
next
  case (returns i s)
  then show ?case
    by (cases "sess_client (smux_store s ! i)")
      (auto simp: smux_ok_nth acceptSmux_returns_def Let_def nth_list_update split: if_splits)
qed

lemma smux_reachable_ok: "smux_reachable s \<Longrightarrow> smux_ok s"
proof (induction rule: smux_reachable.induct)
  case start
  show ?case
    by (simp add: smux_ok_def new_smux_server_def)
qed (rule smux_ok_step)

subsection \<open>A SOCKS request through a session\<close>

lemma socks_host_fits: "socks_host h hb \<Longrightarrow> host_fits h"
proof (induction rule: socks_host.induct)
  case (v4 ip)
  then show ?case
    by (simp add: host_fits_def ParseIP_String To16_def)
next
  case (name n)
  then show ?case
    by (simp add: host_fits_def)
next
  case (v6 ip)
  then show ?case
    by (simp add: host_fits_def ParseIP_String To16_def)
qed

lemma OpenClientDial_ok:
  assumes "unlimited w" "host_fits (Host t)"
  shows "\<exists>w'. OpenClientDial Write (Inr w) t = Opened w' \<and> sent w' = sent w @ target_bytes StreamClientDial t"
  using plain.WriteTarget_puts [of StreamClientDial t] assms by (auto simp: plain.puts_def OpenClientDial_def)

text \<open>The bytes of a SOCKS5 CONNECT conversation of the client.\<close>

definition connect_bytes :: "bytes \<Rightarrow> byte \<Rightarrow> bytes \<Rightarrow> int \<Rightarrow> bytes" where
  "connect_bytes methods rsv hb port =
     5 # of_nat (length methods) # methods @ 5 # 1 # rsv # hb @ put_be16 (of_int port)"

lemma HandshakeServer_connect:
  assumes "talks c \<lparr>ahead = connect_bytes methods rsv hb p @ ys, final = e, said = o'\<rparr>"
    "length methods < 256" "socks_host h hb" "0 \<le> p" "p < 65536"
  shows "\<exists>c'. HandshakeServer recv send c = (Inr \<lparr>tNetwork = ''tcp'', Host = h, Port = p\<rparr>, c') \<and>
    talks c' \<lparr>ahead = ys, final = e, said = o' @ [5, 0]\<rparr>"
  unfolding follows_iff [OF tcp.follows_HandshakeServer assms(1)] HandshakeServer_wire
  using assms(2-5)
  by - (rule exI [of _ methods], rule exI [of _ rsv], rule exI [of _ hb], rule exI [of _ ys], simp add: connect_bytes_def)

lemma put_tcp: "talks c w \<Longrightarrow> \<exists>c'. put_io send p c = (Inr (), c') \<and> talks c' (w\<lparr>said := said w @ p\<rparr>)"
  unfolding follows_iff [OF tcp.follows_put] by simp

lemma handleLocalSocks_ok:
  assumes "talks c \<lparr>ahead = connect_bytes methods rsv hb p @ ys, final = e, said = o'\<rparr>"
    "length methods < 256" "socks_host h hb" "0 \<le> p" "p < 65536" "unlimited w"
  shows "\<exists>c' w'. handleLocalSocks recv send Write (Inr w) c = (Bridged w', c') \<and>
    talks c' \<lparr>ahead = ys, final = e, said = o' @ [5, 0] @ [5, 0, 0, 1, 0, 0, 0, 0, 0, 0]\<rparr> \<and>
    sent w' = sent w @ target_bytes StreamClientDial \<lparr>tNetwork = ''tcp'', Host = h, Port = p\<rparr>"
proof -
  obtain c1 where c1: "HandshakeServer recv send c = (Inr \<lparr>tNetwork = ''tcp'', Host = h, Port = p\<rparr>, c1)"
    "talks c1 \<lparr>ahead = ys, final = e, said = o' @ [5, 0]\<rparr>"
    using HandshakeServer_connect [OF assms(1-5)] by blast
  obtain w' where w': "OpenClientDial Write (Inr w) \<lparr>tNetwork = ''tcp'', Host = h, Port = p\<rparr> = Opened w'"
    "sent w' = sent w @ target_bytes StreamClientDial \<lparr>tNetwork = ''tcp'', Host = h, Port = p\<rparr>"
    using OpenClientDial_ok [OF assms(6), of "\<lparr>tNetwork = ''tcp'', Host = h, Port = p\<rparr>"] socks_host_fits [OF assms(3)]
    by auto
  obtain c2 where "ReplyConnectSuccess send c1 = (Inr (), c2)"
    "talks c2 \<lparr>ahead = ys, final = e, said = o' @ [5, 0] @ [5, 0, 0, 1, 0, 0, 0, 0, 0, 0]\<rparr>"
    using put_tcp [OF c1(2), of "[5, 0, 0, 1, 0, 0, 0, 0, 0, 0]"] by (auto simp: ReplyConnectSuccess_def socks_consts)
  then show ?thesis
    using c1 w' by (simp add: handleLocalSocks_def)
qed

lemma handleInboundStream_dial:
  assumes "talks s \<lparr>ahead = target_bytes StreamClientDial t @ rest, final = e, said = o'\<rparr>" "host_fits (Host t)"
    "0 \<le> Port t" "Port t < 65536"
  shows "\<exists>s'. handleInboundStream recv dial fwd s =
      (dial_and_relay dial ''tcp'' (Target_Addr \<lparr>tNetwork = ''tcp'', Host = canonical_host (Host t), Port = Port t\<rparr>), s') \<and>
    talks s' \<lparr>ahead = rest, final = e, said = o'\<rparr>"
proof -
  have st: "StreamClientDial \<noteq> StreamForward"
    by (simp add: StreamClientDial_def StreamForward_def)
  have "\<exists>s'. ReadTarget recv s
        = (Inr (StreamClientDial, \<lparr>tNetwork = ''tcp'', Host = canonical_host (Host t), Port = Port t\<rparr>), s') \<and>
      talks s' \<lparr>ahead = rest, final = e, said = o'\<rparr>"
    unfolding follows_iff [OF tcp.follows_ReadTarget assms(1)]
    using ReadTarget_wire [OF host_bytes_ok [OF assms(2)] assms(3,4) st, of rest "\<lparr>ahead = [], final = e, said = o'\<rparr>"] st
    by (simp add: target_bytes_def)
  then show ?thesis
    by (auto simp: handleInboundStream_def)
qed

subsection \<open>Properties\<close>

text \<open>
  C16: A SOCKS request reaches its target through the tunnel.  A local client's CONNECT, however its
  bytes arrive, is answered with success, everything after the request is left for the relay, and
  on a fresh stream the header it causes makes the server dial exactly that host (in canonical
  form) and port and relay when the dial succeeds, leaving what follows the header unread.
\<close>

theorem socks_request_reaches_target:
  assumes "talks c \<lparr>ahead = connect_bytes methods rsv hb p @ ys, final = e, said = o'\<rparr>"
    "length methods < 256" "socks_host h hb" "0 \<le> p" "p < 65536" "unlimited w" "sent w = []"
  shows "\<exists>c' w'. handleLocalSocks recv send Write (Inr w) c = (Bridged w', c') \<and>
    talks c' \<lparr>ahead = ys, final = e, said = o' @ [5, 0] @ [5, 0, 0, 1, 0, 0, 0, 0, 0, 0]\<rparr> \<and>
    (\<forall>s rest e' o'' dial fwd. talks s \<lparr>ahead = sent w' @ rest, final = e', said = o''\<rparr> \<longrightarrow>
      (\<exists>s'. handleInboundStream recv dial fwd s =
          (dial_and_relay dial ''tcp'' (Target_Addr \<lparr>tNetwork = ''tcp'', Host = canonical_host h, Port = p\<rparr>), s') \<and>
        talks s' \<lparr>ahead = rest, final = e', said = o''\<rparr>))"
proof -
  obtain c' w' where cw: "handleLocalSocks recv send Write (Inr w) c = (Bridged w', c')"
    "talks c' \<lparr>ahead = ys, final = e, said = o' @ [5, 0] @ [5, 0, 0, 1, 0, 0, 0, 0, 0, 0]\<rparr>"
    "sent w' = target_bytes StreamClientDial \<lparr>tNetwork = ''tcp'', Host = h, Port = p\<rparr>"
    using handleLocalSocks_ok [OF assms(1-6)] assms(7) by auto
  have "\<exists>s'. handleInboundStream recv dial fwd s =
        (dial_and_relay dial ''tcp'' (Target_Addr \<lparr>tNetwork = ''tcp'', Host = canonical_host h, Port = p\<rparr>), s') \<and>
      talks s' \<lparr>ahead = rest, final = e', said = o''\<rparr>"
    if "talks s \<lparr>ahead = sent w' @ rest, final = e', said = o''\<rparr>" for s rest e' o'' dial fwd
    using handleInboundStream_dial [of s "\<lparr>tNetwork = ''tcp'', Host = h, Port = p\<rparr>" rest e' o'' dial fwd] that cw(3)
      socks_host_fits [OF assms(3)] assms(4,5) by simp
  then show ?thesis
    using cw(1,2) by blast
qed

theorem socks_request_reaches_target_witness:
  "\<exists>c' w'. handleLocalSocks recv send Write (Inr \<lparr>sent = [], budget = None, werr = EOF\<rparr>)
      \<lparr>cin = \<lparr>chunks = [[5], [1, 0, 5, 1], [0, 3, 2, 104, 105, 1, 187, 9]], fin = EOF\<rparr>,
       cout = \<lparr>sent = [], budget = None, werr = EOF\<rparr>\<rparr> = (Bridged w', c') \<and>
    talks c' \<lparr>ahead = [9], final = EOF, said = [] @ [5, 0] @ [5, 0, 0, 1, 0, 0, 0, 0, 0, 0]\<rparr>"
proof -
  have "put_be16 443 = [1, 187]"
    by code_simp
  then have "connect_bytes [0] 0 [3, 2, 104, 105] 443 @ [9] = [5, 1, 0, 5, 1, 0, 3, 2, 104, 105, 1, 187, 9]"
    by (simp add: connect_bytes_def)
  then have "talks \<lparr>cin = \<lparr>chunks = [[5], [1, 0, 5, 1], [0, 3, 2, 104, 105, 1, 187, 9]], fin = EOF\<rparr>,
      cout = \<lparr>sent = [], budget = None, werr = EOF\<rparr>\<rparr>
      \<lparr>ahead = connect_bytes [0] 0 [3, 2, 104, 105] 443 @ [9], final = EOF, said = []\<rparr>"
    by (simp add: talks_def reads_def productive_def stream_def unlimited_def)
  from socks_request_reaches_target [OF this, of "go_string [104, 105]" "\<lparr>sent = [], budget = None, werr = EOF\<rparr>"] show ?thesis
    using socks_host.name [of "[104, 105]"] by (simp add: unlimited_def) blast
qed

text \<open>
  The session table.  In every reachable state an entry is a session of its client that is
  still served and every open session is served; accepting a session for a client closes the one
  registered for it and registers the new one.
\<close>

theorem session_table_invariant:
  assumes "smux_reachable s"
  shows "smux_ok s \<and>
    (let s' = acceptSmux (Some cid) s; i = length (smux_store s)
     in smux_ok s' \<and> smuxSessions s' cid = Some i \<and> sess_open (smux_store s' ! i) \<and>
        (\<forall>old. smuxSessions s cid = Some old \<longrightarrow> \<not> sess_open (smux_store s' ! old)))"
proof -
  have ok: "smux_ok s" "smux_ok (acceptSmux (Some cid) s)"
    using smux_reachable_ok [OF assms] smux_ok_step [OF smux_step.accept] by blast+
  moreover have "smuxSessions (acceptSmux (Some cid) s) cid = Some (length (smux_store s))"
    "sess_open (smux_store (acceptSmux (Some cid) s) ! length (smux_store s))"
    by (auto simp: acceptSmux_def Let_def nth_append split: option.split)
  moreover have "\<not> sess_open (smux_store (acceptSmux (Some cid) s) ! old)" if "smuxSessions s cid = Some old" for old
    using ok(1) that by (auto simp: acceptSmux_def Let_def nth_append smux_ok_def)
  ultimately show ?thesis
    by (simp add: Let_def)
qed

theorem session_table_invariant_witness:
  "smux_reachable (acceptSmux (Some [1]) new_smux_server) \<and>
   \<not> sess_open (smux_store (acceptSmux (Some [1]) (acceptSmux (Some [1]) new_smux_server)) ! 0)"
proof -
  have r: "smux_reachable (acceptSmux (Some [1]) new_smux_server)"
    by (rule smux_reachable.step [OF smux_reachable.start smux_step.accept])
  moreover have "smuxSessions (acceptSmux (Some [1]) new_smux_server) [1] = Some 0"
    by (simp add: acceptSmux_def new_smux_server_def)
  ultimately show ?thesis
    using session_table_invariant [OF r, of "[1]"] by (simp add: Let_def)
qed

text \<open>
  A replaced session unregisters its successor.  When the old session's \<^verbatim>\<open>acceptSmux\<close> returns
  after a reconnect, its deferred delete removes the new session's entry, so the next reconnect
  closes nothing and the client has two open sessions.
\<close>

theorem replaced_session_unregisters_successor:
  "\<exists>s. smux_reachable s \<and> smuxSessions s cid = None \<and> sess_open (smux_store s ! 1) \<and>
    (let s' = acceptSmux (Some cid) s
     in smux_reachable s' \<and> sess_open (smux_store s' ! 1) \<and> sess_open (smux_store s' ! 2) \<and>
        sess_client (smux_store s' ! 1) = Some cid \<and> sess_client (smux_store s' ! 2) = Some cid)"
proof -
  let ?s2 = "acceptSmux (Some cid) (acceptSmux (Some cid) new_smux_server)"
  let ?s3 = "acceptSmux_returns 0 ?s2"
  have r2: "smux_reachable ?s2"
    by (intro smux_reachable.intros(2) [OF _ smux_step.accept] smux_reachable.start)
  have s2: "smux_store ?s2 = [\<lparr>sess_client = Some cid, sess_open = False, sess_serving = True\<rparr>,
      \<lparr>sess_client = Some cid, sess_open = True, sess_serving = True\<rparr>]"
    by (simp add: acceptSmux_def new_smux_server_def close_session_def)
  then have r3: "smux_reachable ?s3"
    by (intro smux_reachable.step [OF r2 smux_step.returns]) simp_all
  have s3: "smuxSessions ?s3 cid = None" "smux_store ?s3 = [\<lparr>sess_client = Some cid, sess_open = False, sess_serving = False\<rparr>,
      \<lparr>sess_client = Some cid, sess_open = True, sess_serving = True\<rparr>]"
    by (simp_all add: acceptSmux_returns_def s2)
  have "smux_store (acceptSmux (Some cid) ?s3) = smux_store ?s3 @ [\<lparr>sess_client = Some cid, sess_open = True, sess_serving = True\<rparr>]"
    by (simp add: acceptSmux_def [of "Some cid" ?s3] s3)
  then show ?thesis
    using r3 s3 smux_reachable.step [OF r3 smux_step.accept, of "Some cid"]
    by (intro exI [of _ ?s3]) (simp add: Let_def)
qed

end
