(* ===== verification/Snowflake_Server.thy ===== *)
theory Snowflake_Server
  imports Snowflake_Carrier Snowflake_Session
begin

text \<open>
  The Snowflake server put together (\<^verbatim>\<open>snowflake/common/standalone/handler.go\<close>): the WebSocket handlers,
  the packet connection they share, the KCP listener that reads it, and the session table.  The
  parts are those of \<open>Queue_Packet_Conn\<close>, \<open>Snowflake_Carrier\<close> and \<open>Snowflake_Session\<close>; here they run
  interleaved.  Of KCP the steps use what its listener documents: it accepts sessions only from
  addresses it has read packets from.
\<close>

definition clientMapTimeout :: int where "clientMapTimeout = 60 * 10 ^ 9"

text \<open>The settings \<^verbatim>\<open>configureKCP\<close> makes on a KCP session.\<close>

record kcp_settings =
  StreamMode :: bool
  SendWindow :: nat
  RecvWindow :: nat
  NoDelay :: "nat \<times> nat \<times> nat \<times> nat"

definition configureKCP :: "kcp_settings \<Rightarrow> kcp_settings" where
  "configureKCP conn = conn\<lparr>StreamMode := True, SendWindow := 65535, RecvWindow := 65535, NoDelay := (0, 0, 0, 1)\<rparr>"

text \<open>
  The server, and for the specification the byte streams WebSockets have presented, the clients
  admitted by the handshake, and the addresses KCP has read packets from.
\<close>

record Server =
  pconn :: QueuePacketConn
  sessions :: smux_server
  http_Addr :: net_addr
  http_ReadTimeout :: int
  presented :: "bytes list"
  admitted :: "bytes list"
  heard :: "net_addr list"

definition NewServer :: "error option \<Rightarrow> net_addr \<Rightarrow> error + Server" where
  "NewServer kcpServe addr =
     (case kcpServe of
        Some e \<Rightarrow> Inl e
      | None \<Rightarrow>
          Inr \<lparr>pconn = NewQueuePacketConn addr clientMapTimeout, sessions = new_smux_server, http_Addr = addr,
               http_ReadTimeout = 30 * 10 ^ 9, presented = [], admitted = [], heard = []\<rparr>)"

text \<open>\<^verbatim>\<open>conn.RemoteAddr().(turbotunnel.ClientID)\<close>.\<close>

fun as_ClientID :: "net_addr \<Rightarrow> bytes option" where
  "as_ClientID (ClientID cid) = Some cid"
| "as_ClientID _ = None"

text \<open>
  A WebSocket's stream is read up to the handshake, and admitted or not; an admitted handler queues
  packets under its client and asks for the client's queue, and receives from it; KCP reads and
  writes packets; clients expire; a session is accepted for an address that was heard, and the
  sessions take their steps.
\<close>

inductive snow_step :: "Server \<Rightarrow> Server \<Rightarrow> bool" where
  ws_refused: "\<lbrakk>reads r st e; fst (serve_handshake r) = None\<rbrakk> \<Longrightarrow> snow_step s (s\<lparr>presented := presented s @ [st]\<rparr>)"
| ws_admitted: "\<lbrakk>reads r st e; fst (serve_handshake r) = Some cid\<rbrakk> \<Longrightarrow>
    snow_step s (s\<lparr>presented := presented s @ [st], admitted := admitted s @ [cid]\<rparr>)"
| ws_incoming: "cid \<in> set (admitted s) \<Longrightarrow> snow_step s (s\<lparr>pconn := QueueIncoming (pconn s) p (ClientID cid)\<rparr>)"
| ws_queue: "\<lbrakk>cid \<in> set (admitted s); OutgoingQueue (pconn s) (ClientID cid) now = Ok (q, c)\<rbrakk> \<Longrightarrow> snow_step s (s\<lparr>pconn := c\<rparr>)"
| ws_outgoing: "receive (pconn s) q = (x, c) \<Longrightarrow> snow_step s (s\<lparr>pconn := c\<rparr>)"
| kcp_read: "ReadFrom_select pick (pconn s) n = Ok (Some (Inr (p, a)), c) \<Longrightarrow>
    snow_step s (s\<lparr>pconn := c, heard := heard s @ [a]\<rparr>)"
| kcp_write: "WriteTo (pconn s) p a now = Ok (x, c) \<Longrightarrow> snow_step s (s\<lparr>pconn := c\<rparr>)"
| expire: "sweep (pconn s) now = Ok c \<Longrightarrow> snow_step s (s\<lparr>pconn := c\<rparr>)"
| kcp_accept: "a \<in> set (heard s) \<Longrightarrow> snow_step s (s\<lparr>sessions := acceptSmux (as_ClientID a) (sessions s)\<rparr>)"
| session_dies: "i < length (smux_store (sessions s)) \<Longrightarrow>
    snow_step s (s\<lparr>sessions := (sessions s)\<lparr>smux_store := close_session i (smux_store (sessions s))\<rparr>\<rparr>)"
| session_returns: "\<lbrakk>i < length (smux_store (sessions s)); sess_serving (smux_store (sessions s) ! i);
      \<not> sess_open (smux_store (sessions s) ! i)\<rbrakk> \<Longrightarrow> snow_step s (s\<lparr>sessions := acceptSmux_returns i (sessions s)\<rparr>)"

inductive snow_reachable :: "net_addr \<Rightarrow> Server \<Rightarrow> bool" for addr :: net_addr where
  snow_init: "NewServer None addr = Inr s \<Longrightarrow> snow_reachable addr s"
| snow_next: "snow_reachable addr s \<Longrightarrow> snow_step s s' \<Longrightarrow> snow_reachable addr s'"

subsection \<open>Facts\<close>

lemma ReadFull_Inr:
  assumes "reads r st e" "ReadFull k r = (Inr x, r')"
  shows "length x = k" "st = x @ drop k st" "reads r' (drop k st) e"
proof -
  have k: "k \<le> length st"
    using ReadFull_short [OF assms(1), of k] assms(2) by force
  then have "length (take k st) = k"
    by simp
  then obtain r'' where "ReadFull k r = (Inr (take k st), r'')" "reads r'' (drop k st) e"
    using ReadFull_ok [of r "take k st" "drop k st" e] assms(1) by (metis append_take_drop_id)
  then show "length x = k" "st = x @ drop k st" "reads r' (drop k st) e"
    using assms(2) k by auto
qed

text \<open>The handshake admits exactly a stream that starts with the token and eight bytes of id.\<close>

lemma serve_handshake_iff:
  assumes "reads r st e"
  shows "fst (serve_handshake r) = Some cid \<longleftrightarrow> length cid = 8 \<and> (\<exists>rest. st = Token @ cid @ rest)"
proof
  assume h: "fst (serve_handshake r) = Some cid"
  then obtain r1 r2 where r: "ReadFull (length Token) r = (Inr Token, r1)" "ReadFull 8 r1 = (Inr cid, r2)"
    by (auto simp: serve_handshake_def split: prod.splits sum.splits if_splits)
  show "length cid = 8 \<and> (\<exists>rest. st = Token @ cid @ rest)"
    using ReadFull_Inr [OF assms r(1)] ReadFull_Inr [OF _ r(2)] by metis
next
  assume "length cid = 8 \<and> (\<exists>rest. st = Token @ cid @ rest)"
  then show "fst (serve_handshake r) = Some cid"
    using serve_handshake_ok [of r cid _ e] assms by (metis fst_conv)
qed

subsection \<open>The invariant\<close>

text \<open>
  Every client anywhere in the server (queued packets, addresses heard, sessions) was admitted, and
  every admitted client presented the token and its id.
\<close>

definition snow_ok :: "Server \<Rightarrow> bool" where
  "snow_ok s \<longleftrightarrow>
     qpc_ok (pconn s) \<and> smux_ok (sessions s) \<and>
     (\<forall>cid\<in>set (admitted s). length cid = 8 \<and> (\<exists>st\<in>set (presented s). \<exists>rest. st = Token @ cid @ rest)) \<and>
     PAddr ` set (recvQueue (pconn s)) \<subseteq> ClientID ` set (admitted s) \<and>
     set (heard s) \<subseteq> ClientID ` set (admitted s) \<and>
     (\<forall>x\<in>set (smux_store (sessions s)). \<exists>cid\<in>set (admitted s). sess_client x = Some cid)"

lemma recvQueue_kept:
  assumes "qpc_ok c"
  shows "OutgoingQueue c a now = Ok (q, c') \<Longrightarrow> qpc_ok c' \<and> recvQueue c' = recvQueue c"
    "WriteTo c p a now = Ok (x, c') \<Longrightarrow> qpc_ok c' \<and> recvQueue c' = recvQueue c"
    "receive c q = (y, c') \<Longrightarrow> qpc_ok c' \<and> recvQueue c' = recvQueue c"
    "sweep c now = Ok c' \<Longrightarrow> qpc_ok c' \<and> recvQueue c' = recvQueue c"
proof -
  have ok: "qstep c x = Ok (ev, c') \<Longrightarrow> qpc_ok c'" for x ev
    using qstep_ok [OF assms, of x] by auto
  show "OutgoingQueue c a now = Ok (q, c') \<Longrightarrow> qpc_ok c' \<and> recvQueue c' = recvQueue c"
    using ok [of "Outgoing a now"] map_SendQueue_recvQueue by (auto simp: OutgoingQueue_def)
  show "WriteTo c p a now = Ok (x, c') \<Longrightarrow> qpc_ok c' \<and> recvQueue c' = recvQueue c"
    using ok [of "WriteOp p a now"] by (auto simp: WriteTo_def WriteTo_send_def dest!: map_SendQueue_recvQueue split: if_splits go.splits)
  show "receive c q = (y, c') \<Longrightarrow> qpc_ok c' \<and> recvQueue c' = recvQueue c"
    using ok [of "Recv q"] by (auto simp: receive_def split: if_splits list.splits)
  show "sweep c now = Ok c' \<Longrightarrow> qpc_ok c' \<and> recvQueue c' = recvQueue c"
    using ok [of "SweepOp now"] by (auto simp: sweep_def split: go.splits)
qed

lemma QueueIncoming_kept:
  "qpc_ok c \<Longrightarrow> qpc_ok (QueueIncoming c p a) \<and> PAddr ` set (recvQueue (QueueIncoming c p a)) \<subseteq> insert a (PAddr ` set (recvQueue c))"
  using qstep_ok [of c "Incoming p a"] by (auto simp: QueueIncoming_def QueueIncoming_send_def offer_def)

lemma ReadFrom_select_kept:
  assumes "qpc_ok c" "ReadFrom_select pick c n = Ok (Some (Inr (p, a)), c')"
  shows "qpc_ok c' \<and> insert a (PAddr ` set (recvQueue c')) \<subseteq> PAddr ` set (recvQueue c)"
proof -
  have "qpc_ok c'"
    using qstep_ok [OF assms(1), of "ReadWaiting pick n"] assms(2) by auto
  then show ?thesis
    using read_ok [OF assms(1), of pick n] assms(2) by auto
qed

definition session_clients :: "smux_server \<Rightarrow> bytes option set" where
  "session_clients t = sess_client ` set (smux_store t)"

lemma map_update_same: "f y = f (xs ! i) \<Longrightarrow> f ` set (xs[i := y]) = f ` set xs"
proof (cases "i < length xs")
  case True
  moreover assume "f y = f (xs ! i)"
  ultimately have "map f (xs[i := y]) = map f xs"
    by (metis list_update_id map_update)
  then show ?thesis
    by (metis set_map)
qed (simp add: list_update_beyond)

lemma session_clients_kept:
  "session_clients (t\<lparr>smux_store := close_session i (smux_store t)\<rparr>) = session_clients t"
  "session_clients (acceptSmux_returns i t) = session_clients t"
  "session_clients (acceptSmux client t) = insert client (session_clients t)"
  by (auto simp: session_clients_def acceptSmux_returns_def acceptSmux_def close_session_def map_update_same Let_def
      simp del: set_update_distinct split: option.splits)

lemma snow_ok_alt:
  "snow_ok s \<longleftrightarrow>
     qpc_ok (pconn s) \<and> smux_ok (sessions s) \<and>
     (\<forall>cid\<in>set (admitted s). length cid = 8 \<and> (\<exists>st\<in>set (presented s). \<exists>rest. st = Token @ cid @ rest)) \<and>
     PAddr ` set (recvQueue (pconn s)) \<subseteq> ClientID ` set (admitted s) \<and>
     set (heard s) \<subseteq> ClientID ` set (admitted s) \<and> session_clients (sessions s) \<subseteq> Some ` set (admitted s)"
  unfolding snow_ok_def session_clients_def by (simp only: image_subset_iff) (auto simp: image_iff)

lemma snow_ok_pconn:
  "snow_ok s \<Longrightarrow> (qpc_ok (pconn s) \<Longrightarrow> qpc_ok c \<and> recvQueue c = recvQueue (pconn s)) \<Longrightarrow> snow_ok (s\<lparr>pconn := c\<rparr>)"
  by (simp add: snow_ok_alt)

lemma snow_ok_step: "snow_step s s' \<Longrightarrow> snow_ok s \<Longrightarrow> snow_ok s'"
proof (induction rule: snow_step.induct)
  case (ws_admitted r st e cid s)
  then show ?case
    using serve_handshake_iff [OF ws_admitted(1), of cid] by (auto simp: snow_ok_alt)
next
  case (ws_incoming cid s p)
  then have q: "qpc_ok (pconn s)" and a: "insert (ClientID cid) (PAddr ` set (recvQueue (pconn s))) \<subseteq> ClientID ` set (admitted s)"
    by (simp_all add: snow_ok_alt)
  note k = QueueIncoming_kept [OF q, of p "ClientID cid"]
  then have "PAddr ` set (recvQueue (QueueIncoming (pconn s) p (ClientID cid))) \<subseteq> ClientID ` set (admitted s)"
    using subset_trans [OF _ a] by blast
  then show ?case
    using k ws_incoming by (simp add: snow_ok_alt)
next
  case (kcp_read pick s n p a c)
  then show ?case
    using ReadFrom_select_kept [of "pconn s" pick n p a c] by (simp add: snow_ok_alt) (metis subset_trans subsetD)
next
  case (kcp_accept a s)
  then have "a \<in> ClientID ` set (admitted s)"
    by (auto simp: snow_ok_alt)
  then show ?case
    using kcp_accept smux_ok_step [OF smux_step.accept] by (auto simp: snow_ok_alt session_clients_kept)
next
  case (session_dies i s)
  then show ?case
    using smux_ok_step [OF smux_step.dies, of i "sessions s"] by (auto simp: snow_ok_alt session_clients_kept)
next
  case (session_returns i s)
  then show ?case
    using smux_ok_step [OF smux_step.returns, of i "sessions s"] by (auto simp: snow_ok_alt session_clients_kept)
next
  case (ws_refused r st e s)
  then show ?case
    by (auto simp: snow_ok_alt)
qed (erule snow_ok_pconn, erule (1) recvQueue_kept)+

lemma snow_reachable_ok: "snow_reachable addr s \<Longrightarrow> snow_ok s"
proof (induction rule: snow_reachable.induct)
  case (snow_init s)
  then show ?case
    using qpc_ok_new [of addr clientMapTimeout] by (auto simp: NewServer_def snow_ok_def smux_ok_def new_smux_server_def NewQueuePacketConn_def)
qed (rule snow_ok_step)

subsection \<open>Properties\<close>

text \<open>
  C15: No session without the token.  In every reachable state of the server, with any number of
  WebSockets, packets and sessions interleaved, every session in the table and every session being
  served belongs to a client some WebSocket was admitted for: its stream started with the token and
  the eight bytes of that client's id.  The table's entry is a served session of that client, and
  the packet connection keeps its own invariant.
\<close>

theorem sessions_need_token:
  assumes "snow_reachable addr s"
  shows "(\<forall>x\<in>set (smux_store (sessions s)). \<exists>cid. sess_client x = Some cid \<and> length cid = 8 \<and>
      (\<exists>st\<in>set (presented s). \<exists>rest. st = Token @ cid @ rest)) \<and>
    (\<forall>cid i. smuxSessions (sessions s) cid = Some i \<longrightarrow>
      i < length (smux_store (sessions s)) \<and> sess_client (smux_store (sessions s) ! i) = Some cid \<and> sess_serving (smux_store (sessions s) ! i)) \<and>
    qpc_ok (pconn s)"
proof (intro conjI ballI)
  note i = snow_reachable_ok [OF assms]
  show "\<exists>cid. sess_client x = Some cid \<and> length cid = 8 \<and> (\<exists>st\<in>set (presented s). \<exists>rest. st = Token @ cid @ rest)"
    if x: "x \<in> set (smux_store (sessions s))" for x
  proof -
    have a: "\<forall>x\<in>set (smux_store (sessions s)). \<exists>cid\<in>set (admitted s). sess_client x = Some cid"
      using i unfolding snow_ok_def by (elim conjE)
    have b: "\<forall>cid\<in>set (admitted s). length cid = 8 \<and> (\<exists>st\<in>set (presented s). \<exists>rest. st = Token @ cid @ rest)"
      using i unfolding snow_ok_def by (elim conjE)
    obtain cid where "cid \<in> set (admitted s)" "sess_client x = Some cid"
      using bspec [OF a x] by metis
    then show ?thesis
      using bspec [OF b] by blast
  qed
  show "\<forall>cid i. smuxSessions (sessions s) cid = Some i \<longrightarrow>
      i < length (smux_store (sessions s)) \<and> sess_client (smux_store (sessions s) ! i) = Some cid \<and> sess_serving (smux_store (sessions s) ! i)"
    using i by (simp add: snow_ok_def smux_ok_def)
  show "qpc_ok (pconn s)"
    using i by (simp add: snow_ok_def)
qed

theorem sessions_need_token_witness:
  "\<exists>s. snow_reachable DummyAddr s \<and> length (smux_store (sessions s)) = 1 \<and>
     (\<exists>cid. sess_client (smux_store (sessions s) ! 0) = Some cid \<and> length cid = 8 \<and> (\<exists>st\<in>set (presented s). \<exists>rest. st = Token @ cid @ rest))"
proof -
  let ?cid = "replicate 8 (7 :: byte)"
  obtain s0 where s0: "NewServer None DummyAddr = Inr s0" "recvQueue (pconn s0) = []" "\<not> closed (pconn s0)"
    "smux_store (sessions s0) = []" "smuxSessions (sessions s0) = Map.empty"
    by (simp add: NewServer_def NewQueuePacketConn_def new_smux_server_def)
  let ?s1 = "s0\<lparr>presented := presented s0 @ [Token @ ?cid], admitted := admitted s0 @ [?cid]\<rparr>"
  let ?s2 = "?s1\<lparr>pconn := QueueIncoming (pconn ?s1) [1] (ClientID ?cid)\<rparr>"
  let ?s3 = "?s2\<lparr>pconn := (pconn ?s2)\<lparr>recvQueue := []\<rparr>, heard := heard ?s2 @ [ClientID ?cid]\<rparr>"
  let ?s4 = "?s3\<lparr>sessions := acceptSmux (as_ClientID (ClientID ?cid)) (sessions ?s3)\<rparr>"
  have rd: "reads \<lparr>chunks = [Token @ ?cid], fin = EOF\<rparr> (Token @ ?cid) EOF"
    by (simp add: reads_def productive_def stream_def Token_def)
  have "fst (serve_handshake \<lparr>chunks = [Token @ ?cid], fin = EOF\<rparr>) = Some ?cid"
    using serve_handshake_iff [OF rd, of ?cid] by simp
  then have "snow_reachable DummyAddr ?s1"
    using snow_reachable.snow_next [OF snow_reachable.snow_init [OF s0(1)] snow_step.ws_admitted [OF rd]] by simp
  then have "snow_reachable DummyAddr ?s2"
    by (rule snow_reachable.snow_next) (rule snow_step.ws_incoming, simp)
  then have "snow_reachable DummyAddr ?s3"
    by (rule snow_reachable.snow_next) (rule snow_step.kcp_read [where pick = False and n = 9 and p = "[1]"],
      use s0 in \<open>simp add: ReadFrom_select_def QueueIncoming_def QueueIncoming_send_def offer_def queueSize_def\<close>)
  then have r: "snow_reachable DummyAddr ?s4"
    by (rule snow_reachable.snow_next) (rule snow_step.kcp_accept, simp)
  have one: "length (smux_store (sessions ?s4)) = 1"
    using s0 by (simp add: acceptSmux_def Let_def)
  then have "smux_store (sessions ?s4) ! 0 \<in> set (smux_store (sessions ?s4))"
    by (intro nth_mem) simp
  then show ?thesis
    using sessions_need_token [OF r] r one by (intro exI [of _ ?s4]) (elim conjE, intro conjI, assumption+, blast)
qed

end
