(* ===== verification/Go_Base64.thy ===== *)
theory Go_Base64
  imports Go_Strings
begin

text \<open>
  \<^verbatim>\<open>base64.StdEncoding\<close>: groups of three bytes become four characters, the last group is padded with
  \<^verbatim>\<open>=\<close>.  \<open>DecodeString\<close> skips line breaks, accepts padding only at the end and ignores the unused bits
  of the last character, as Go does.
\<close>

definition alphabet :: string where
  "alphabet = ''ABCDEFGHIJKLMNOPQRSTUVWXYZabcdefghijklmnopqrstuvwxyz0123456789+/''"

definition b64_char :: "nat \<Rightarrow> char" where
  "b64_char n = alphabet ! n"

definition b64_value :: "char \<Rightarrow> nat option" where
  "b64_value c = (let n = length (takeWhile (\<lambda>x. x \<noteq> c) alphabet) in if n < 64 then Some n else None)"

fun encode_groups :: "nat list \<Rightarrow> string" where
  "encode_groups (a # b # c # r) =
     b64_char (a div 4) # b64_char (a mod 4 * 16 + b div 16) # b64_char (b mod 16 * 4 + c div 64) # b64_char (c mod 64) # encode_groups r"
| "encode_groups [a, b] = [b64_char (a div 4), b64_char (a mod 4 * 16 + b div 16), b64_char (b mod 16 * 4), CHR ''='']"
| "encode_groups [a] = [b64_char (a div 4), b64_char (a mod 4 * 16), CHR ''='', CHR ''='']"
| "encode_groups [] = []"

definition EncodeToString :: "bytes \<Rightarrow> string" where
  "EncodeToString bs = encode_groups (map unat bs)"

fun decode_groups :: "string \<Rightarrow> nat list option" where
  "decode_groups [] = Some []"
| "decode_groups (w # x # y # z # r) =
     (case (b64_value w, b64_value x) of
        (Some p, Some q) \<Rightarrow>
          (if y = CHR ''='' then (if z = CHR ''='' \<and> r = [] then Some [p * 4 + q div 16] else None)
           else
             (case b64_value y of
                None \<Rightarrow> None
              | Some s \<Rightarrow>
                  if z = CHR ''='' then (if r = [] then Some [p * 4 + q div 16, q mod 16 * 16 + s div 4] else None)
                  else
                    (case b64_value z of
                       None \<Rightarrow> None
                     | Some t \<Rightarrow>
                         map_option (\<lambda>bs. (p * 4 + q div 16) # (q mod 16 * 16 + s div 4) # (s mod 4 * 64 + t) # bs) (decode_groups r))))
      | _ \<Rightarrow> None)"
| "decode_groups _ = None"

definition line_break :: "char \<Rightarrow> bool" where
  "line_break c \<longleftrightarrow> c = CHR 0x0A \<or> c = CHR 0x0D"

definition DecodeString :: "string \<Rightarrow> bytes option" where
  "DecodeString s = map_option (map of_nat) (decode_groups (filter (\<lambda>c. \<not> line_break c) s))"

text \<open>The header value of HTTP basic authentication, as the program's proxy dialers send it.\<close>

definition basic_auth :: "string \<Rightarrow> string \<Rightarrow> string" where
  "basic_auth username password = ''Basic '' @ EncodeToString (go_bytes (username @ '':'' @ password))"

lemma takeWhile_nth:
  "distinct xs \<Longrightarrow> i < length xs \<Longrightarrow> takeWhile (\<lambda>x. x \<noteq> xs ! i) xs = take i xs"
  by (induction xs arbitrary: i) (auto simp: less_Suc_eq_0_disj nth_Cons')

lemma alphabet_props: "length alphabet = 64" "distinct alphabet" "CHR ''='' \<notin> set alphabet"
  "list_all (\<lambda>c. \<not> line_break c) alphabet"
  by code_simp+

lemma b64_value_char [simp]: "n < 64 \<Longrightarrow> b64_value (b64_char n) = Some n"
  by (simp add: b64_value_def b64_char_def takeWhile_nth alphabet_props)

lemma b64_char_plain:
  assumes "n < 64"
  shows "b64_char n \<noteq> CHR ''=''" "\<not> line_break (b64_char n)"
proof -
  have "b64_char n \<in> set alphabet"
    using assms by (simp add: b64_char_def alphabet_props)
  then show "b64_char n \<noteq> CHR ''=''" "\<not> line_break (b64_char n)"
    using alphabet_props(3,4) by (auto simp: list_all_iff)
qed

lemma byte_digits:
  assumes "a < 256" "b < 256" "c < (256 :: nat)"
  shows "a div 4 < 64" "a mod 4 * 16 + b div 16 < 64" "b mod 16 * 4 + c div 64 < 64" "c mod 64 < 64"
    "a mod 4 * 16 < 64" "b mod 16 * 4 < 64" "b div 16 < 16" "c div 64 < 4"
  using assms by auto

lemma decode_encode_groups: "\<forall>a\<in>set xs. a < 256 \<Longrightarrow> decode_groups (encode_groups xs) = Some xs"
proof (induction xs rule: encode_groups.induct)
  case (1 a b c r)
  then show ?case
    using byte_digits [of a b c] by (simp add: b64_char_plain)
next
  case (2 a b)
  then show ?case
    using byte_digits [of a b 0] by (simp add: b64_char_plain)
next
  case (3 a)
  then show ?case
    using byte_digits [of a 0 0] by (simp add: b64_char_plain)
qed simp

lemma encode_groups_plain: "\<forall>a\<in>set xs. a < 256 \<Longrightarrow> c \<in> set (encode_groups xs) \<Longrightarrow> \<not> line_break c"
proof (induction xs rule: encode_groups.induct)
  case (1 a b c r)
  then show ?case
    using byte_digits [of a b c] by (auto simp: b64_char_plain)
next
  case (2 a b)
  then show ?case
    using byte_digits [of a b 0] by (auto simp: b64_char_plain line_break_def [of "CHR ''=''"])
next
  case (3 a)
  then show ?case
    using byte_digits [of a 0 0] by (auto simp: b64_char_plain line_break_def [of "CHR ''=''"])
qed simp

lemma Decode_EncodeToString [str_simps]: "DecodeString (EncodeToString bs) = Some bs"
proof -
  have small: "\<forall>a\<in>set (map unat bs). a < 256"
    using unsigned_less [where 'a = nat and 'b = 8] by auto
  then have "filter (\<lambda>c. \<not> line_break c) (EncodeToString bs) = EncodeToString bs"
    using encode_groups_plain [OF small] by (simp add: EncodeToString_def filter_id_conv)
  then show ?thesis
    using decode_encode_groups [OF small] by (simp add: DecodeString_def EncodeToString_def comp_def)
qed

lemma set_EncodeToString: "set (EncodeToString bs) \<subseteq> insert CHR ''='' (set alphabet)"
proof -
  have "\<forall>a\<in>set xs. a < 256 \<Longrightarrow> set (encode_groups xs) \<subseteq> insert CHR ''='' (set alphabet)" for xs
  proof (induction xs rule: encode_groups.induct)
    case (1 a b c r)
    then show ?case
      using byte_digits [of a b c] by (auto simp: b64_char_def alphabet_props)
  next
    case (2 a b)
    then show ?case
      using byte_digits [of a b 0] by (auto simp: b64_char_def alphabet_props)
  next
    case (3 a)
    then show ?case
      using byte_digits [of a 0 0] by (auto simp: b64_char_def alphabet_props)
  qed simp
  then show ?thesis
    using unsigned_less [where 'a = nat and 'b = 8] by (auto simp: EncodeToString_def)
qed

text \<open>An encoding of a multiple of three bytes plus one ends in two padding characters.\<close>

lemma encode_padding:
  "length xs mod 3 = 1 \<Longrightarrow> \<exists>s. encode_groups xs = s @ ''==''"
proof (induction xs rule: encode_groups.induct)
  case (1 a b c r)
  then show ?case by (auto simp: mod_Suc split: if_splits)
qed auto

end
