(* ===== verification/Go_Pem.thy ===== *)
theory Go_Pem
  imports Go_Base64
begin

text \<open>
  \<^verbatim>\<open>encoding/pem\<close> as the program uses it: \<^verbatim>\<open>EncodeToMemory\<close> of a block without headers, and the
  \<^verbatim>\<open>Decode\<close> that \<^verbatim>\<open>tls.X509KeyPair\<close> runs on the result, which skips text before a block, reads past
  headers and starts again after a malformed block.
\<close>

abbreviation newline :: char where "newline \<equiv> CHR 0x0A"

definition pemStart :: string where "pemStart = ''-----BEGIN ''"

definition pemEnd :: string where "pemEnd = ''-----END ''"

definition pemEndOfLine :: string where "pemEndOfLine = ''-----''"

text \<open>The line breaker: lines of 64 characters, the last one shorter.\<close>

fun break_lines :: "string \<Rightarrow> string list" where
  "break_lines s = (if s = [] then [] else take 64 s # break_lines (drop 64 s))"

declare break_lines.simps [simp del]

definition pem_text :: "bytes \<Rightarrow> string" where
  "pem_text bs = concat (map (\<lambda>l. l @ [newline]) (break_lines (EncodeToString bs)))"

definition EncodeToMemory :: "string \<Rightarrow> bytes \<Rightarrow> string" where
  "EncodeToMemory ty bs =
     pemStart @ ty @ pemEndOfLine @ [newline] @ pem_text bs @ pemEnd @ ty @ pemEndOfLine @ [newline]"

definition TrimRight :: "(char \<Rightarrow> bool) \<Rightarrow> string \<Rightarrow> string" where
  "TrimRight p s = rev (dropWhile p (rev s))"

definition blank :: "char \<Rightarrow> bool" where
  "blank c \<longleftrightarrow> c = CHR '' '' \<or> c = CHR 0x09"

text \<open>\<^verbatim>\<open>getLine\<close>: the line without its line break and trailing blanks, and the rest.\<close>

definition getLine :: "string \<Rightarrow> string \<times> string" where
  "getLine s =
     (case split_first newline s of
        None \<Rightarrow> (TrimRight blank s, [])
      | Some (l, r) \<Rightarrow> (TrimRight blank (if l \<noteq> [] \<and> last l = CHR 0x0D then butlast l else l), r))"

fun index_of :: "string \<Rightarrow> string \<Rightarrow> nat option" where
  "index_of [] p = (if p = [] then Some 0 else None)"
| "index_of (c # s) p = (if HasPrefix (c # s) p then Some 0 else map_option Suc (index_of s p))"

definition after_start :: "string \<Rightarrow> string option" where
  "after_start s =
     (if HasPrefix s pemStart then Some (drop (length pemStart) s)
      else map_option (\<lambda>i. drop (i + Suc (length pemStart)) s) (index_of s (newline # pemStart)))"

lemma getLine_shorter: "s \<noteq> [] \<Longrightarrow> length (snd (getLine s)) < length s"
  "length (snd (getLine s)) \<le> length s"
proof -
  have "split_first c s = Some (l, r) \<Longrightarrow> length r < length s" for c l r
    by (induction s arbitrary: l) (auto split: if_splits)
  then show "s \<noteq> [] \<Longrightarrow> length (snd (getLine s)) < length s" "length (snd (getLine s)) \<le> length s"
    by (auto simp: getLine_def split: option.splits intro: less_imp_le)
qed

lemma index_of_bound: "index_of s p = Some i \<Longrightarrow> i + length p \<le> length s"
proof (induction s arbitrary: i)
  case (Cons c s)
  then show ?case
    by (auto simp: HasPrefix_def split: if_splits dest: arg_cong [of _ _ length])
qed (auto split: if_splits)

lemma after_start_shorter: "after_start s = Some r \<Longrightarrow> length r < length s"
proof (cases "HasPrefix s pemStart")
  case True
  moreover assume "after_start s = Some r"
  ultimately show ?thesis
    by (cases "s = []") (auto simp: after_start_def pemStart_def HasPrefix_def)
next
  case False
  assume "after_start s = Some r"
  with False obtain i where "index_of s (newline # pemStart) = Some i" "r = drop (i + Suc (length pemStart)) s"
    by (auto simp: after_start_def)
  then show ?thesis
    using index_of_bound [of s "newline # pemStart" i] by simp
qed

text \<open>Reading past the header lines: whether there were any, and the text after them.\<close>

function skip_headers :: "bool \<Rightarrow> string \<Rightarrow> (bool \<times> string) option" where
  "skip_headers seen s =
     (if s = [] then None
      else if CHR '':'' \<in> set (fst (getLine s)) then skip_headers True (snd (getLine s))
      else Some (seen, s))"
  by pat_completeness auto
termination
  by (relation "measure (\<lambda>(_, s). length s)") (simp_all add: getLine_shorter)

declare skip_headers.simps [simp del]

lemma skip_headers_shorter: "skip_headers seen s = Some (b, r) \<Longrightarrow> length r \<le> length s"
proof (induction seen s rule: skip_headers.induct)
  case (1 seen s)
  then show ?case
    using getLine_shorter(2) [of s] by (subst (asm) (2) skip_headers.simps) (auto split: if_splits)
qed

text \<open>The body and the end line of a block: its bytes and what follows, if it is well-formed.\<close>

definition pem_body :: "string \<Rightarrow> bool \<Rightarrow> string \<Rightarrow> (bytes \<times> string) option" where
  "pem_body ty seen s =
     (case (if \<not> seen \<and> HasPrefix s pemEnd then Some (0, length pemEnd)
            else map_option (\<lambda>i. (i, i + Suc (length pemEnd))) (index_of s (newline # pemEnd))) of
        None \<Rightarrow> None
      | Some (endIndex, trailer) \<Rightarrow>
          let t = drop trailer s; n = length ty + length pemEndOfLine in
          if length t < n \<or> \<not> HasPrefix (take n t) ty \<or> \<not> HasSuffix (take n t) pemEndOfLine \<or> fst (getLine (drop n t)) \<noteq> [] then None
          else
            map_option (\<lambda>bs. (bs, snd (getLine (drop (endIndex + length pemEnd) s))))
              (DecodeString (filter (\<lambda>c. \<not> blank c) (take endIndex s))))"

function pem_Decode :: "string \<Rightarrow> (string \<times> bytes \<times> string) option" where
  "pem_Decode s =
     (case after_start s of
        None \<Rightarrow> None
      | Some r \<Rightarrow>
          let l = fst (getLine r); r1 = snd (getLine r); ty = take (length l - length pemEndOfLine) l in
          if \<not> HasSuffix l pemEndOfLine then pem_Decode r1
          else
            (case skip_headers False r1 of
               None \<Rightarrow> None
             | Some (seen, r2) \<Rightarrow>
                 (case pem_body ty seen r2 of
                    None \<Rightarrow> pem_Decode r2
                  | Some (bs, r3) \<Rightarrow> Some (ty, bs, r3))))"
  by pat_completeness auto
termination
proof (relation "measure length", goal_cases)
  case (2 s r l r1 ty)
  then show ?case
    using after_start_shorter [of s r] getLine_shorter(2) [of r] by simp
next
  case (3 s r l r1 ty p seen r2)
  then show ?case
    using after_start_shorter [of s r] getLine_shorter(2) [of r] skip_headers_shorter [of False r1 seen r2] by simp
qed simp

declare pem_Decode.simps [simp del]

lemma pem_body_shorter: "pem_body ty seen s = Some (bs, r) \<Longrightarrow> length r \<le> length s"
  using le_trans [OF getLine_shorter(2) [of "drop i s" for i]]
  by (auto simp: pem_body_def Let_def split: option.splits if_splits)

lemma pem_Decode_shorter: "pem_Decode s = Some (ty, bs, r) \<Longrightarrow> length r < length s"
proof (induction s rule: pem_Decode.induct)
  case (1 s)
  obtain a where a: "after_start s = Some a"
    using "1.prems" by (subst (asm) pem_Decode.simps) (auto split: option.splits)
  let ?l = "fst (getLine a)" and ?r1 = "snd (getLine a)"
  have r1: "length ?r1 < length s"
    using after_start_shorter [OF a] getLine_shorter(2) [of a] by simp
  show ?case
  proof (cases "HasSuffix ?l pemEndOfLine")
    case False
    then have "pem_Decode ?r1 = Some (ty, bs, r)"
      using "1.prems" a by (subst (asm) pem_Decode.simps) simp
    then show ?thesis
      using "1.IH"(1) [OF a refl refl refl] False r1 by simp
  next
    case True
    then obtain seen r2 where h: "skip_headers False ?r1 = Some (seen, r2)"
      using "1.prems" a by (subst (asm) pem_Decode.simps) (auto simp: Let_def split: option.splits)
    then have r2: "length r2 < length s"
      using r1 skip_headers_shorter [of False ?r1 seen r2] by simp
    show ?thesis
    proof (cases "pem_body (take (length ?l - length pemEndOfLine) ?l) seen r2")
      case None
      then have "pem_Decode r2 = Some (ty, bs, r)"
        using "1.prems" a h True by (subst (asm) pem_Decode.simps) simp
      then show ?thesis
        using "1.IH"(2) [OF a refl refl refl _ h refl None] True r2 by simp
    next
      case (Some x)
      then have "x = (bs, r)"
        using "1.prems" a h True by (subst (asm) pem_Decode.simps) (simp add: Let_def split: prod.splits)
      then show ?thesis
        using Some pem_body_shorter r2 by (fastforce dest: le_less_trans)
    qed
  qed
qed

subsection \<open>Blocks read back\<close>

lemma concat_break_lines: "concat (break_lines s) = s"
  by (induction s rule: break_lines.induct) (subst break_lines.simps, simp)

lemma break_lines_lengths: "l \<in> set (break_lines s) \<Longrightarrow> l \<noteq> [] \<and> length l \<le> 64"
proof (induction s rule: break_lines.induct)
  case (1 s)
  then show ?case
    by (subst (asm) (2) break_lines.simps) (auto split: if_splits)
qed

lemma break_lines_set: "l \<in> set (break_lines s) \<Longrightarrow> set l \<subseteq> set s"
  using concat_break_lines [of s] by (metis UN_upper set_concat)

lemma alphabet_plain: "list_all (\<lambda>c. c \<notin> {CHR ''-'', CHR '':'', CHR '' '', CHR 0x09, newline, CHR 0x0D}) (CHR ''='' # alphabet)"
  by code_simp

lemma pem_char_plain:
  "c \<in> set (EncodeToString bs) \<Longrightarrow> c \<noteq> CHR ''-'' \<and> c \<noteq> CHR '':'' \<and> c \<noteq> newline \<and> c \<noteq> CHR 0x0D \<and> \<not> blank c"
  using set_EncodeToString [of bs] alphabet_plain by (auto simp: list_all_iff blank_def)

lemma filter_lines: "newline \<notin> set (concat ls) \<Longrightarrow> CHR 0x0D \<notin> set (concat ls) \<Longrightarrow>
    filter (\<lambda>c. \<not> line_break c) (concat (map (\<lambda>l. l @ [newline]) ls)) = concat ls"
  by (induction ls) (auto simp: line_break_def filter_id_conv)

lemma DecodeString_pem_text: "DecodeString (pem_text bs) = Some bs"
proof -
  have "filter (\<lambda>c. \<not> line_break c) (pem_text bs) = EncodeToString bs"
    unfolding pem_text_def using pem_char_plain [of _ bs]
    by (subst filter_lines) (auto simp: concat_break_lines simp flip: set_concat)
  moreover have "filter (\<lambda>c. \<not> line_break c) (EncodeToString bs) = EncodeToString bs"
    using pem_char_plain [of _ bs] by (auto simp: filter_id_conv line_break_def)
  ultimately show ?thesis
    using Decode_EncodeToString [of bs] by (simp add: DecodeString_def)
qed

lemma DecodeString_newline: "DecodeString (s @ [newline]) = DecodeString s"
  by (simp add: DecodeString_def line_break_def)

lemma pem_text_cases:
  obtains "pem_text bs = []" "bs = []"
  | l r t where "pem_text bs = l @ newline # r" "set l \<subseteq> set (EncodeToString bs)" "pem_text bs = t @ [newline]"
      "CHR ''-'' \<notin> set t" "filter (\<lambda>c. \<not> blank c) t = t" "\<not> HasPrefix (pem_text bs @ x) pemEnd"
proof (cases "break_lines (EncodeToString bs)")
  case Nil
  then have "EncodeToString bs = []"
    by (subst (asm) break_lines.simps) (simp split: if_splits)
  then have "bs = []"
    using Decode_EncodeToString [of bs] by (simp add: DecodeString_def)
  then show thesis
    using that(1) Nil by (simp add: pem_text_def)
next
  case (Cons l ls)
  let ?t = "butlast (pem_text bs)"
  have chars: "set (pem_text bs) \<subseteq> insert newline (set (EncodeToString bs))"
    using break_lines_set [of _ "EncodeToString bs"] by (auto simp: pem_text_def)
  then have "set ?t \<subseteq> insert newline (set (EncodeToString bs))"
    by (auto dest: in_set_butlastD)
  then have t: "CHR ''-'' \<notin> set ?t" "filter (\<lambda>c. \<not> blank c) ?t = ?t"
    using pem_char_plain [of _ bs] by (auto simp: filter_id_conv blank_def)
  have e: "pem_text bs = ?t @ [newline]"
    using Cons by (cases ls rule: rev_cases) (auto simp: pem_text_def butlast_append)
  have l: "l \<noteq> []" "set l \<subseteq> set (EncodeToString bs)"
    using break_lines_set [of l "EncodeToString bs"] break_lines_lengths [of l "EncodeToString bs"] Cons by auto
  have p: "pem_text bs = l @ newline # concat (map (\<lambda>l. l @ [newline]) ls)"
    using Cons by (simp add: pem_text_def)
  have "\<not> HasPrefix (pem_text bs @ x) pemEnd"
    using l p pem_char_plain [of "hd l" bs] by (cases l) (auto simp: HasPrefix_def pemEnd_def)
  then show thesis
    by (rule that(2) [OF p l(2) e t])
qed

lemma index_of_end: "CHR ''-'' \<notin> set t \<Longrightarrow> index_of (t @ newline # pemEnd @ x) (newline # pemEnd) = Some (length t)"
proof (induction t)
  case (Cons c t)
  then have "\<not> HasPrefix (c # t @ newline # pemEnd @ x) (newline # pemEnd)"
    by (cases t) (auto simp: HasPrefix_def pemEnd_def)
  then show ?case
    using Cons by simp
qed (simp add: HasPrefix_def)

lemma TrimRight_id: "s \<noteq> [] \<Longrightarrow> \<not> p (last s) \<Longrightarrow> TrimRight p s = s"
  by (cases s rule: rev_cases) (simp_all add: TrimRight_def)

lemma getLine_dashes: "newline \<notin> set s \<Longrightarrow> getLine (s @ pemEndOfLine @ newline # r) = (s @ pemEndOfLine, r)"
  using split_first_sep [of newline "s @ pemEndOfLine" r] TrimRight_id [of "s @ pemEndOfLine" blank]
  by (simp add: getLine_def pemEndOfLine_def blank_def)

lemma getLine_colon:
  assumes "newline \<notin> set l" "CHR '':'' \<notin> set l"
  shows "CHR '':'' \<notin> set (fst (getLine (l @ newline # r)))"
proof -
  have "set (TrimRight blank s) \<subseteq> set s" for s
    using set_dropWhileD [of _ blank "rev s"] by (auto simp: TrimRight_def)
  then show ?thesis
    using assms by (auto simp: getLine_def split_first_sep dest: in_set_butlastD)
qed

lemma getLine_empty: "getLine (newline # r) = ([], r)"
  by (simp add: getLine_def TrimRight_def)

lemma pem_end_line:
  assumes "newline \<notin> set ty"
  shows "length (ty @ pemEndOfLine @ newline # r) \<ge> length ty + length pemEndOfLine"
    "take (length ty + length pemEndOfLine) (ty @ pemEndOfLine @ newline # r) = ty @ pemEndOfLine"
    "drop (length ty + length pemEndOfLine) (ty @ pemEndOfLine @ newline # r) = newline # r"
    "HasPrefix (ty @ pemEndOfLine) ty" "HasSuffix (ty @ pemEndOfLine) pemEndOfLine"
    "snd (getLine (ty @ pemEndOfLine @ newline # r)) = r"
    "snd (getLine (CHR '' '' # ty @ pemEndOfLine @ newline # r)) = r"
  using getLine_dashes [of ty r] getLine_dashes [of "CHR '' '' # ty" r] assms by (simp_all add: HasSuffix_def)

lemma pem_body_encoded:
  assumes "newline \<notin> set ty"
  shows "pem_body ty False (pem_text bs @ pemEnd @ ty @ pemEndOfLine @ newline # r) = Some (bs, r)"
proof (rule pem_text_cases [where bs = bs and x = "pemEnd @ ty @ pemEndOfLine @ newline # r"])
  assume "pem_text bs = []" "bs = []"
  then show ?thesis
    using pem_end_line [OF assms] by (simp add: pem_body_def Let_def getLine_empty DecodeString_def)
next
  fix l r' t
  define s where "s = pem_text bs @ pemEnd @ ty @ pemEndOfLine @ newline # r"
  assume t: "pem_text bs = t @ [newline]" "CHR ''-'' \<notin> set t" "filter (\<lambda>c. \<not> blank c) t = t"
    and "\<not> HasPrefix (pem_text bs @ pemEnd @ ty @ pemEndOfLine @ newline # r) pemEnd"
  then have s: "s = t @ newline # pemEnd @ ty @ pemEndOfLine @ newline # r" and p: "\<not> HasPrefix s pemEnd"
    by (simp_all add: s_def)
  have i: "index_of s (newline # pemEnd) = Some (length t)"
    unfolding s using t(2) by (rule index_of_end)
  have d: "drop (length t + length pemEnd) s = CHR '' '' # ty @ pemEndOfLine @ newline # r"
    "drop (length t + Suc (length pemEnd)) s = ty @ pemEndOfLine @ newline # r" "take (length t) s = t"
    unfolding s by (simp_all add: pemEnd_def)
  have "DecodeString t = Some bs"
    using DecodeString_pem_text [of bs] t(1) by (simp add: DecodeString_newline)
  then have "pem_body ty False s = Some (bs, r)"
    unfolding pem_body_def Let_def using pem_end_line [OF assms] p by (simp add: i d t(3) getLine_empty del: add_Suc_right length_drop drop_drop)
  then show ?thesis
    by (simp add: s_def)
qed

lemma pem_roundtrip:
  assumes "newline \<notin> set ty" "CHR '':'' \<notin> set ty"
  shows "pem_Decode (EncodeToMemory ty bs @ r) = Some (ty, bs, r)"
proof -
  let ?tail = "pemEnd @ ty @ pemEndOfLine @ newline # r"
  let ?body = "pem_text bs @ ?tail"
  have e: "EncodeToMemory ty bs @ r = pemStart @ ty @ pemEndOfLine @ newline # ?body"
    by (simp add: EncodeToMemory_def)
  then have "after_start (EncodeToMemory ty bs @ r) = Some (ty @ pemEndOfLine @ newline # ?body)"
    by (simp add: after_start_def)
  moreover have "skip_headers False ?body = Some (False, ?body)"
  proof (rule pem_text_cases [where bs = bs and x = ?tail])
    assume "pem_text bs = []"
    then show ?thesis
      using getLine_colon [of "pemEnd @ ty @ pemEndOfLine" r] assms
      by (subst skip_headers.simps) (simp add: pemEnd_def pemEndOfLine_def)
  next
    fix l r' assume l: "pem_text bs = l @ newline # r'" "set l \<subseteq> set (EncodeToString bs)"
    then have "newline \<notin> set l" "CHR '':'' \<notin> set l"
      using pem_char_plain [of _ bs] by blast+
    then show ?thesis
      using getLine_colon [of l "r' @ ?tail"] l(1) by (subst skip_headers.simps) simp
  qed
  ultimately show ?thesis
    using getLine_dashes [OF assms(1), of ?body] pem_body_encoded [OF assms(1), of bs r]
    by (subst pem_Decode.simps) (simp add: Let_def HasSuffix_def)
qed

end
