(* ===== verification/Dpi_Common.thy ===== *)
theory Dpi_Common
  imports Go_Conn Go_Strings
begin

text \<open>
  \<^verbatim>\<open>dpi/common/crypto.go\<close>, \<^verbatim>\<open>errors.go\<close>, \<^verbatim>\<open>protocol.go\<close> and \<^verbatim>\<open>serialize.go\<close>: the sealed messages, the
  stream header and the connect request the DPI client and server exchange.  \<^verbatim>\<open>cipher.AEAD\<close> is an
  interface value in the code and a record of its two methods here; \<open>aead_ok\<close> is what its
  documentation promises (opening what was sealed under the same nonce gives it back, and the
  tag adds 16 bytes).  Byte slices that Go would refuse to cut are panics, and the \<^verbatim>\<open>uint16\<close> and
  \<^verbatim>\<open>uint32\<close> arithmetic wraps.
\<close>

subsection \<open>Sealing\<close>

definition NonceSize :: nat where "NonceSize = 12"
definition TagSize :: nat where "TagSize = 16"

record AEAD =
  Seal :: "bytes \<Rightarrow> bytes \<Rightarrow> bytes"
  Unseal :: "bytes \<Rightarrow> bytes \<Rightarrow> error + bytes"

definition aead_ok :: "AEAD \<Rightarrow> bool" where
  "aead_ok a \<longleftrightarrow> (\<forall>n p. length n = NonceSize \<longrightarrow>
     length (Seal a n p) = length p + TagSize \<and> Unseal a n (Seal a n p) = Inr p)"

text \<open>\<^verbatim>\<open>NewEncryptor\<close>, with the hash function and the cipher the code calls as arguments.\<close>

definition NewEncryptor :: "(bytes \<Rightarrow> bytes) \<Rightarrow> (bytes \<Rightarrow> AEAD) \<Rightarrow> bytes \<Rightarrow> AEAD" where
  "NewEncryptor sha256 gcm key = gcm (sha256 key)"

text \<open>\<open>rnd\<close> is what the random source delivers for the nonce.\<close>

definition Encrypt :: "AEAD \<Rightarrow> error + bytes \<Rightarrow> bytes \<Rightarrow> error + bytes" where
  "Encrypt a rnd plaintext =
     (case rnd of
        Inl e \<Rightarrow> Inl e
      | Inr nonce \<Rightarrow> Inr (nonce @ Seal a nonce plaintext))"

definition Decrypt :: "AEAD \<Rightarrow> bytes \<Rightarrow> error + bytes" where
  "Decrypt a data =
     (if length data < NonceSize + TagSize then Inl ErrInvalidCiphertext
      else Unseal a (take NonceSize data) (drop NonceSize data))"

definition EncryptStream :: "AEAD \<Rightarrow> error + bytes \<Rightarrow> bytes \<Rightarrow> error + bytes" where
  "EncryptStream a rnd data = Encrypt a rnd data"

definition DecryptStream :: "AEAD \<Rightarrow> bytes \<Rightarrow> error + bytes" where
  "DecryptStream a data = Decrypt a data"

lemma Encrypt_length:
  "aead_ok a \<Longrightarrow> length n = NonceSize \<Longrightarrow> Encrypt a (Inr n) p = Inr c \<Longrightarrow> length c = length p + 28"
  by (auto simp: Encrypt_def aead_ok_def NonceSize_def TagSize_def)

lemma Decrypt_Encrypt:
  "aead_ok a \<Longrightarrow> length n = NonceSize \<Longrightarrow> Decrypt a (n @ Seal a n p) = Inr p"
  by (simp add: Decrypt_def aead_ok_def NonceSize_def TagSize_def)

lemma Decrypt_Encrypt_Inr:
  "aead_ok a \<Longrightarrow> length n = NonceSize \<Longrightarrow> Encrypt a (Inr n) p = Inr c \<Longrightarrow> Decrypt a c = Inr p"
  by (auto simp: Encrypt_def Decrypt_Encrypt)

text \<open>An instance, for examples: the tag is sixteen zero bytes.\<close>

definition plain_aead :: AEAD where
  "plain_aead = \<lparr>Seal = (\<lambda>n p. p @ replicate 16 0), Unseal = (\<lambda>n c. Inr (take (length c - 16) c))\<rparr>"

lemma plain_aead_ok: "aead_ok plain_aead"
  by (simp add: aead_ok_def plain_aead_def TagSize_def)

subsection \<open>Messages\<close>

definition MaxChunkSize :: nat where "MaxChunkSize = 64 * 1024"
definition Version :: byte where "Version = 1"
definition MsgConnect :: byte where "MsgConnect = 0x01"
definition MsgData :: byte where "MsgData = 0x02"
definition MsgClose :: byte where "MsgClose = 0x03"
definition StreamHeaderSize :: nat where "StreamHeaderSize = 10"

lemmas msg_consts = Version_def MsgConnect_def MsgData_def MsgClose_def

record StreamHeader =
  HVersion :: byte
  MsgType :: byte
  ConnID :: u32
  PayloadLen :: u32

definition header_bytes :: "byte \<Rightarrow> u32 \<Rightarrow> u32 \<Rightarrow> bytes" where
  "header_bytes msgType connID payloadLen = [Version, msgType] @ put_be32 connID @ put_be32 payloadLen"

definition WriteStreamHeader :: "('w \<Rightarrow> bytes \<Rightarrow> (nat \<times> error option) \<times> 'w) \<Rightarrow> byte \<Rightarrow> u32 \<Rightarrow> u32 \<Rightarrow> 'w \<Rightarrow> (error + unit) \<times> 'w" where
  "WriteStreamHeader wr msgType connID payloadLen = put_io wr (header_bytes msgType connID payloadLen)"

definition parse_header :: "bytes \<Rightarrow> StreamHeader" where
  "parse_header buf =
     \<lparr>HVersion = buf ! 0, MsgType = buf ! 1, ConnID = be32 (drop 2 (take 6 buf)), PayloadLen = be32 (drop 6 (take 10 buf))\<rparr>"

definition ReadStreamHeader :: "(nat \<Rightarrow> 'c \<Rightarrow> (error + bytes) \<times> 'c) \<Rightarrow> 'c \<Rightarrow> (error + StreamHeader) \<times> 'c" where
  "ReadStreamHeader rd = bind_io (rd StreamHeaderSize) (\<lambda>buf. ret_io (parse_header buf))"

lemma length_header_bytes [simp]: "length (header_bytes t c n) = 10"
  by (simp add: header_bytes_def)

lemma parse_header_bytes:
  "parse_header (header_bytes t c n @ xs) = \<lparr>HVersion = 1, MsgType = t, ConnID = c, PayloadLen = n\<rparr>"
  by (simp add: parse_header_def header_bytes_def be_simps Version_def)

subsection \<open>Connect requests\<close>

record ConnectRequest =
  ReqNetwork :: string
  ReqAddress :: string

definition EncodeConnectRequest :: "ConnectRequest \<Rightarrow> bytes" where
  "EncodeConnectRequest req =
     (let netBytes = go_bytes (ReqNetwork req);
          addrBytes = go_bytes (ReqAddress req)
      in put_be16 (of_nat (length netBytes)) @ netBytes @ put_be16 (of_nat (length addrBytes)) @ addrBytes)"

text \<open>The sum \<^verbatim>\<open>2+netLen\<close> is a \<^verbatim>\<open>uint16\<close>.\<close>

definition DecodeConnectRequest :: "bytes \<Rightarrow> ConnectRequest go" where
  "DecodeConnectRequest data =
     (if length data < 4 then Err (Errorf ''payload too short'')
      else
        (let netLen = be16 (take 2 data)
         in if length data < 4 + unat netLen then Err (Errorf ''invalid network length'')
            else
              (case go_slice data 2 (unat (2 + netLen)) of
                 Ok network \<Rightarrow>
                   (let off = unat (2 + netLen)
                    in case go_slice data off (off + 2) of
                         Ok al \<Rightarrow>
                           (let addrLen = be16 al; off = off + 2
                            in if length data < off + unat addrLen then Err (Errorf ''invalid address length'')
                               else
                                 (case go_slice data off (off + unat addrLen) of
                                    Ok address \<Rightarrow>
                                      Ok \<lparr>ReqNetwork = go_string network, ReqAddress = go_string address\<rparr>
                                  | Err e \<Rightarrow> Err e
                                  | Panic m \<Rightarrow> Panic m))
                       | Err e \<Rightarrow> Err e
                       | Panic m \<Rightarrow> Panic m)
               | Err e \<Rightarrow> Err e
               | Panic m \<Rightarrow> Panic m)))"

lemma unat_two_plus:
  "unat (2 + n :: u16) = (if unat n < 65534 then 2 + unat n else unat n - 65534)"
proof -
  have "unat (2 + n) = (2 + unat n) mod 65536"
    by (simp add: unat_word_ariths)
  then show ?thesis
    using unsigned_less [of n, where 'a = nat] by (auto simp: mod_if)
qed

lemma unat_be16: "unat (be16 (hi # lo # xs)) = unat hi * 256 + unat lo"
proof -
  have "push_bit 8 (ucast hi :: u16) OR ucast lo = push_bit 8 (ucast hi) + ucast lo"
    by (rule disjunctive_add [symmetric]) (auto simp: bit_simps dest: bit_imp_le_length)
  moreover have "unat hi < 256" "unat lo < 256"
    using unsigned_less [of hi, where 'a = nat] unsigned_less [of lo, where 'a = nat] by simp_all
  ultimately show ?thesis
    by (simp add: push_bit_eq_mult unat_word_ariths unsigned_ucast_eq take_bit_eq_mod)
qed

lemma Decode_no_wrap:
  assumes "4 \<le> length data" "4 + unat (be16 (take 2 data)) \<le> length data" "unat (be16 (take 2 data)) < 65534"
  shows "DecodeConnectRequest data =
    (let n = unat (be16 (take 2 data)); m = unat (be16 (drop (2 + n) (take (4 + n) data)))
     in if length data < 4 + n + m then Err (Errorf ''invalid address length'')
        else Ok \<lparr>ReqNetwork = go_string (drop 2 (take (2 + n) data)),
                 ReqAddress = go_string (drop (4 + n) (take (4 + n + m) data))\<rparr>)"
proof -
  let ?n = "unat (be16 (take 2 data))"
  have "unat (2 + be16 (take 2 data)) = 2 + ?n"
    using assms(3) by (simp add: unat_two_plus)
  then show ?thesis
    using assms
    by (simp add: DecodeConnectRequest_def Let_def go_simps add.assoc [of 2] add.commute [of _ 2]
        del: add_2_eq_Suc add_2_eq_Suc')
qed

lemma Decode_panic:
  "(\<exists>m. DecodeConnectRequest data = Panic m) \<longleftrightarrow>
     4 + unat (be16 (take 2 data)) \<le> length data \<and> 65534 \<le> unat (be16 (take 2 data))"
proof (cases "4 \<le> length data \<and> 4 + unat (be16 (take 2 data)) \<le> length data")
  case True
  show ?thesis
  proof (cases "unat (be16 (take 2 data)) < 65534")
    case False
    moreover have "unat (be16 (take 2 data)) < 65536"
      using unsigned_less [of "be16 (take 2 data)", where 'a = nat] by simp
    ultimately have "unat (2 + be16 (take 2 data)) < 2"
      by (simp add: unat_two_plus)
    then show ?thesis
      using True False by (simp add: DecodeConnectRequest_def Let_def go_simps)
  next
    case True': True
    show ?thesis
      using True True' Decode_no_wrap [of data] by (simp add: Let_def)
  qed
next
  case False
  then show ?thesis
    by (auto simp: DecodeConnectRequest_def Let_def)
qed

lemma length_EncodeConnectRequest:
  "length (EncodeConnectRequest req) = 4 + length (ReqNetwork req) + length (ReqAddress req)"
  by (simp add: EncodeConnectRequest_def str_simps)

lemma Decode_Encode:
  assumes "length (ReqNetwork req) < 65536" "length (ReqAddress req) < 65536"
  shows "if length (ReqNetwork req) < 65534 then DecodeConnectRequest (EncodeConnectRequest req @ junk) = Ok req
         else \<exists>m. DecodeConnectRequest (EncodeConnectRequest req @ junk) = Panic m"
proof -
  let ?d = "EncodeConnectRequest req @ junk"
  let ?n = "length (ReqNetwork req)" and ?m = "length (ReqAddress req)"
  have hd: "unat (be16 (take 2 ?d)) = ?n" and len: "length ?d = 4 + ?n + ?m + length junk"
    using assms by (simp_all add: EncodeConnectRequest_def be_simps unat_of_nat str_simps)
  have nw: "drop 2 (take (2 + ?n) ?d) = go_bytes (ReqNetwork req)"
    and al: "drop (2 + ?n) (take (4 + ?n) ?d) = put_be16 (of_nat ?m)"
    and ad: "drop (4 + ?n) (take (4 + ?n + ?m) ?d) = go_bytes (ReqAddress req)"
    by (simp_all add: EncodeConnectRequest_def)
  have "unat (be16 (drop (2 + ?n) (take (4 + ?n) ?d))) = ?m"
    unfolding al using assms by (simp add: be_simps unat_of_nat)
  then show ?thesis
    using Decode_no_wrap [of ?d] Decode_panic [of ?d] hd len nw ad
    by (simp add: Let_def str_simps)
qed

text \<open>
  C23: A connect request whose network name has fewer than 65534 bytes and whose address has
  fewer than 65536 survives the trip: decoding its encoding, with anything after it, gives it
  back.  The bound on the network name is exact: with 65534 or 65535 bytes the decoder panics.
\<close>

theorem connect_request_roundtrip:
  assumes "length (ReqNetwork req) < 65536" "length (ReqAddress req) < 65536"
  shows "if length (ReqNetwork req) < 65534 then DecodeConnectRequest (EncodeConnectRequest req @ junk) = Ok req
         else \<exists>m. DecodeConnectRequest (EncodeConnectRequest req @ junk) = Panic m"
  using assms by (rule Decode_Encode)

theorem connect_request_roundtrip_witness:
  "DecodeConnectRequest (EncodeConnectRequest \<lparr>ReqNetwork = ''tcp'', ReqAddress = ''a:1''\<rparr> @ [7])
     = Ok \<lparr>ReqNetwork = ''tcp'', ReqAddress = ''a:1''\<rparr>"
  using connect_request_roundtrip [of "\<lparr>ReqNetwork = ''tcp'', ReqAddress = ''a:1''\<rparr>" "[7]"] by simp

text \<open>
  Decoding any bytes ends in a value, an error or a panic, and the panic is reachable from
  the wire exactly when the first two bytes announce 65534 or 65535 bytes of network name and
  the message is long enough to pass the length check: the sum \<^verbatim>\<open>2+netLen\<close> wraps below 2.
\<close>

theorem DecodeConnectRequest_panics_iff:
  "(\<exists>m. DecodeConnectRequest data = Panic m) \<longleftrightarrow>
     (\<exists>lo rest. data = 255 # lo # rest \<and> lo \<in> {254, 255} \<and> 65536 + (if lo = 255 then 1 else 0) \<le> length rest)"
proof (cases data rule: be16.cases)
  case (1 hi lo rest)
  have "255 * 256 + 254 \<le> unat hi * 256 + unat lo \<longleftrightarrow> unat hi = 255 \<and> (unat lo = 254 \<or> unat lo = 255)"
    using unsigned_less [of hi, where 'a = nat] unsigned_less [of lo, where 'a = nat]
    by (cases "unat hi = 255") (simp_all, linarith+)
  then have "4 + unat (be16 (take 2 data)) \<le> length data \<and> 65534 \<le> unat (be16 (take 2 data)) \<longleftrightarrow>
      unat hi = 255 \<and> (unat lo = 254 \<and> 65536 \<le> length rest \<or> unat lo = 255 \<and> 65537 \<le> length rest)"
    unfolding 1 by (auto simp: unat_be16 simp del: be16.simps)
  moreover have "unat hi = 255 \<longleftrightarrow> hi = 255" "unat lo = 254 \<longleftrightarrow> lo = 254" "unat lo = 255 \<longleftrightarrow> lo = 255"
    by (simp_all add: word_unat_eq_iff)
  ultimately show ?thesis
    unfolding Decode_panic by (auto simp: 1)
qed (auto simp: Decode_panic)

end
