(* ===== verification/Dpi_Server.thy ===== *)
theory Dpi_Server
  imports Dpi_Common
begin

text \<open>
  \<^verbatim>\<open>dpi/server/handler.go\<close> and \<^verbatim>\<open>server.go\<close>: the tunnel server.  A \<^verbatim>\<open>clientConn\<close> is an object in a
  store and the registry maps a connection id to its address there, because a later registration
  under the same id replaces the pointer while the old object and its goroutine live on.  The
  remote connection is part of the object: the bytes written to it, whether it is closed, and (for
  the specification only) what was read from it and what was taken from the channel.  The handlers
  are functions from the request and the server state; dialling and the outcome of a write are
  arguments.  The goroutine of \<^verbatim>\<open>handleConnect\<close> and the loop of \<^verbatim>\<open>handleDownload\<close> are step relations,
  one rule per channel operation.
\<close>

subsection \<open>HTTP messages\<close>

record http_request =
  Method :: string
  Path :: string
  Body :: "error + bytes"

record http_response =
  Status :: nat
  RespBody :: string
  Location :: string

definition reply :: "string \<Rightarrow> http_response" where
  "reply b = \<lparr>Status = 200, RespBody = b, Location = []\<rparr>"

definition http_Error :: "string \<Rightarrow> nat \<Rightarrow> http_response" where
  "http_Error msg code = \<lparr>Status = code, RespBody = msg @ [CHR 0x0A], Location = []\<rparr>"

definition status_ok :: string where
  "status_ok = ''{\"status\":\"ok\"}''"

definition connect_failed :: string where
  "connect_failed = ''{\"status\":\"error\",\"msg\":\"connect failed\"}''"

subsection \<open>State\<close>

text \<open>
  Where the goroutine of \<^verbatim>\<open>handleConnect\<close> is: before \<^verbatim>\<open>remote.Read\<close>, at the \<^verbatim>\<open>select\<close> with a chunk and
  the error that came with it, before \<^verbatim>\<open>close(cc.dataCh)\<close>, and in the two deferred calls.
\<close>

datatype pump_pc =
  Reading | Sending bytes "error option" | ClosingCh | ClosingRemote | Unregistering | Ended

record clientConn =
  connID :: u32
  targetAddr :: string
  rout :: bytes
  rclosed :: bool
  dataCh :: "bytes list"
  chClosed :: bool
  pump :: pump_pc
  rread :: bytes
  taken :: "bytes list"

record server =
  clients :: "u32 \<rightharpoonup> nat"
  conns :: "clientConn list"
  stopCh :: bool

definition dataCh_cap :: nat where "dataCh_cap = 16"

definition new_server :: server where
  "new_server = \<lparr>clients = Map.empty, conns = [], stopCh = False\<rparr>"

definition registerClient :: "u32 \<Rightarrow> nat \<Rightarrow> server \<Rightarrow> server" where
  "registerClient i p s = s\<lparr>clients := (clients s)(i \<mapsto> p)\<rparr>"

definition unregisterClient :: "u32 \<Rightarrow> server \<Rightarrow> server" where
  "unregisterClient i s = s\<lparr>clients := (clients s)(i := None)\<rparr>"

definition getClient :: "u32 \<Rightarrow> server \<Rightarrow> nat option" where
  "getClient i s = clients s i"

definition set_conn :: "nat \<Rightarrow> clientConn \<Rightarrow> server \<Rightarrow> server" where
  "set_conn p c s = s\<lparr>conns := (conns s)[p := c]\<rparr>"

subsection \<open>The remote side\<close>

text \<open>
  What the network does: the error of a dial, and the outcome of a write that fails (how many
  bytes left before the error).
\<close>

record network =
  dial_err :: "string \<Rightarrow> string \<Rightarrow> error option"
  write_err :: "nat \<Rightarrow> bytes \<Rightarrow> (nat \<times> error) option"

definition ErrClosed :: error where
  "ErrClosed = NetErr False ''use of closed network connection''"

definition remote_Write :: "network \<Rightarrow> nat \<Rightarrow> bytes \<Rightarrow> server \<Rightarrow> error option \<times> server" where
  "remote_Write nw p bs s =
     (let c = conns s ! p
      in if rclosed c then (Some ErrClosed, s)
         else (case write_err nw p bs of
                 None \<Rightarrow> (None, set_conn p (c\<lparr>rout := rout c @ bs\<rparr>) s)
               | Some (n, e) \<Rightarrow> (Some e, set_conn p (c\<lparr>rout := rout c @ take n bs\<rparr>) s)))"

definition remote_Close :: "nat \<Rightarrow> server \<Rightarrow> server" where
  "remote_Close p s = set_conn p ((conns s ! p)\<lparr>rclosed := True\<rparr>) s"

subsection \<open>Uploads\<close>

definition new_clientConn :: "u32 \<Rightarrow> string \<Rightarrow> clientConn" where
  "new_clientConn i addr =
     \<lparr>connID = i, targetAddr = addr, rout = [], rclosed = False, dataCh = [], chClosed = False,
      pump = Reading, rread = [], taken = []\<rparr>"

definition connect_ok :: "u32 \<Rightarrow> string" where
  "connect_ok i = ''{\"status\":\"ok\",\"conn_id\":'' @ Itoa (unat i) @ ''}''"

definition handleConnect :: "network \<Rightarrow> u32 \<Rightarrow> ConnectRequest \<Rightarrow> server \<Rightarrow> http_response \<times> server" where
  "handleConnect nw i req s =
     (case dial_err nw (ReqNetwork req) (ReqAddress req) of
        Some e \<Rightarrow> (reply connect_failed, s)
      | None \<Rightarrow>
          (reply (connect_ok i),
           registerClient i (length (conns s)) (s\<lparr>conns := conns s @ [new_clientConn i (ReqAddress req)]\<rparr>)))"

definition handle_data :: "network \<Rightarrow> u32 \<Rightarrow> bytes \<Rightarrow> server \<Rightarrow> server" where
  "handle_data nw i payload s =
     (case getClient i s of
        None \<Rightarrow> s
      | Some p \<Rightarrow>
          (case remote_Write nw p payload s of
             (None, s') \<Rightarrow> s'
           | (Some e, s') \<Rightarrow> unregisterClient i (remote_Close p s')))"

definition handle_close :: "u32 \<Rightarrow> server \<Rightarrow> server" where
  "handle_close i s =
     (case getClient i s of
        None \<Rightarrow> s
      | Some p \<Rightarrow> unregisterClient i (remote_Close p s))"

definition handle_message :: "network \<Rightarrow> StreamHeader \<Rightarrow> bytes \<Rightarrow> server \<Rightarrow> http_response go \<times> server" where
  "handle_message nw hdr payload s =
     (if MsgType hdr = MsgConnect then
        (if unat (PayloadLen hdr) \<noteq> length payload then (Ok (http_Error ''Bad Request'' 400), s)
         else
           (case DecodeConnectRequest payload of
              Panic m \<Rightarrow> (Panic m, s)
            | Err e \<Rightarrow> (Ok (http_Error ''Bad Request'' 400), s)
            | Ok req \<Rightarrow> (case handleConnect nw (ConnID hdr) req s of (r, s') \<Rightarrow> (Ok r, s'))))
      else if MsgType hdr = MsgData then (Ok (reply status_ok), handle_data nw (ConnID hdr) payload s)
      else if MsgType hdr = MsgClose then (Ok (reply status_ok), handle_close (ConnID hdr) s)
      else (Ok (reply status_ok), s))"

definition handleTunnel :: "AEAD \<Rightarrow> network \<Rightarrow> http_request \<Rightarrow> server \<Rightarrow> http_response go \<times> server" where
  "handleTunnel a nw r s =
     (if Method r \<noteq> ''POST'' \<and> Method r \<noteq> ''PUT'' then (Ok (http_Error ''Method Not Allowed'' 405), s)
      else
        (case Body r of
           Inl e \<Rightarrow> (Ok (http_Error ''Bad Request'' 400), s)
         | Inr body \<Rightarrow>
             if body = [] then (Ok (reply status_ok), s)
             else
               (case DecryptStream a body of
                  Inl e \<Rightarrow> (Ok (http_Error ''Bad Request'' 400), s)
                | Inr decrypted \<Rightarrow>
                    if length decrypted < StreamHeaderSize then (Ok (http_Error ''Bad Request'' 400), s)
                    else handle_message nw (parse_header decrypted) (drop 10 decrypted) s)))"

subsection \<open>Downloads\<close>

text \<open>
  \<^verbatim>\<open>fmt.Sscanf(s, "%d", &connID)\<close>: spaces are skipped (a newline is an error), the longest run of
  digits is the number, the rest is ignored, and a number beyond the width is an error.
\<close>

definition scan_blank :: "char \<Rightarrow> bool" where
  "scan_blank c \<longleftrightarrow> is_space c \<and> c \<noteq> CHR 0x0A"

definition Sscanf_u32 :: "string \<Rightarrow> u32 option" where
  "Sscanf_u32 str =
     (case parse_base 10 (takeWhile (\<lambda>c. digit_in 10 c \<noteq> None) (dropWhile scan_blank str)) of
        None \<Rightarrow> None
      | Some n \<Rightarrow> if n < 2 ^ 32 then Some (of_nat n) else None)"

lemma Itoa_digit: "c \<in> set (Itoa n) \<Longrightarrow> \<exists>d < 10. c = digit_char d"
  using digits_less [of 10 n] by (auto simp: print_base_def)

lemma digit_not_blank: "d < 10 \<Longrightarrow> \<not> scan_blank (digit_char d)"
  by (auto simp: scan_blank_def is_space_def digit_char_def char_of_eq_iff take_bit_eq_mod)

lemma Sscanf_Itoa: "Sscanf_u32 (Itoa (unat i)) = Some i"
proof -
  have "\<forall>c \<in> set (Itoa (unat i)). digit_in 10 c \<noteq> None \<and> \<not> scan_blank c"
    using Itoa_digit digit_in_char digit_not_blank by fastforce
  then have "takeWhile (\<lambda>c. digit_in 10 c \<noteq> None) (dropWhile scan_blank (Itoa (unat i))) = Itoa (unat i)"
    by (simp add: dropWhile_eq_self_iff takeWhile_eq_all_conv)
  then show ?thesis
    unfolding Sscanf_u32_def using unsigned_less [of i, where 'a = nat] by (simp add: parse_print)
qed

datatype download_start = Refused http_response | Streaming u32 nat

definition handleDownload :: "http_request \<Rightarrow> server \<Rightarrow> download_start" where
  "handleDownload r s =
     (if Method r \<noteq> ''GET'' \<and> Method r \<noteq> ''HEAD'' then Refused (http_Error ''Method Not Allowed'' 405)
      else
        (let connIDStr = TrimPrefix (Path r) ''/download/''
         in if connIDStr = [] then Refused (http_Error ''Not Found'' 404)
            else
              (case Sscanf_u32 connIDStr of
                 None \<Rightarrow> Refused (http_Error ''Not Found'' 404)
               | Some i \<Rightarrow>
                   (case getClient i s of
                      None \<Rightarrow> Refused (http_Error ''Not Found'' 404)
                    | Some p \<Rightarrow> Streaming i p))))"

definition uint32ToBytes :: "u32 \<Rightarrow> bytes" where
  "uint32ToBytes v = put_be32 v"

definition download_payload :: "u32 \<Rightarrow> bytes \<Rightarrow> bytes" where
  "download_payload i data =
     [Version, MsgData] @ uint32ToBytes i @ uint32ToBytes (of_nat (length data)) @ data"

text \<open>The body of the loop for one chunk: seal it, write its length, write it.\<close>

definition send_chunk :: "AEAD \<Rightarrow> ('w \<Rightarrow> bytes \<Rightarrow> (nat \<times> error option) \<times> 'w) \<Rightarrow> u32 \<Rightarrow> error + bytes \<Rightarrow> bytes \<Rightarrow> 'w \<Rightarrow> (error + unit) \<times> 'w" where
  "send_chunk a wr i rnd data =
     (case EncryptStream a rnd (download_payload i data) of
        Inl e \<Rightarrow> fail_io e
      | Inr encrypted \<Rightarrow>
          bind_io (put_io wr (put_be32 (of_nat (length encrypted)))) (\<lambda>_. put_io wr encrypted))"

subsection \<open>Routes\<close>

text \<open>
  The routes of \<^verbatim>\<open>NewServer\<close> on a clean path (\<^verbatim>\<open>http.ServeMux\<close> redirects the others to their clean
  form first, and a subtree without its final slash to the path with it).
\<close>

datatype route = ToTunnel | ToDownload | ToRoot | ToSlash

definition mux :: "string \<Rightarrow> route" where
  "mux path =
     (if HasPrefix path ''/.well-known/cdn-cache/'' then ToTunnel
      else if path = ''/api/v2/upload'' then ToTunnel
      else if HasPrefix path ''/download/'' then ToDownload
      else if path = ''/.well-known/cdn-cache'' \<or> path = ''/download'' then ToSlash
      else ToRoot)"

definition root_page :: string where
  "root_page = ''<!DOCTYPE html><html><head><title>Service</title></head><body><h1>Service Unavailable</h1></body></html>''"

definition handleRoot :: "string \<Rightarrow> http_response" where
  "handleRoot redirectURL =
     (if redirectURL \<noteq> [] then \<lparr>Status = 302, RespBody = [], Location = redirectURL\<rparr>
      else reply root_page)"

definition normalizeAppProtocol :: "string \<Rightarrow> error + string" where
  "normalizeAppProtocol protocol =
     (if protocol = [] \<or> protocol = ''auto'' then Inr ''auto''
      else if protocol = ''h1'' \<or> protocol = ''h2'' then Inr protocol
      else if protocol = ''h3'' then Inl (Errorf ''protocol h3 is not implemented yet'')
      else Inl (Errorf (''invalid protocol '' @ protocol)))"

definition tlsNextProtos :: "string \<Rightarrow> bool \<Rightarrow> string list" where
  "tlsNextProtos protocol withACME =
     (if protocol = ''h1'' then (if withACME then [''http/1.1'', ''acme-tls/1''] else [''http/1.1''])
      else if withACME then [''h2'', ''http/1.1'', ''acme-tls/1'']
      else [''h2'', ''http/1.1''])"

text \<open>
  \<^verbatim>\<open>randomFilename\<close>, from the bytes its two calls of the random source deliver.
\<close>

definition letter :: "byte \<Rightarrow> char" where
  "letter b = char_of (97 + unat b mod 26)"

definition randomFilename :: "bytes \<Rightarrow> bytes \<Rightarrow> string" where
  "randomFilename r1 r2 =
     (let b = map letter (take 16 r1);
          extLen = 2 + of_char (b ! 0) mod 5
      in b @ ''.'' @ map letter (take extLen r2))"

subsection \<open>Configuration and listeners\<close>

record Config =
  HTTPAddr :: string
  HTTPSAddr :: string
  TLSCertFile :: string
  TLSKeyFile :: string
  ACMEEmail :: string
  ACMEDomain :: string
  SelfSigned :: bool
  RedirectURL :: string
  EncryptionKey :: bytes
  CertDir :: string
  Protocol :: string

datatype cert_source = Autocert string string | Certificate string

record tls_config =
  Certs :: cert_source
  NextProtos :: "string list"

text \<open>
  \<open>exeDir\<close> is the directory of the executable; \<open>load\<close> and \<open>generate\<close> are the outcomes of
  \<^verbatim>\<open>tls.LoadX509KeyPair\<close> on the two files and of making a self-signed pair.
\<close>

definition buildTLSConfig :: "string \<Rightarrow> (string \<Rightarrow> string \<Rightarrow> error + string) \<Rightarrow> error + string \<Rightarrow> Config \<Rightarrow> error + tls_config" where
  "buildTLSConfig exeDir load generate cfg =
     (case normalizeAppProtocol (Protocol cfg) of
        Inl e \<Rightarrow> Inl e
      | Inr proto \<Rightarrow>
          if ACMEEmail cfg \<noteq> [] \<and> ACMEDomain cfg \<noteq> [] then
            Inr \<lparr>Certs = Autocert (ACMEDomain cfg) (if CertDir cfg = [] then exeDir else CertDir cfg),
                 NextProtos = tlsNextProtos proto True\<rparr>
          else if TLSCertFile cfg \<noteq> [] \<and> TLSKeyFile cfg \<noteq> [] then
            (case load (TLSCertFile cfg) (TLSKeyFile cfg) of
               Inl e \<Rightarrow> Inl e
             | Inr cert \<Rightarrow> Inr \<lparr>Certs = Certificate cert, NextProtos = tlsNextProtos proto False\<rparr>)
          else if SelfSigned cfg then
            (case generate of
               Inl e \<Rightarrow> Inl e
             | Inr cert \<Rightarrow> Inr \<lparr>Certs = Certificate cert, NextProtos = tlsNextProtos proto False\<rparr>)
          else Inl (Errorf ''no TLS configuration (cert+key, ACME, or self-signed)''))"

datatype listener = Plain string | Tls string tls_config

text \<open>\<^verbatim>\<open>Run\<close>: its error and the listeners it has started; \<open>listen\<close> is the error of \<^verbatim>\<open>net.Listen\<close>.\<close>

definition run_http :: "(string \<Rightarrow> error option) \<Rightarrow> Config \<Rightarrow> error option \<times> listener list" where
  "run_http listen cfg =
     (if HTTPAddr cfg = [] then (None, [])
      else (case listen (HTTPAddr cfg) of Some e \<Rightarrow> (Some e, []) | None \<Rightarrow> (None, [Plain (HTTPAddr cfg)])))"

definition Run :: "(string \<Rightarrow> error option) \<Rightarrow> error + tls_config \<Rightarrow> Config \<Rightarrow> error option \<times> listener list" where
  "Run listen tls cfg =
     (case run_http listen cfg of
        (Some e, ls) \<Rightarrow> (Some e, ls)
      | (None, ls) \<Rightarrow>
          if HTTPSAddr cfg = [] then (None, ls)
          else
            (case tls of
               Inl e \<Rightarrow> (Some e, ls)
             | Inr tc \<Rightarrow>
                 (case listen (HTTPSAddr cfg) of
                    Some e \<Rightarrow> (Some e, ls)
                  | None \<Rightarrow> (None, ls @ [Tls (HTTPSAddr cfg) tc]))))"

subsection \<open>Concurrency\<close>

definition Shutdown :: "server \<Rightarrow> server go" where
  "Shutdown s = (if stopCh s then Panic ''close of closed channel'' else Ok (s\<lparr>stopCh := True\<rparr>))"

text \<open>
  The goroutine that \<^verbatim>\<open>handleConnect\<close> starts for the object at \<open>p\<close>.  A read delivers any chunk that
  fits the buffer, with or without an error; a closed remote delivers none.
\<close>

definition next_read :: "error option \<Rightarrow> pump_pc" where
  "next_read e = (case e of None \<Rightarrow> Reading | Some _ \<Rightarrow> ClosingCh)"

inductive pump_step :: "nat \<Rightarrow> server \<Rightarrow> server \<Rightarrow> bool" for p where
  read_data: "\<lbrakk>p < length (conns s); c = conns s ! p; pump c = Reading; \<not> rclosed c; 0 < length bs; length bs \<le> 32 * 1024\<rbrakk>
    \<Longrightarrow> pump_step p s (set_conn p (c\<lparr>pump := Sending bs e, rread := rread c @ bs\<rparr>) s)"
| read_none: "\<lbrakk>p < length (conns s); c = conns s ! p; pump c = Reading; rclosed c \<longrightarrow> e = Some ErrClosed\<rbrakk>
    \<Longrightarrow> pump_step p s (set_conn p (c\<lparr>pump := next_read e\<rparr>) s)"
| send: "\<lbrakk>p < length (conns s); c = conns s ! p; pump c = Sending bs e; \<not> chClosed c; length (dataCh c) < dataCh_cap\<rbrakk>
    \<Longrightarrow> pump_step p s (set_conn p (c\<lparr>dataCh := dataCh c @ [bs], pump := next_read e\<rparr>) s)"
| stop: "\<lbrakk>p < length (conns s); c = conns s ! p; pump c = Sending bs e; stopCh s\<rbrakk>
    \<Longrightarrow> pump_step p s (set_conn p (c\<lparr>pump := ClosingRemote\<rparr>) s)"
| close_ch: "\<lbrakk>p < length (conns s); c = conns s ! p; pump c = ClosingCh\<rbrakk>
    \<Longrightarrow> pump_step p s (set_conn p (c\<lparr>chClosed := True, pump := ClosingRemote\<rparr>) s)"
| close_remote: "\<lbrakk>p < length (conns s); c = conns s ! p; pump c = ClosingRemote\<rbrakk>
    \<Longrightarrow> pump_step p s (set_conn p (c\<lparr>rclosed := True, pump := Unregistering\<rparr>) s)"
| unregister: "\<lbrakk>p < length (conns s); c = conns s ! p; pump c = Unregistering\<rbrakk>
    \<Longrightarrow> pump_step p s (unregisterClient (connID c) (set_conn p (c\<lparr>pump := Ended\<rparr>) s))"

text \<open>One receive of a download handler from the channel of the object at \<open>p\<close>.\<close>

inductive take_step :: "nat \<Rightarrow> server \<Rightarrow> bytes option \<Rightarrow> server \<Rightarrow> bool" for p where
  take_chunk: "\<lbrakk>p < length (conns s); c = conns s ! p; dataCh c = bs # rest\<rbrakk>
    \<Longrightarrow> take_step p s (Some bs) (set_conn p (c\<lparr>dataCh := rest, taken := taken c @ [bs]\<rparr>) s)"
| take_closed: "\<lbrakk>p < length (conns s); c = conns s ! p; dataCh c = []; chClosed c\<rbrakk>
    \<Longrightarrow> take_step p s None s"

inductive server_step :: "AEAD \<Rightarrow> server \<Rightarrow> server \<Rightarrow> bool" for a where
  upload: "handleTunnel a nw r s = (res, s') \<Longrightarrow> server_step a s s'"
| goroutine: "pump_step p s s' \<Longrightarrow> server_step a s s'"
| download: "take_step p s x s' \<Longrightarrow> server_step a s s'"
| shutdown: "Shutdown s = Ok s' \<Longrightarrow> server_step a s s'"

inductive server_reachable :: "AEAD \<Rightarrow> server \<Rightarrow> bool" for a where
  start: "server_reachable a new_server"
| step: "server_reachable a s \<Longrightarrow> server_step a s s' \<Longrightarrow> server_reachable a s'"

subsection \<open>Invariant\<close>

text \<open>
  Everything read from the remote has been taken from the channel, waits in it, or is in the
  goroutine's hand, in this order; only a shutdown loses what is in its hand, and then the channel
  is never closed.
\<close>

definition queued :: "clientConn \<Rightarrow> bytes" where
  "queued c = concat (taken c) @ concat (dataCh c)"

fun pump_ok :: "clientConn \<Rightarrow> pump_pc \<Rightarrow> bool" where
  "pump_ok c (Sending bs e) \<longleftrightarrow> rread c = queued c @ bs \<and> \<not> chClosed c \<and> 0 < length bs \<and> length bs \<le> 32 * 1024"
| "pump_ok c Reading \<longleftrightarrow> rread c = queued c \<and> \<not> chClosed c"
| "pump_ok c ClosingCh \<longleftrightarrow> rread c = queued c \<and> \<not> chClosed c"
| "pump_ok c ClosingRemote \<longleftrightarrow> (chClosed c \<longrightarrow> rread c = queued c) \<and> (\<exists>lost. rread c = queued c @ lost)"
| "pump_ok c _ \<longleftrightarrow> (chClosed c \<longrightarrow> rread c = queued c) \<and> (\<exists>lost. rread c = queued c @ lost) \<and> rclosed c"

definition conn_ok :: "clientConn \<Rightarrow> bool" where
  "conn_ok c \<longleftrightarrow> pump_ok c (pump c) \<and> length (dataCh c) \<le> dataCh_cap \<and>
     (\<forall>bs\<in>set (taken c @ dataCh c). 0 < length bs \<and> length bs \<le> 32 * 1024)"

definition server_ok :: "server \<Rightarrow> bool" where
  "server_ok s \<longleftrightarrow> (\<forall>c\<in>set (conns s). conn_ok c) \<and>
     (\<forall>i p. clients s i = Some p \<longrightarrow>
        p < length (conns s) \<and> connID (conns s ! p) = i \<and> pump (conns s ! p) \<noteq> Ended)"

lemma set_conn_simps [simp]:
  "clients (set_conn p c s) = clients s"
  "conns (set_conn p c s) = (conns s)[p := c]"
  "stopCh (set_conn p c s) = stopCh s"
  by (simp_all add: set_conn_def)

lemma unregisterClient_simps [simp]:
  "clients (unregisterClient i s) = (clients s)(i := None)"
  "conns (unregisterClient i s) = conns s"
  "stopCh (unregisterClient i s) = stopCh s"
  by (simp_all add: unregisterClient_def)

lemma server_ok_conn: "server_ok s \<Longrightarrow> p < length (conns s) \<Longrightarrow> conn_ok (conns s ! p)"
  by (simp add: server_ok_def)

lemma server_ok_client:
  "server_ok s \<Longrightarrow> clients s i = Some p \<Longrightarrow> p < length (conns s) \<and> connID (conns s ! p) = i \<and> pump (conns s ! p) \<noteq> Ended"
  by (simp add: server_ok_def)

lemma server_ok_set_conn:
  assumes "server_ok s" "p < length (conns s)" "conn_ok c" "connID c = connID (conns s ! p)"
    "pump c = Ended \<Longrightarrow> pump (conns s ! p) = Ended"
  shows "server_ok (set_conn p c s)"
proof -
  have "\<forall>x\<in>set ((conns s)[p := c]). conn_ok x"
    using assms set_update_subset_insert [of "conns s" p c] by (auto simp: server_ok_def)
  then show ?thesis
    using assms by (auto simp: server_ok_def nth_list_update)
qed

lemma server_ok_unregister: "server_ok s \<Longrightarrow> server_ok (unregisterClient i s)"
  by (simp add: server_ok_def)

lemma server_ok_remote:
  assumes "server_ok s" "clients s i = Some p"
  shows "server_ok (set_conn p ((conns s ! p)\<lparr>rout := x\<rparr>) s)" "server_ok (remote_Close p s)"
proof -
  have *: "conn_ok (conns s ! p)" "p < length (conns s)" "pump (conns s ! p) \<noteq> Ended"
    using assms server_ok_client [OF assms] by (simp_all add: server_ok_conn)
  then have "conn_ok ((conns s ! p)\<lparr>rout := x\<rparr>)" "conn_ok ((conns s ! p)\<lparr>rclosed := True\<rparr>)"
    by (cases "pump (conns s ! p)"; simp add: conn_ok_def queued_def)+
  then show "server_ok (set_conn p ((conns s ! p)\<lparr>rout := x\<rparr>) s)" "server_ok (remote_Close p s)"
    using * assms by (auto simp: remote_Close_def intro!: server_ok_set_conn)
qed

lemma remote_Write_ok:
  assumes "server_ok s" "clients s i = Some p" "remote_Write nw p bs s = (e, s')"
  shows "server_ok s' \<and> clients s' = clients s"
  using assms server_ok_remote(1) [OF assms(1,2)]
  by (auto simp: remote_Write_def Let_def split: if_splits option.splits)

lemma handle_data_ok: "server_ok s \<Longrightarrow> server_ok (handle_data nw i bs s)"
proof (cases "clients s i")
  case (Some p)
  assume s: "server_ok s"
  obtain e s' where w: "remote_Write nw p bs s = (e, s')"
    by fastforce
  have s': "server_ok s'" "clients s' i = Some p"
    using remote_Write_ok [OF s Some w] Some by simp_all
  show ?thesis
    using s' server_ok_unregister [OF server_ok_remote(2) [OF s']]
    by (cases e) (simp_all add: handle_data_def getClient_def Some w)
qed (simp add: handle_data_def getClient_def)

lemma handle_close_ok: "server_ok s \<Longrightarrow> server_ok (handle_close i s)"
  by (cases "clients s i") (auto simp: handle_close_def getClient_def server_ok_unregister server_ok_remote(2))

lemma new_clientConn_ok: "conn_ok (new_clientConn i addr)" "connID (new_clientConn i addr) = i" "pump (new_clientConn i addr) = Reading" "\<not> rclosed (new_clientConn i addr)"
  by (simp_all add: conn_ok_def new_clientConn_def queued_def)

lemma handleConnect_ok: "server_ok s \<Longrightarrow> server_ok (snd (handleConnect nw i req s))"
  unfolding server_ok_def
  by (auto simp: handleConnect_def registerClient_def nth_append new_clientConn_ok less_Suc_eq split: option.splits)

lemma handleTunnel_ok:
  assumes "server_ok s"
  shows "server_ok (snd (handleTunnel a nw r s))"
proof -
  have "server_ok (snd (handle_message nw hdr payload s))" for hdr payload
    using handleConnect_ok [OF assms] assms
    by (simp add: handle_message_def handle_data_ok handle_close_ok case_prod_beta split: go.splits)
  then show ?thesis
    using assms by (auto simp: handleTunnel_def split: sum.splits)
qed

lemma set_conn_step:
  assumes "server_ok s" "p < length (conns s)" "c = conns s ! p"
    and "conn_ok c \<Longrightarrow> conn_ok c'" "connID c' = connID c" "pump c' = Ended \<Longrightarrow> pump c = Ended"
  shows "server_ok (set_conn p c' s)"
  using assms by (simp add: server_ok_conn server_ok_set_conn)

lemma pump_step_ok:
  assumes "pump_step p s s'" "server_ok s"
  shows "server_ok s'"
  using assms(1)
proof cases
  case (read_data c bs e)
  show ?thesis
    unfolding read_data(1) using read_data(4,6,7)
    by (intro set_conn_step [OF assms(2) read_data(2,3)]) (simp_all add: conn_ok_def queued_def)
next
  case (read_none c e)
  show ?thesis
    unfolding read_none(1) using read_none(4)
    by (intro set_conn_step [OF assms(2) read_none(2,3)]) (cases e; simp add: conn_ok_def queued_def next_read_def)+
next
  case (send c bs e)
  show ?thesis
    unfolding send(1) using send(4-6)
    by (intro set_conn_step [OF assms(2) send(2,3)]) (cases e; auto simp: conn_ok_def queued_def next_read_def)+
next
  case (stop c bs e)
  show ?thesis
    unfolding stop(1) using stop(4)
    by (intro set_conn_step [OF assms(2) stop(2,3)]) (simp_all add: conn_ok_def queued_def)
next
  case (close_ch c)
  show ?thesis
    unfolding close_ch(1) using close_ch(4)
    by (intro set_conn_step [OF assms(2) close_ch(2,3)]) (simp_all add: conn_ok_def queued_def)
next
  case (close_remote c)
  show ?thesis
    unfolding close_remote(1) using close_remote(4)
    by (intro set_conn_step [OF assms(2) close_remote(2,3)]) (simp_all add: conn_ok_def queued_def)
next
  case (unregister c)
  have "conn_ok c"
    using unregister(2,3) assms(2) by (simp add: server_ok_conn)
  then have "conn_ok (c\<lparr>pump := Ended\<rparr>)"
    using unregister(4) by (simp add: conn_ok_def queued_def)
  then have "\<forall>x\<in>set ((conns s)[p := c\<lparr>pump := Ended\<rparr>]). conn_ok x"
    using assms(2) set_update_subset_insert [of "conns s" p "c\<lparr>pump := Ended\<rparr>"] by (auto simp: server_ok_def)
  then show ?thesis
    using unregister(1-3) assms(2) by (auto simp: server_ok_def nth_list_update)
qed

lemma take_step_ok:
  assumes "take_step p s x s'" "server_ok s"
  shows "server_ok s'"
  using assms(1)
proof cases
  case (take_chunk c bs rest)
  let ?c = "c\<lparr>dataCh := rest, taken := taken c @ [bs]\<rparr>"
  have q: "queued ?c = queued c"
    using take_chunk(5) by (simp add: queued_def)
  have "pump_ok ?c k = pump_ok c k" for k
    by (cases k) (simp_all add: q)
  then have "conn_ok c \<Longrightarrow> conn_ok ?c"
    using take_chunk(5) by (simp add: conn_ok_def)
  then show ?thesis
    unfolding take_chunk(2) by (intro set_conn_step [OF assms(2) take_chunk(3,4)]) simp_all
next
  case take_closed
  then show ?thesis using assms(2) by simp
qed

lemma server_step_ok: "server_step a s s' \<Longrightarrow> server_ok s \<Longrightarrow> server_ok s'"
proof (induction rule: server_step.induct)
  case (upload nw r s res s')
  then show ?case using handleTunnel_ok [of s a nw r] by simp
next
  case (shutdown s s')
  then show ?case by (auto simp: Shutdown_def server_ok_def split: if_splits)
qed (auto dest: pump_step_ok take_step_ok)

lemma server_reachable_ok: "server_reachable a s \<Longrightarrow> server_ok s"
  by (induction rule: server_reachable.induct) (auto simp: server_step_ok, simp add: server_ok_def new_server_def)

subsection \<open>Messages as a client seals them\<close>

definition sealed :: "AEAD \<Rightarrow> bytes \<Rightarrow> byte \<Rightarrow> u32 \<Rightarrow> bytes \<Rightarrow> bytes" where
  "sealed a n t i payload = n @ Seal a n (header_bytes t i (of_nat (length payload)) @ payload)"

lemma handleTunnel_sealed:
  assumes "aead_ok a" "length n = NonceSize" "Method r = ''POST''" "Body r = Inr (sealed a n t i payload)"
  shows "handleTunnel a nw r s =
    handle_message nw \<lparr>HVersion = 1, MsgType = t, ConnID = i, PayloadLen = of_nat (length payload)\<rparr> payload s"
proof -
  have "sealed a n t i payload \<noteq> []"
    using assms(2) by (auto simp: sealed_def NonceSize_def)
  moreover have "Decrypt a (sealed a n t i payload) = Inr (header_bytes t i (of_nat (length payload)) @ payload)"
    using assms(1,2) by (simp add: sealed_def Decrypt_Encrypt)
  ultimately show ?thesis
    using assms(3,4) by (simp add: handleTunnel_def DecryptStream_def StreamHeaderSize_def parse_header_bytes)
qed

lemma Decode_small:
  assumes "length (ReqNetwork req) < 65534" "length (ReqAddress req) < 65536"
  shows "DecodeConnectRequest (EncodeConnectRequest req) = Ok req"
  using Decode_Encode [of req "[]"] assms by simp

lemma handle_message_connect:
  assumes "length (ReqNetwork req) < 65534" "length (ReqAddress req) < 65536"
  shows "handle_message nw \<lparr>HVersion = 1, MsgType = MsgConnect, ConnID = i, PayloadLen = of_nat (length (EncodeConnectRequest req))\<rparr>
      (EncodeConnectRequest req) s = (Ok (fst (handleConnect nw i req s)), snd (handleConnect nw i req s))"
proof -
  have "length (EncodeConnectRequest req) < 2 ^ 32"
    using assms by (simp add: length_EncodeConnectRequest)
  then show ?thesis
    using assms by (simp add: handle_message_def Decode_small case_prod_beta unat_of_nat)
qed

definition reliable :: network where
  "reliable = \<lparr>dial_err = (\<lambda>_ _. None), write_err = (\<lambda>_ _. None)\<rparr>"

lemma connect_step:
  assumes "aead_ok a"
  shows "server_step a s (registerClient i (length (conns s)) (s\<lparr>conns := conns s @ [new_clientConn i []]\<rparr>))"
proof -
  let ?req = "\<lparr>ReqNetwork = ''tcp'', ReqAddress = []\<rparr>"
  let ?n = "replicate 12 0"
  let ?r = "\<lparr>Method = ''POST'', Path = [], Body = Inr (sealed a ?n MsgConnect i (EncodeConnectRequest ?req))\<rparr>"
  have "handleTunnel a reliable ?r s = (Ok (reply (connect_ok i)), registerClient i (length (conns s)) (s\<lparr>conns := conns s @ [new_clientConn i []]\<rparr>))"
    using handleTunnel_sealed [OF assms, of ?n ?r MsgConnect i "EncodeConnectRequest ?req" reliable s]
      handle_message_connect [of ?req reliable i s]
    by (simp add: NonceSize_def handleConnect_def reliable_def)
  then show ?thesis
    by (rule server_step.upload)
qed

lemma pump_reachable: "server_reachable a s \<Longrightarrow> pump_step p s s' \<Longrightarrow> server_reachable a s'"
  by (blast intro: server_reachable.step server_step.goroutine)

text \<open>
  C21: In every reachable state of the server the channel of a connection holds at most 16 chunks
  of at most 32 KiB, what download handlers took from it followed by what waits in it is a prefix
  of what the remote sent, nothing is sent on a closed channel, and once the channel is closed
  nothing is missing: a download that sees the end has had every byte, in order.  Every entry of
  the registry points to an object registered under that id whose goroutine still runs.
\<close>

theorem server_channels_are_fifo:
  assumes "server_reachable a s" "p < length (conns s)" "c = conns s ! p"
  shows "length (dataCh c) \<le> 16 \<and>
    (\<exists>rest. rread c = concat (taken c) @ concat (dataCh c) @ rest \<and> (chClosed c \<longrightarrow> rest = [])) \<and>
    (\<forall>bs\<in>set (taken c @ dataCh c). 0 < length bs \<and> length bs \<le> 32 * 1024) \<and>
    (\<forall>bs e. pump c = Sending bs e \<longrightarrow> \<not> chClosed c) \<and>
    (\<forall>i q. getClient i s = Some q \<longrightarrow>
       q < length (conns s) \<and> connID (conns s ! q) = i \<and> pump (conns s ! q) \<noteq> Ended)"
proof -
  have ok: "server_ok s" and c: "conn_ok c"
    using assms server_reachable_ok server_ok_conn by blast+
  have "\<exists>rest. rread c = concat (taken c) @ concat (dataCh c) @ rest \<and> (chClosed c \<longrightarrow> rest = [])"
    using c by (cases "pump c") (auto simp: conn_ok_def queued_def)
  moreover have "pump c = Sending bs e \<Longrightarrow> \<not> chClosed c" for bs e
    using c by (simp add: conn_ok_def)
  ultimately show ?thesis
    using c server_ok_client [OF ok] by (auto simp: conn_ok_def dataCh_cap_def getClient_def)
qed

theorem server_channels_are_fifo_witness:
  "let s = registerClient 7 0 (new_server\<lparr>conns := [new_clientConn 7 []]\<rparr>);
       c = (new_clientConn 7 [])\<lparr>pump := Sending [1] None, rread := [1]\<rparr>
   in server_reachable plain_aead (set_conn 0 c s) \<and> length (dataCh c) \<le> 16"
proof -
  let ?s = "registerClient 7 0 (new_server\<lparr>conns := [new_clientConn 7 []]\<rparr>)"
  let ?c = "(new_clientConn 7 [])\<lparr>pump := Sending [1] None, rread := [1]\<rparr>"
  have "server_step plain_aead new_server ?s"
    using connect_step [OF plain_aead_ok, of new_server 7] by (simp add: new_server_def)
  then have "server_reachable plain_aead ?s"
    by (rule server_reachable.step [OF server_reachable.start])
  moreover have "pump_step 0 ?s (set_conn 0 ?c ?s)"
    using pump_step.read_data [of 0 ?s "new_clientConn 7 []" "[1]" None]
    by (simp add: registerClient_def new_clientConn_def)
  ultimately have "server_reachable plain_aead (set_conn 0 ?c ?s)"
    by (rule pump_reachable)
  then show ?thesis
    using server_channels_are_fifo [of plain_aead "set_conn 0 ?c ?s" 0 ?c] by (simp add: registerClient_def Let_def)
qed

text \<open>
  The goroutine of an object unregisters its id, whoever holds it: two connects under one id,
  then the end of the first remote, and the second connection is alive but not registered.
\<close>

definition two_clients :: "u32 \<Rightarrow> pump_pc \<Rightarrow> bool \<Rightarrow> bool \<Rightarrow> server" where
  "two_clients i k ch rc =
     \<lparr>clients = [i \<mapsto> 1],
      conns = [(new_clientConn i [])\<lparr>pump := k, chClosed := ch, rclosed := rc\<rparr>, new_clientConn i []],
      stopCh = False\<rparr>"

lemma two_clients_steps:
  "pump_step 0 (two_clients i Reading False False) (two_clients i ClosingCh False False)"
  "pump_step 0 (two_clients i ClosingCh False False) (two_clients i ClosingRemote True False)"
  "pump_step 0 (two_clients i ClosingRemote True False) (two_clients i Unregistering True True)"
  "pump_step 0 (two_clients i Unregistering True True) (unregisterClient i (two_clients i Ended True True))"
proof -
  show "pump_step 0 (two_clients i Reading False False) (two_clients i ClosingCh False False)"
    using pump_step.read_none [of 0 "two_clients i Reading False False" _ "Some EOF"]
    by (simp add: two_clients_def new_clientConn_def set_conn_def next_read_def)
  show "pump_step 0 (two_clients i ClosingCh False False) (two_clients i ClosingRemote True False)"
    using pump_step.close_ch [of 0 "two_clients i ClosingCh False False"]
    by (simp add: two_clients_def new_clientConn_def set_conn_def)
  show "pump_step 0 (two_clients i ClosingRemote True False) (two_clients i Unregistering True True)"
    using pump_step.close_remote [of 0 "two_clients i ClosingRemote True False"]
    by (simp add: two_clients_def new_clientConn_def set_conn_def)
  show "pump_step 0 (two_clients i Unregistering True True) (unregisterClient i (two_clients i Ended True True))"
    using pump_step.unregister [of 0 "two_clients i Unregistering True True"]
    by (simp add: two_clients_def new_clientConn_def set_conn_def)
qed

lemma two_clients_reachable:
  assumes "aead_ok a"
  shows "server_reachable a (unregisterClient i (two_clients i Ended True True))"
proof -
  let ?s = "registerClient i 0 (new_server\<lparr>conns := [new_clientConn i []]\<rparr>)"
  have "server_step a new_server ?s" "server_step a ?s (two_clients i Reading False False)"
    using connect_step [OF assms, of new_server i] connect_step [OF assms, of ?s i]
    by (simp_all add: new_server_def registerClient_def two_clients_def new_clientConn_def)
  then have "server_reachable a (two_clients i Reading False False)"
    by (blast intro: server_reachable.intros)
  then show ?thesis
    by (rule pump_reachable [OF pump_reachable [OF pump_reachable [OF pump_reachable
      [OF _ two_clients_steps(1)] two_clients_steps(2)] two_clients_steps(3)] two_clients_steps(4)])
qed

text \<open>
  The server can reach, for every connection id, a state in which a connection opened under
  this id has an open remote and a reading goroutine but is no longer registered: the deferred
  \<^verbatim>\<open>unregisterClient\<close> of an earlier connection with the same id removed it.  From there its uploads
  change nothing although they are answered with status ok, its close message leaves the remote
  open, and a download for it is refused.
\<close>

theorem stale_unregister_orphans_client:
  assumes "aead_ok a"
  shows "\<exists>s p. server_reachable a s \<and> p < length (conns s) \<and> connID (conns s ! p) = i \<and>
           \<not> rclosed (conns s ! p) \<and> pump (conns s ! p) = Reading \<and>
           (\<forall>nw bs. handle_message nw \<lparr>HVersion = 1, MsgType = MsgData, ConnID = i, PayloadLen = of_nat (length bs)\<rparr> bs s
              = (Ok (reply status_ok), s)) \<and>
           handle_close i s = s \<and>
           handleDownload \<lparr>Method = ''GET'', Path = ''/download/'' @ Itoa (unat i), Body = Inr []\<rparr> s
             = Refused (http_Error ''Not Found'' 404)"
proof -
  let ?s = "unregisterClient i (two_clients i Ended True True)"
  have "getClient i ?s = None"
    by (simp add: getClient_def)
  moreover have "Sscanf_u32 (Itoa (unat i)) = Some i" "Itoa (unat i) \<noteq> []"
    by (simp_all add: Sscanf_Itoa)
  ultimately have "handle_close i ?s = ?s" "\<And>nw bs. handle_data nw i bs ?s = ?s"
    "handleDownload \<lparr>Method = ''GET'', Path = ''/download/'' @ Itoa (unat i), Body = Inr []\<rparr> ?s = Refused (http_Error ''Not Found'' 404)"
    by (simp_all add: handle_close_def handle_data_def handleDownload_def TrimPrefix_def HasPrefix_def)
  moreover from this(2) have msg: "handle_message nw \<lparr>HVersion = 1, MsgType = MsgData, ConnID = i, PayloadLen = n\<rparr> bs ?s
      = (Ok (reply status_ok), ?s)" for nw n bs
    by (simp add: handle_message_def msg_consts)
  moreover have msg2: "conns ?s = [(new_clientConn i [])\<lparr>pump := Ended, chClosed := True, rclosed := True\<rparr>, new_clientConn i []]"
    by (simp add: two_clients_def)
  ultimately show ?thesis
    using two_clients_reachable [OF assms, of i] new_clientConn_ok [of i "[]"]
    by - (rule exI [of _ ?s], rule exI [of _ 1], simp add: msg msg2)
qed

theorem stale_unregister_orphans_client_witness:
  "\<exists>s p. server_reachable plain_aead s \<and> connID (conns s ! p) = 1 \<and> \<not> rclosed (conns s ! p) \<and> handle_close 1 s = s"
  using stale_unregister_orphans_client [OF plain_aead_ok, of 1] by blast

end
