(* ===== verification/Dpi_Certs.thy ===== *)
theory Dpi_Certs
  imports Go_Pem Dpi_Server
begin

text \<open>
  Self-signed certificates (\<^verbatim>\<open>dpi/server/certs.go\<close>) and the key pair \<^verbatim>\<open>buildTLSConfig\<close> makes of them.
  Key generation, signing and the DER codecs are arguments; the template, the error order, the PEM
  text and its way through \<^verbatim>\<open>tls.X509KeyPair\<close> are definitions.  Times and durations are in nanoseconds.
\<close>

datatype ext_key_usage = ExtKeyUsageServerAuth | ExtKeyUsageClientAuth

definition KeyUsageDigitalSignature :: nat where "KeyUsageDigitalSignature = 1"

definition KeyUsageKeyEncipherment :: nat where "KeyUsageKeyEncipherment = 4"

definition Hour :: int where "Hour = 3600 * 10 ^ 9"

record cert_template =
  SerialNumber :: nat
  Organization :: "string list"
  CommonName :: string
  NotBefore :: int
  NotAfter :: int
  KeyUsage :: nat
  ExtKeyUsage :: "ext_key_usage list"
  BasicConstraintsValid :: bool

definition self_template :: "nat \<Rightarrow> int \<Rightarrow> int \<Rightarrow> cert_template" where
  "self_template serial now now' =
     \<lparr>SerialNumber = serial, Organization = [''CDN Service''], CommonName = ''localhost'',
      NotBefore = now, NotAfter = now' + 365 * 24 * Hour,
      KeyUsage = or KeyUsageDigitalSignature KeyUsageKeyEncipherment,
      ExtKeyUsage = [ExtKeyUsageServerAuth], BasicConstraintsValid = True\<rparr>"

text \<open>
  The cryptographic operations: \<^verbatim>\<open>ecdsa.GenerateKey\<close>, \<^verbatim>\<open>rand.Int\<close> below a bound, \<^verbatim>\<open>x509.CreateCertificate\<close> from
  a template and its parent for the public part of a key, and the DER form of a private key.
\<close>

record 'k pki =
  GenerateKey :: "error + 'k"
  rand_Int :: "nat \<Rightarrow> error + nat"
  CreateCertificate :: "cert_template \<Rightarrow> cert_template \<Rightarrow> 'k \<Rightarrow> error + bytes"
  MarshalECPrivateKey :: "'k \<Rightarrow> error + bytes"

definition generateSelfSigned :: "'k pki \<Rightarrow> int \<Rightarrow> int \<Rightarrow> error + string \<times> string" where
  "generateSelfSigned k now now' =
     (case GenerateKey k of
        Inl e \<Rightarrow> Inl (Errorf ''generate key'')
      | Inr key \<Rightarrow>
          (case rand_Int k (2 ^ 128) of
             Inl e \<Rightarrow> Inl e
           | Inr serial \<Rightarrow>
               let tmpl = self_template serial now now' in
               (case CreateCertificate k tmpl tmpl key of
                  Inl e \<Rightarrow> Inl (Errorf ''create cert'')
                | Inr certDER \<Rightarrow>
                    (case MarshalECPrivateKey k key of
                       Inl e \<Rightarrow> Inl e
                     | Inr keyDER \<Rightarrow>
                         Inr (EncodeToMemory ''CERTIFICATE'' certDER, EncodeToMemory ''EC PRIVATE KEY'' keyDER)))))"

subsection \<open>Key pairs\<close>

text \<open>
  \<^verbatim>\<open>tls.X509KeyPair\<close>: the certificates among the blocks of the first text, the first private key of
  the second, and the check that they belong together.  \<open>parse\<close> reads a certificate, \<open>parse_key\<close> a
  private key, and \<open>fits\<close> compares their public keys.
\<close>

function cert_blocks :: "string \<Rightarrow> bytes list" where
  "cert_blocks s =
     (case pem_Decode s of
        None \<Rightarrow> []
      | Some (ty, bs, r) \<Rightarrow> (if ty = ''CERTIFICATE'' then [bs] else []) @ cert_blocks r)"
  by pat_completeness auto
termination
  by (relation "measure length") (auto dest: pem_Decode_shorter)

function key_block :: "string \<Rightarrow> bytes option" where
  "key_block s =
     (case pem_Decode s of
        None \<Rightarrow> None
      | Some (ty, bs, r) \<Rightarrow> if ty = ''PRIVATE KEY'' \<or> HasSuffix ty '' PRIVATE KEY'' then Some bs else key_block r)"
  by pat_completeness auto
termination
  by (relation "measure length") (auto dest: pem_Decode_shorter)

declare cert_blocks.simps [simp del] key_block.simps [simp del]

definition X509KeyPair ::
    "(bytes \<Rightarrow> error + 'c) \<Rightarrow> (bytes \<Rightarrow> error + 'k) \<Rightarrow> ('c \<Rightarrow> 'k \<Rightarrow> bool) \<Rightarrow> string \<Rightarrow> string \<Rightarrow> error + bytes list \<times> 'k" where
  "X509KeyPair parse parse_key fits certPEM keyPEM =
     (case cert_blocks certPEM of
        [] \<Rightarrow> Inl (Errorf ''tls: failed to find any PEM data in certificate input'')
      | der # ders \<Rightarrow>
          (case key_block keyPEM of
             None \<Rightarrow> Inl (Errorf ''tls: failed to find any PEM data in key input'')
           | Some kder \<Rightarrow>
               (case parse der of
                  Inl e \<Rightarrow> Inl e
                | Inr c \<Rightarrow>
                    (case parse_key kder of
                       Inl e \<Rightarrow> Inl e
                     | Inr key \<Rightarrow>
                         if fits c key then Inr (der # ders, key)
                         else Inl (Errorf ''tls: private key does not match public key'')))))"

text \<open>The last two steps of \<^verbatim>\<open>buildTLSConfig\<close> for a self-signed pair: the certificate it installs.\<close>

definition self_signed_pair ::
    "'k pki \<Rightarrow> (bytes \<Rightarrow> error + 'c) \<Rightarrow> (bytes \<Rightarrow> error + 'k) \<Rightarrow> ('c \<Rightarrow> 'k \<Rightarrow> bool) \<Rightarrow> int \<Rightarrow> int \<Rightarrow> error + string" where
  "self_signed_pair k parse parse_key fits now now' =
     (case generateSelfSigned k now now' of
        Inl e \<Rightarrow> Inl e
      | Inr (certPEM, keyPEM) \<Rightarrow>
          (case X509KeyPair parse parse_key fits certPEM keyPEM of
             Inl e \<Rightarrow> Inl e
           | Inr (ders, key) \<Rightarrow> Inr (go_string (hd ders))))"

subsection \<open>Facts\<close>

lemma pem_Decode_Nil: "pem_Decode [] = None"
  by (subst pem_Decode.simps) (simp add: after_start_def pemStart_def HasPrefix_def)

lemma cert_blocks_encoded: "cert_blocks (EncodeToMemory ''CERTIFICATE'' der) = [der]"
  using pem_roundtrip [of "''CERTIFICATE''" der "[]"]
  by (subst cert_blocks.simps) (simp add: cert_blocks.simps [of "[]"] pem_Decode_Nil)

lemma key_block_encoded: "key_block (EncodeToMemory ''EC PRIVATE KEY'' der) = Some der"
  using pem_roundtrip [of "''EC PRIVATE KEY''" der "[]"]
  by (subst key_block.simps) (simp add: HasSuffix_def HasPrefix_def)

lemma generateSelfSigned_cases:
  assumes "generateSelfSigned k now now' = Inr (certPEM, keyPEM)"
  obtains key serial certDER keyDER where "GenerateKey k = Inr key" "rand_Int k (2 ^ 128) = Inr serial"
    "CreateCertificate k (self_template serial now now') (self_template serial now now') key = Inr certDER"
    "MarshalECPrivateKey k key = Inr keyDER"
    "certPEM = EncodeToMemory ''CERTIFICATE'' certDER" "keyPEM = EncodeToMemory ''EC PRIVATE KEY'' keyDER"
  using assms by (auto simp: generateSelfSigned_def Let_def split: sum.splits)

subsection \<open>Properties\<close>

text \<open>
  C22: A generated certificate is one the server can use.  Whenever \<^verbatim>\<open>generateSelfSigned\<close> succeeds, the PEM
  texts it returns pass \<^verbatim>\<open>tls.X509KeyPair\<close>, which finds exactly the certificate made from the template
  and exactly the generated key; so an HTTPS configuration that relies on a self-signed pair fails
  only when generating fails.  The certificate is signed by its own template, is valid from the
  first reading of the clock for at least 365 days, and its serial number is below \<open>2\<^sup>1\<^sup>2\<^sup>8\<close>.  The
  hypotheses say what the X.509 library documents: a random number is below its bound, a created
  certificate parses and carries the public key it was made for, and a marshalled key parses.
\<close>

theorem self_signed_pair_usable:
  assumes gen: "generateSelfSigned k now now' = Inr (certPEM, keyPEM)"
    and rand: "\<forall>n i. rand_Int k n = Inr i \<longrightarrow> i < n"
    and sign: "\<forall>t p key der. CreateCertificate k t p key = Inr der \<longrightarrow> (\<exists>c. parse der = Inr c \<and> fits c key)"
    and der: "\<forall>key d. MarshalECPrivateKey k key = Inr d \<longrightarrow> parse_key d = Inr key"
    and cfg: "SelfSigned cfg" "ACMEEmail cfg = [] \<or> ACMEDomain cfg = []" "TLSCertFile cfg = [] \<or> TLSKeyFile cfg = []"
      "normalizeAppProtocol (Protocol cfg) = Inr proto" and clock: "now \<le> now'"
  shows "\<exists>key tmpl certDER. GenerateKey k = Inr key \<and> CreateCertificate k tmpl tmpl key = Inr certDER \<and>
    SerialNumber tmpl < 2 ^ 128 \<and> NotBefore tmpl = now \<and> NotBefore tmpl + 365 * 24 * Hour \<le> NotAfter tmpl \<and>
    X509KeyPair parse parse_key fits certPEM keyPEM = Inr ([certDER], key) \<and>
    buildTLSConfig exeDir load (self_signed_pair k parse parse_key fits now now') cfg =
      Inr \<lparr>Certs = Certificate (go_string certDER), NextProtos = tlsNextProtos proto False\<rparr>"
proof -
  obtain key serial certDER keyDER where g: "GenerateKey k = Inr key" "rand_Int k (2 ^ 128) = Inr serial"
    "CreateCertificate k (self_template serial now now') (self_template serial now now') key = Inr certDER"
    "MarshalECPrivateKey k key = Inr keyDER"
    "certPEM = EncodeToMemory ''CERTIFICATE'' certDER" "keyPEM = EncodeToMemory ''EC PRIVATE KEY'' keyDER"
    by (rule generateSelfSigned_cases [OF gen])
  obtain c where "parse certDER = Inr c" "fits c key"
    using sign g(3) by blast
  then have pair: "X509KeyPair parse parse_key fits certPEM keyPEM = Inr ([certDER], key)"
    using der g(4) by (simp add: X509KeyPair_def g(5,6) cert_blocks_encoded key_block_encoded)
  have "self_signed_pair k parse parse_key fits now now' = Inr (go_string certDER)"
    using gen pair by (simp add: self_signed_pair_def)
  then have "buildTLSConfig exeDir load (self_signed_pair k parse parse_key fits now now') cfg =
      Inr \<lparr>Certs = Certificate (go_string certDER), NextProtos = tlsNextProtos proto False\<rparr>"
    using cfg by (auto simp: buildTLSConfig_def)
  moreover have "SerialNumber (self_template serial now now') < 2 ^ 128" "NotBefore (self_template serial now now') = now"
    "NotBefore (self_template serial now now') + 365 * 24 * Hour \<le> NotAfter (self_template serial now now')"
    using rand g(2) clock unfolding self_template_def by auto
  ultimately show ?thesis
    using g(1,3) pair by blast
qed

definition demo_pki :: "byte pki" where
  "demo_pki =
     \<lparr>GenerateKey = Inr 7, rand_Int = (\<lambda>n. if n = 0 then Inl EOF else Inr 0),
      CreateCertificate = (\<lambda>t p key. Inr [key, 1]), MarshalECPrivateKey = (\<lambda>key. Inr [key])\<rparr>"

definition demo_tls :: Config where
  "demo_tls =
     \<lparr>HTTPAddr = [], HTTPSAddr = ''0.0.0.0:443'', TLSCertFile = [], TLSKeyFile = [], ACMEEmail = [], ACMEDomain = [],
      SelfSigned = True, RedirectURL = [], EncryptionKey = [], CertDir = [], Protocol = ''h1''\<rparr>"

theorem self_signed_pair_usable_witness:
  "\<exists>certPEM keyPEM. generateSelfSigned demo_pki 10 11 = Inr (certPEM, keyPEM) \<and>
     buildTLSConfig ''/opt'' (\<lambda>_ _. Inl EOF) (self_signed_pair demo_pki (\<lambda>d. Inr (hd d)) (\<lambda>d. Inr (hd d)) (=) 10 11) demo_tls =
       Inr \<lparr>Certs = Certificate (go_string [7, 1]), NextProtos = [''http/1.1'']\<rparr>"
proof -
  obtain certPEM keyPEM where g: "generateSelfSigned demo_pki 10 11 = Inr (certPEM, keyPEM)"
    by (simp add: generateSelfSigned_def demo_pki_def)
  have k: "GenerateKey demo_pki = Inr 7" "\<forall>n i. rand_Int demo_pki n = Inr i \<longrightarrow> i < n"
    "\<forall>t p key der. CreateCertificate demo_pki t p key = Inr der \<longrightarrow> der = [key, 1]"
    by (auto simp: demo_pki_def)
  have c: "SelfSigned demo_tls" "ACMEEmail demo_tls = [] \<or> ACMEDomain demo_tls = []" "TLSCertFile demo_tls = [] \<or> TLSKeyFile demo_tls = []"
    "normalizeAppProtocol (Protocol demo_tls) = Inr ''h1''"
    by (simp_all add: demo_tls_def normalizeAppProtocol_def)
  have "\<forall>t p key der. CreateCertificate demo_pki t p key = Inr der \<longrightarrow> (\<exists>c. Inr (hd der) = (Inr c :: error + byte) \<and> c = key)"
    "\<forall>key d. MarshalECPrivateKey demo_pki key = Inr d \<longrightarrow> Inr (hd d) = (Inr key :: error + byte)"
    by (auto simp: demo_pki_def)
  from self_signed_pair_usable [OF g k(2) this c, of "''/opt''" "\<lambda>_ _. Inl EOF"] show ?thesis
    using g k(1,3) by (auto simp: tlsNextProtos_def)
qed

end
