(* ===== verification/Go_Source.thy ===== *)
theory Go_Source
  imports Go_IO
begin

text \<open>
  Readers as their callers see them: a call delivers some of the bytes that are left, or, when
  none are left, the error the stream ends with.  The locale \<open>byte_source\<close> is this contract; the
  readers of the program that sit on top of another one (the download stream of the DPI client,
  its tunnel connection, the WebSocket connection) are interpreted with it in their theories, and
  \<^verbatim>\<open>io.Copy\<close> is shown once, inside it, to move the whole stream.
\<close>

definition go_Read :: "nat \<Rightarrow> reader \<Rightarrow> bytes go \<times> reader" where
  "go_Read k r =
     (case Read k r of
        ((p, None), r') \<Rightarrow> (Ok p, r')
      | ((p, Some e), r') \<Rightarrow> (Err e, r'))"

text \<open>
  \<^verbatim>\<open>io.Copy\<close> to a destination that takes everything, with its 32 KiB buffer: the bytes moved and
  the error that ended it (\<^verbatim>\<open>io.Copy\<close> reports \<open>EOF\<close> as success).  The fuel bounds the number of reads.
\<close>

primrec io_Copy :: "(nat \<Rightarrow> 'r \<Rightarrow> bytes go \<times> 'r) \<Rightarrow> nat \<Rightarrow> 'r \<Rightarrow> (bytes \<times> error) option" where
  "io_Copy rd 0 r = None"
| "io_Copy rd (Suc n) r =
     (case rd (32 * 1024) r of
        (Ok p, r') \<Rightarrow> map_option (\<lambda>(q, e). (p @ q, e)) (io_Copy rd n r')
      | (Err e, r') \<Rightarrow> Some ([], e)
      | (Panic m, r') \<Rightarrow> None)"

locale byte_source =
  fixes rd :: "nat \<Rightarrow> 'r \<Rightarrow> bytes go \<times> 'r"
    and src :: "'r \<Rightarrow> bytes \<Rightarrow> error \<Rightarrow> bool"
  assumes rd_some: "src r s e \<Longrightarrow> s \<noteq> [] \<Longrightarrow> 0 < k \<Longrightarrow>
      \<exists>p s' r'. rd k r = (Ok p, r') \<and> p \<noteq> [] \<and> length p \<le> k \<and> s = p @ s' \<and> src r' s' e"
    and rd_end: "src r [] e \<Longrightarrow> 0 < k \<Longrightarrow> \<exists>r'. rd k r = (Err e, r') \<and> src r' [] e"
begin

lemma io_Copy_all: "src r s e \<Longrightarrow> length s < n \<Longrightarrow> io_Copy rd n r = Some (s, e)"
proof (induction n arbitrary: r s)
  case (Suc n)
  show ?case
  proof (cases "s = []")
    case True
    then show ?thesis
      using rd_end [of r e "32 * 1024"] Suc.prems by auto
  next
    case False
    obtain p s' r' where p: "rd (32 * 1024) r = (Ok p, r')" "p \<noteq> []" "s = p @ s'" "src r' s' e"
      using rd_some [OF Suc.prems(1) False, of "32 * 1024"] by auto
    moreover have "length s' < n"
      using p Suc.prems(2) by (cases p) auto
    ultimately show ?thesis
      using Suc.IH [of r' s'] by simp
  qed
qed simp

text \<open>Any sequence of buffer sizes delivers a prefix, and what is left stays to be read.\<close>

lemma rd_prefix:
  assumes "src r s e" "0 < k" "rd k r = (Ok p, r')"
  obtains s' where "s = p @ s'" "src r' s' e" "p \<noteq> []" "length p \<le> k"
proof (cases "s = []")
  case True
  then show thesis
    using rd_end [of r e k] assms by auto
next
  case False
  obtain p' s' r'' where "rd k r = (Ok p', r'')" "p' \<noteq> []" "length p' \<le> k" "s = p' @ s'" "src r'' s' e"
    using rd_some [OF assms(1) False assms(2)] by blast
  then show thesis
    using assms(3) that by simp
qed

end

interpretation body: byte_source go_Read reads
proof
  fix r s e and k :: nat assume r: "reads r s e" "s \<noteq> []" "0 < k"
  obtain p s' r' where "Read k r = ((p, None), r')" "p \<noteq> []" "length p \<le> k" "s = p @ s'" "reads r' s' e"
    using Read_some [OF r] .
  then show "\<exists>p s' r'. go_Read k r = (Ok p, r') \<and> p \<noteq> [] \<and> length p \<le> k \<and> s = p @ s' \<and> reads r' s' e"
    by (auto simp: go_Read_def)
next
  fix r e and k :: nat assume "reads r [] e" "0 < k"
  then show "\<exists>r'. go_Read k r = (Err e, r') \<and> reads r' [] e"
    by (simp add: go_Read_def Read_end)
qed

end
