(* ===== verification/Dpi_Transport.thy ===== *)
theory Dpi_Transport
  imports Dpi_Server Go_Net Go_Source "HOL-Library.AList"
begin

text \<open>
  \<^verbatim>\<open>dpi/client/transport.go\<close>: the client side of the tunnel.  The HTTP client and the random source
  are a record of functions on a state of their own (the network with the server behind it), so
  that the operations of the transport can be run against any network and, in particular, against
  the handlers of \<open>Dpi_Server\<close>.  \<^verbatim>\<open>Connect\<close> calls itself on every redirect: it is a partial
  function, and not returning is \<open>None\<close>.  The reader that \<^verbatim>\<open>DownloadStream\<close> returns is a
  \<^verbatim>\<open>streamReader\<close> over the response body.
\<close>

subsection \<open>Transport\<close>

record Transport =
  baseURL :: string
  scheme :: string
  host :: string
  frontHost :: string
  frontIP :: string
  protocol :: string
  connIDGen :: u32

text \<open>What the code uses of a parsed URL.\<close>

record URL =
  Scheme :: string
  UHost :: string
  Hostname :: string

definition client_normalizeAppProtocol :: "string \<Rightarrow> error + string" where
  "client_normalizeAppProtocol proto =
     (if proto = [] \<or> proto = ''auto'' then Inr ''auto''
      else if proto = ''h1'' \<or> proto = ''h2'' then Inr proto
      else if proto = ''h3'' then Inl (Errorf ''protocol h3 is not implemented yet'')
      else Inl (Errorf (''invalid protocol '' @ proto)))"

text \<open>\<open>u\<close> is the result of \<^verbatim>\<open>url.Parse(serverURL)\<close>.\<close>

definition NewTransport :: "error + URL \<Rightarrow> string \<Rightarrow> string \<Rightarrow> string \<Rightarrow> string \<Rightarrow> error + Transport" where
  "NewTransport parsed serverURL fHost fIP proto =
     (case parsed of
        Inl e \<Rightarrow> Inl (Errorf ''parse server URL'')
      | Inr u \<Rightarrow>
          if Scheme u \<noteq> ''http'' \<and> Scheme u \<noteq> ''https'' then Inl (Errorf ''URL scheme must be http or https'')
          else if fIP = [] then Inl (Errorf ''front IP is required (resolve from -server at startup)'')
          else
            (case client_normalizeAppProtocol proto of
               Inl e \<Rightarrow> Inl e
             | Inr p \<Rightarrow>
                 Inr \<lparr>baseURL = serverURL, scheme = Scheme u, host = UHost u, frontHost = fHost,
                      frontIP = fIP, protocol = p, connIDGen = 1\<rparr>))"

text \<open>The address the \<^verbatim>\<open>DialContext\<close> of the HTTP transport connects to.\<close>

definition dial_addr :: "URL \<Rightarrow> Transport \<Rightarrow> string \<Rightarrow> string" where
  "dial_addr u t addr =
     (if contains_str addr (Hostname u) then
        (let port = (case SplitHostPort addr of
                       Inr (h, p) \<Rightarrow> p
                     | Inl e \<Rightarrow> if Scheme u = ''https'' then ''443'' else ''80'')
         in JoinHostPort (frontIP t) port)
      else addr)"

definition NextConnID :: "Transport \<Rightarrow> u32 \<times> Transport" where
  "NextConnID t =
     (let n = connIDGen t + 1
      in (connIDGen t, t\<lparr>connIDGen := (if n = 0 then 1 else n)\<rparr>))"

subsection \<open>Requests\<close>

record out_request =
  OMethod :: string
  Url :: string
  HostHeader :: string
  Headers :: "(string \<times> string) list"
  OBody :: bytes

definition Header_Set :: "string \<Rightarrow> string \<Rightarrow> out_request \<Rightarrow> out_request" where
  "Header_Set k v r = r\<lparr>Headers := AList.update k v (Headers r)\<rparr>"

definition Header_Del :: "string \<Rightarrow> out_request \<Rightarrow> out_request" where
  "Header_Del k r = r\<lparr>Headers := AList.delete k (Headers r)\<rparr>"

definition browser_headers :: "(string \<times> string) list" where
  "browser_headers =
    [(''User-Agent'', ''Mozilla/5.0 (Windows NT 10.0; Win64; x64) AppleWebKit/537.36 (KHTML, like Gecko) Chrome/120.0.0.0 Safari/537.36''),
     (''Accept'', ''*/*''),
     (''Accept-Language'', ''en-US,en;q=0.9''),
     (''Accept-Encoding'', ''gzip, deflate, br''),
     (''Cache-Control'', ''no-cache''),
     (''Pragma'', ''no-cache''),
     (''Sec-Ch-Ua'', ''\"Not_A Brand\";v=\"8\", \"Chromium\";v=\"120\", \"Google Chrome\";v=\"120\"''),
     (''Sec-Ch-Ua-Mobile'', ''?0''),
     (''Sec-Ch-Ua-Platform'', ''\"Windows\"''),
     (''Sec-Fetch-Dest'', ''empty''),
     (''Sec-Fetch-Mode'', ''cors''),
     (''Sec-Fetch-Site'', ''cross-site'')]"

definition setBrowserHeaders :: "Transport \<Rightarrow> out_request \<Rightarrow> out_request" where
  "setBrowserHeaders t r =
     fold (\<lambda>(k, v). Header_Set k v) browser_headers
       (if frontHost t \<noteq> [] then r\<lparr>HostHeader := frontHost t\<rparr> else r)"

text \<open>
  What the transport calls: the random source for a nonce, \<^verbatim>\<open>http.NewRequest\<close>'s error for an URL,
  and \<^verbatim>\<open>httpClient.Do\<close> for a request whose response is read at once and for one whose body is a
  stream.
\<close>

record 's net_env =
  rand :: "'s \<Rightarrow> (error + bytes) \<times> 's"
  url_err :: "string \<Rightarrow> error option"
  Do :: "out_request \<Rightarrow> 's \<Rightarrow> (error + http_response) \<times> 's"
  Do_stream :: "out_request \<Rightarrow> 's \<Rightarrow> (error + nat \<times> reader) \<times> 's"

definition post_request :: "Transport \<Rightarrow> string \<Rightarrow> bytes \<Rightarrow> out_request" where
  "post_request t uploadURL encrypted =
     Header_Set ''Content-Type'' ''application/octet-stream''
       (setBrowserHeaders t
          \<lparr>OMethod = ''POST'', Url = uploadURL, HostHeader = [], Headers = [], OBody = encrypted\<rparr>)"

text \<open>Sealing a message and posting it: the part \<^verbatim>\<open>Connect\<close>, \<^verbatim>\<open>SendData\<close> and \<^verbatim>\<open>CloseConn\<close> share.\<close>

definition post_message :: "AEAD \<Rightarrow> 's net_env \<Rightarrow> Transport \<Rightarrow> string \<Rightarrow> byte \<Rightarrow> u32 \<Rightarrow> bytes \<Rightarrow> 's \<Rightarrow> (error + http_response) \<times> 's" where
  "post_message a env t path msgType i payload s =
     (case rand env s of (rnd, s1) \<Rightarrow>
        (case Encrypt a rnd (header_bytes msgType i (of_nat (length payload)) @ payload) of
           Inl e \<Rightarrow> (Inl e, s1)
         | Inr encrypted \<Rightarrow>
             (case url_err env (baseURL t @ path) of
                Some e \<Rightarrow> (Inl e, s1)
              | None \<Rightarrow> Do env (post_request t (baseURL t @ path) encrypted) s1)))"

definition is_redirect :: "http_response \<Rightarrow> bool" where
  "is_redirect resp \<longleftrightarrow> 300 \<le> Status resp \<and> Status resp < 400 \<and> Location resp \<noteq> []"

definition redirect_target :: "Transport \<Rightarrow> http_response \<Rightarrow> string" where
  "redirect_target t resp =
     (if hd (Location resp) = CHR ''/'' then scheme t @ ''://'' @ host t @ Location resp else Location resp)"

definition connect_result :: "u32 \<Rightarrow> http_response \<Rightarrow> error + u32" where
  "connect_result i resp =
     (if Status resp \<noteq> 200 then Inl (Errorf (''connect failed: '' @ RespBody resp))
      else if \<not> contains_str (RespBody resp) ''\"status\":\"ok\"'' then Inl (Errorf (''connect failed: '' @ RespBody resp))
      else Inr i)"

partial_function (option) Connect :: "AEAD \<Rightarrow> 's net_env \<Rightarrow> string \<Rightarrow> string \<Rightarrow> Transport \<Rightarrow> 's \<Rightarrow> ((error + u32) \<times> Transport \<times> 's) option" where
  "Connect a env nw address t s =
     (case NextConnID t of (i, t1) \<Rightarrow>
        (case post_message a env t1 ''/.well-known/cdn-cache/upload'' MsgConnect i
                (EncodeConnectRequest \<lparr>ReqNetwork = nw, ReqAddress = address\<rparr>) s of
           (Inl e, s1) \<Rightarrow> Some (Inl e, t1, s1)
         | (Inr resp, s1) \<Rightarrow>
             if is_redirect resp then Connect a env nw address (t1\<lparr>baseURL := redirect_target t1 resp\<rparr>) s1
             else Some (connect_result i resp, t1, s1)))"

definition SendData :: "AEAD \<Rightarrow> 's net_env \<Rightarrow> Transport \<Rightarrow> u32 \<Rightarrow> bytes \<Rightarrow> 's \<Rightarrow> error option \<times> 's" where
  "SendData a env t i data s =
     (case post_message a env t ''/api/v2/upload'' MsgData i data s of
        (Inl e, s') \<Rightarrow> (Some e, s')
      | (Inr resp, s') \<Rightarrow> (None, s'))"

definition CloseConn :: "AEAD \<Rightarrow> 's net_env \<Rightarrow> Transport \<Rightarrow> u32 \<Rightarrow> 's \<Rightarrow> error option \<times> 's" where
  "CloseConn a env t i s =
     (case post_message a env t ''/api/v2/upload'' MsgClose i [] s of
        (Inl e, s') \<Rightarrow> (Some e, s')
      | (Inr resp, s') \<Rightarrow> (None, s'))"

subsection \<open>Downloads\<close>

record streamReader =
  rbody :: reader
  decrypted :: bytes
  off :: nat

definition download_request :: "Transport \<Rightarrow> u32 \<Rightarrow> out_request" where
  "download_request t i =
     Header_Del ''Accept-Encoding''
       (setBrowserHeaders t
          \<lparr>OMethod = ''GET'', Url = baseURL t @ ''/download/'' @ Itoa (unat i), HostHeader = [], Headers = [], OBody = []\<rparr>)"

definition DownloadStream :: "'s net_env \<Rightarrow> Transport \<Rightarrow> u32 \<Rightarrow> 's \<Rightarrow> (error + streamReader) \<times> 's" where
  "DownloadStream env t i s =
     (case url_err env (baseURL t @ ''/download/'' @ Itoa (unat i)) of
        Some e \<Rightarrow> (Inl e, s)
      | None \<Rightarrow>
          (case Do_stream env (download_request t i) s of
             (Inl e, s') \<Rightarrow> (Inl e, s')
           | (Inr (code, body), s') \<Rightarrow>
               if code \<noteq> 200 then (Inl (Errorf (''download failed: '' @ Itoa code)), s')
               else (Inr \<lparr>rbody = body, decrypted = [], off = 0\<rparr>, s')))"

text \<open>
  One round of the loop of \<^verbatim>\<open>Read\<close>: read a length and a sealed message, and cut its payload out.
  The sum \<^verbatim>\<open>10+payloadLen\<close> is a \<^verbatim>\<open>uint32\<close>.
\<close>

definition payload_of :: "bytes \<Rightarrow> bytes go" where
  "payload_of dec =
     (if 10 < length dec then
        (let payloadLen = be32 (drop 6 (take 10 dec))
         in if unat (10 + payloadLen) \<le> length dec then go_slice dec 10 (unat (10 + payloadLen)) else Ok [])
      else Ok [])"

definition next_message :: "AEAD \<Rightarrow> reader \<Rightarrow> bytes go \<times> reader" where
  "next_message a r =
     (case ReadFull 4 r of
        (Inl e, r1) \<Rightarrow> (Err e, r1)
      | (Inr lenBuf, r1) \<Rightarrow>
          (let encLen = be32 lenBuf
           in if 256 * 1024 < encLen then (Err ErrClosedPipe, r1)
              else
                (case ReadFull (unat encLen) r1 of
                   (Inl e, r2) \<Rightarrow> (Err e, r2)
                 | (Inr buf, r2) \<Rightarrow>
                     (case Decrypt a buf of
                        Inl e \<Rightarrow> (Err e, r2)
                      | Inr dec \<Rightarrow> (payload_of dec, r2)))))"

lemma ReadFull_progress: "0 < k \<Longrightarrow> ReadFull k r = (Inr xs, r') \<Longrightarrow> pending r' < pending r"
proof -
  assume k: "0 < k" and rf: "ReadFull k r = (Inr xs, r')"
  obtain p e r1 where rd: "Read k r = ((p, e), r1)"
    by (metis prod.exhaust)
  obtain x where rl: "read_loop k r = ((xs, x), r')" and len: "x \<noteq> None \<Longrightarrow> k \<le> length xs"
    using rf by (auto simp: ReadFull_def split: prod.splits option.splits if_splits)
  have "e = None"
  proof (cases e)
    case (Some e')
    then have "read_loop k r = ((p, e), r1)" "p = []"
      using k rd Read_error [of k r p e' r1] by (simp_all add: read_loop.simps [of k r])
    then show ?thesis
      using rl len k Some by simp
  qed simp
  then show ?thesis
    using k rd rl Read_pending [of k r p r1] read_loop_pending [of "k - length p" r1]
    by (fastforce simp: read_loop.simps [of k r] split: prod.splits)
qed

lemma next_message_progress: "next_message a r = (Ok d, r') \<Longrightarrow> pending r' < pending r"
proof -
  assume *: "next_message a r = (Ok d, r')"
  obtain lenBuf r1 where r1: "ReadFull 4 r = (Inr lenBuf, r1)"
    using * by (auto simp: next_message_def split: prod.splits sum.splits)
  then have "pending r' \<le> pending r1"
    using * by (auto simp: next_message_def Let_def split: prod.splits sum.splits if_splits dest: ReadFull_pending)
  then show ?thesis
    using ReadFull_progress [OF _ r1] by simp
qed

function streamReader_Read :: "AEAD \<Rightarrow> nat \<Rightarrow> streamReader \<Rightarrow> bytes go \<times> streamReader" where
  "streamReader_Read a k sr =
     (if off sr < length (decrypted sr) then
        (let p = go_copy k (drop (off sr) (decrypted sr))
         in (Ok p, sr\<lparr>off := off sr + length p\<rparr>))
      else
        (case next_message a (rbody sr) of
           (Ok d, r) \<Rightarrow> streamReader_Read a k \<lparr>rbody = r, decrypted = d, off = 0\<rparr>
         | (Err e, r) \<Rightarrow> (Err e, \<lparr>rbody = r, decrypted = [], off = 0\<rparr>)
         | (Panic m, r) \<Rightarrow> (Panic m, \<lparr>rbody = r, decrypted = [], off = 0\<rparr>)))"
  by pat_completeness auto
termination
  by (relation "measure (\<lambda>(a, k, sr). pending (rbody sr))") (auto dest: next_message_progress [OF sym])

declare streamReader_Read.simps [simp del]

subsection \<open>The download stream\<close>

text \<open>The loop of \<^verbatim>\<open>handleDownload\<close> over the chunks it takes from the channel, each with its nonce.\<close>

primrec send_chunks :: "AEAD \<Rightarrow> ('w \<Rightarrow> bytes \<Rightarrow> (nat \<times> error option) \<times> 'w) \<Rightarrow> u32 \<Rightarrow> (bytes \<times> bytes) list \<Rightarrow> 'w \<Rightarrow> (error + unit) \<times> 'w" where
  "send_chunks a wr i [] = ret_io ()"
| "send_chunks a wr i (x # xs) = bind_io (send_chunk a wr i (Inr (fst x)) (snd x)) (\<lambda>_. send_chunks a wr i xs)"

definition frame :: "AEAD \<Rightarrow> u32 \<Rightarrow> bytes \<times> bytes \<Rightarrow> bytes" where
  "frame a i x = put_be32 (of_nat (length (sealed a (fst x) MsgData i (snd x)))) @ sealed a (fst x) MsgData i (snd x)"

definition frame_ok :: "bytes \<times> bytes \<Rightarrow> bool" where
  "frame_ok x \<longleftrightarrow> length (fst x) = NonceSize \<and> length (snd x) \<le> 32 * 1024"

lemma Encrypt_download: "EncryptStream a (Inr n) (download_payload i d) = Inr (sealed a n MsgData i d)"
  by (simp add: EncryptStream_def Encrypt_def download_payload_def sealed_def header_bytes_def uint32ToBytes_def)

context byte_sink
begin

lemma send_chunk_frame:
  assumes "healthy w"
  shows "\<exists>w'. send_chunk a wr i (Inr (fst x)) (snd x) w = (Inr (), w') \<and> healthy w' \<and> content w' = content w @ frame a i x"
proof -
  let ?e = "sealed a (fst x) MsgData i (snd x)"
  obtain w1 where w1: "wr w (put_be32 (of_nat (length ?e))) = ((4, None), w1)" "healthy w1"
    "content w1 = content w @ put_be32 (of_nat (length ?e))"
    using wr_ok [OF assms, of "put_be32 (of_nat (length ?e))"] by auto
  obtain w2 where "wr w1 ?e = ((length ?e, None), w2)" "healthy w2" "content w2 = content w1 @ ?e"
    using wr_ok [OF w1(2), of ?e] by auto
  then show ?thesis
    using w1 by (simp add: send_chunk_def Encrypt_download bind_io_def put_io_def frame_def)
qed

lemma send_chunks_frames:
  "healthy w \<Longrightarrow> \<exists>w'. send_chunks a wr i xs w = (Inr (), w') \<and> healthy w' \<and> content w' = content w @ concat (map (frame a i) xs)"
proof (induction xs arbitrary: w)
  case (Cons x xs)
  obtain w1 where "send_chunk a wr i (Inr (fst x)) (snd x) w = (Inr (), w1)" "healthy w1" "content w1 = content w @ frame a i x"
    using send_chunk_frame [OF Cons.prems] by blast
  then show ?case
    using Cons.IH [of w1] by auto
qed simp

end

lemma length_sealed:
  "aead_ok a \<Longrightarrow> frame_ok x \<Longrightarrow> length (sealed a (fst x) t i (snd x)) = 38 + length (snd x)"
  by (simp add: sealed_def aead_ok_def frame_ok_def NonceSize_def TagSize_def)

lemma payload_of_sealed:
  assumes "length d < 2 ^ 32 - 10"
  shows "payload_of (header_bytes t i (of_nat (length d)) @ d) = Ok d"
proof (cases "d = []")
  case False
  have "drop 6 (take 10 (header_bytes t i (of_nat (length d)) @ d)) = put_be32 (of_nat (length d))"
    by (simp add: header_bytes_def)
  moreover have "unat (10 + of_nat (length d) :: u32) = 10 + length d"
    using assms by (simp add: unat_word_ariths unat_of_nat)
  ultimately show ?thesis
    using False by (simp add: payload_of_def be_simps go_simps)
qed (simp add: payload_of_def)

lemma next_message_frame:
  assumes a: "aead_ok a" and x: "frame_ok x" and r: "reads r (frame a i x @ ys) e"
  obtains r' where "next_message a r = (Ok (snd x), r')" "reads r' ys e"
proof -
  let ?e = "sealed a (fst x) MsgData i (snd x)"
  have len: "length ?e = 38 + length (snd x)" "length (snd x) \<le> 32 * 1024"
    using length_sealed [OF a x] x by (simp_all add: frame_ok_def)
  then have n: "unat (of_nat (length ?e) :: u32) = length ?e"
    unfolding unat_of_nat by simp
  then have n': "\<not> 256 * 1024 < (of_nat (length ?e) :: u32)"
    using len unfolding word_less_nat_alt by simp
  obtain r1 where r1: "ReadFull 4 r = (Inr (put_be32 (of_nat (length ?e))), r1)" "reads r1 (?e @ ys) e"
    using full.rd_field [of r "put_be32 (of_nat (length ?e))" "?e @ ys" e 4] r by (auto simp: frame_def)
  obtain r2 where r2: "ReadFull (length ?e) r1 = (Inr ?e, r2)" "reads r2 ys e"
    using full.rd_field [OF r1(2) refl] .
  have "Decrypt a ?e = Inr (header_bytes MsgData i (of_nat (length (snd x))) @ snd x)"
    using a x by (simp add: sealed_def Decrypt_Encrypt frame_ok_def)
  then have "next_message a r = (Ok (snd x), r2)"
    using r1 r2 n n' len by (simp add: next_message_def be_simps payload_of_sealed)
  then show thesis
    using r2(2) that by blast
qed

text \<open>What a \<^verbatim>\<open>streamReader\<close> still has to deliver.\<close>

definition tunnel_reads :: "AEAD \<Rightarrow> streamReader \<Rightarrow> bytes \<Rightarrow> error \<Rightarrow> bool" where
  "tunnel_reads a sr s e \<longleftrightarrow> aead_ok a \<and>
     (\<exists>i xs. (\<forall>x\<in>set xs. frame_ok x) \<and> reads (rbody sr) (concat (map (frame a i) xs)) e \<and>
        s = drop (off sr) (decrypted sr) @ concat (map snd xs))"

lemma streamReader_Read_buffered:
  assumes "off sr < length (decrypted sr)"
  shows "streamReader_Read a k sr =
    (Ok (take k (drop (off sr) (decrypted sr))), sr\<lparr>off := off sr + min k (length (decrypted sr) - off sr)\<rparr>)"
  using assms by (subst streamReader_Read.simps) (simp add: go_copy_def min.commute)

lemma streamReader_Read_frames:
  assumes "aead_ok a" "\<forall>x\<in>set xs. frame_ok x" "reads (rbody sr) (concat (map (frame a i) xs)) e"
    "\<not> off sr < length (decrypted sr)" "0 < k"
  shows "if concat (map snd xs) = [] then \<exists>sr'. streamReader_Read a k sr = (Err e, sr') \<and> tunnel_reads a sr' [] e
    else \<exists>p s' sr'. streamReader_Read a k sr = (Ok p, sr') \<and> p \<noteq> [] \<and> length p \<le> k \<and>
           concat (map snd xs) = p @ s' \<and> tunnel_reads a sr' s' e"
  using assms
proof (induction xs arbitrary: sr)
  case Nil
  have "length ([] :: bytes) < 4"
    by simp
  then obtain r' where "ReadFull 4 (rbody sr) = (Inl e, r')" "reads r' [] e"
    using full.rd_short [of "rbody sr" "[]" e 4] Nil.prems(3) by (auto simp: short_read_def)
  then have "streamReader_Read a k sr = (Err e, \<lparr>rbody = r', decrypted = [], off = 0\<rparr>)"
    "tunnel_reads a \<lparr>rbody = r', decrypted = [], off = 0\<rparr> [] e"
    using Nil.prems by (auto simp: streamReader_Read.simps [of a k sr] next_message_def tunnel_reads_def intro!: exI [of _ "[]"])
  then show ?case
    by simp
next
  case (Cons x xs)
  obtain r' where r': "next_message a (rbody sr) = (Ok (snd x), r')" "reads r' (concat (map (frame a i) xs)) e"
    by (rule next_message_frame [of a x "rbody sr" i "concat (map (frame a i) xs)" e]) (use Cons.prems in auto)
  let ?sr = "\<lparr>rbody = r', decrypted = snd x, off = 0\<rparr>"
  have step: "streamReader_Read a k sr = streamReader_Read a k ?sr"
    using Cons.prems(4) r'(1) by (subst streamReader_Read.simps) simp
  show ?case
  proof (cases "snd x = []")
    case True
    then have eqs: "concat (map snd (x # xs)) = concat (map snd xs)"
      by simp
    show ?thesis
      unfolding eqs step by (rule Cons.IH) (use Cons.prems r' True in auto)
  next
    case False
    let ?d = "snd x"
    have "streamReader_Read a k sr = (Ok (take k ?d), ?sr\<lparr>off := min k (length ?d)\<rparr>)"
      using streamReader_Read_buffered [of ?sr a k] False step by simp
    moreover have "tunnel_reads a (?sr\<lparr>off := min k (length ?d)\<rparr>) (drop k ?d @ concat (map snd xs)) e"
      unfolding tunnel_reads_def using Cons.prems(1,2) r'(2) by (auto simp: min_def intro!: exI [of _ i] exI [of _ xs])
    ultimately show ?thesis
      using False Cons.prems(5)
      by (auto intro!: exI [of _ "take k ?d"] exI [of _ "drop k ?d @ concat (map snd xs)"])
  qed
qed

interpretation download: byte_source "streamReader_Read a" "tunnel_reads a" for a
proof
  fix sr s e and k :: nat assume *: "tunnel_reads a sr s e" "s \<noteq> []" "0 < k"
  then obtain i xs where xs: "aead_ok a" "\<forall>x\<in>set xs. frame_ok x" "reads (rbody sr) (concat (map (frame a i) xs)) e"
    "s = drop (off sr) (decrypted sr) @ concat (map snd xs)"
    by (auto simp: tunnel_reads_def)
  show "\<exists>p s' r'. streamReader_Read a k sr = (Ok p, r') \<and> p \<noteq> [] \<and> length p \<le> k \<and> s = p @ s' \<and> tunnel_reads a r' s' e"
  proof (cases "off sr < length (decrypted sr)")
    case True
    let ?d = "drop (off sr) (decrypted sr)"
    have "tunnel_reads a (sr\<lparr>off := off sr + min k (length (decrypted sr) - off sr)\<rparr>) (drop k ?d @ concat (map snd xs)) e"
      unfolding tunnel_reads_def using xs by (auto simp: min_def add.commute intro!: exI [of _ i] exI [of _ xs])
    moreover have "s = take k ?d @ drop k ?d @ concat (map snd xs)"
      unfolding xs(4) by (metis append.assoc append_take_drop_id)
    moreover have "take k ?d \<noteq> []" "length (take k ?d) \<le> k"
      using True *(3) by simp_all
    ultimately show ?thesis
      using streamReader_Read_buffered [OF True, of a k] by blast
  next
    case False
    then show ?thesis
      using streamReader_Read_frames [OF xs(1-3) False *(3)] xs(4) *(2) by simp
  qed
next
  fix sr e and k :: nat assume *: "tunnel_reads a sr [] e" "0 < k"
  then obtain i xs where xs: "aead_ok a" "\<forall>x\<in>set xs. frame_ok x" "reads (rbody sr) (concat (map (frame a i) xs)) e"
    "\<not> off sr < length (decrypted sr)" "concat (map snd xs) = []"
    by (auto simp: tunnel_reads_def)
  show "\<exists>r'. streamReader_Read a k sr = (Err e, r') \<and> tunnel_reads a r' [] e"
    using streamReader_Read_frames [OF xs(1-4) *(2)] xs(5) by simp
qed

text \<open>
  C20: What the server streams is what the client reads.  Writing any chunks of at most 32 KiB with
  \<^verbatim>\<open>handleDownload\<close>'s loop puts some bytes on the response; however the network cuts these up on the
  way, and whatever error \<open>e\<close> the body ends with, copying from the client's \<^verbatim>\<open>streamReader\<close> delivers
  the chunks' bytes in order, exactly once, and then \<open>e\<close>.
\<close>

theorem download_roundtrip:
  assumes "aead_ok a" "\<forall>x\<in>set xs. length (fst x) = NonceSize \<and> length (snd x) \<le> 32 * 1024"
    and "budget w = None" "length (concat (map snd xs)) < n"
  shows "\<exists>w' onwire. send_chunks a Write i xs w = (Inr (), w') \<and> sent w' = sent w @ onwire \<and>
    (\<forall>r e. productive r \<and> stream r = onwire \<and> fin r = e \<longrightarrow>
       io_Copy (streamReader_Read a) n \<lparr>rbody = r, decrypted = [], off = 0\<rparr> = Some (concat (map snd xs), e))"
proof -
  obtain w' where w': "send_chunks a Write i xs w = (Inr (), w')" "sent w' = sent w @ concat (map (frame a i) xs)"
    using plain.send_chunks_frames [of w a i xs] assms(3) by (auto simp: unlimited_def)
  have "io_Copy (streamReader_Read a) n \<lparr>rbody = r, decrypted = [], off = 0\<rparr> = Some (concat (map snd xs), e)"
    if "reads r (concat (map (frame a i) xs)) e" for r e
  proof (rule download.io_Copy_all)
    show "tunnel_reads a \<lparr>rbody = r, decrypted = [], off = 0\<rparr> (concat (map snd xs)) e"
      using that assms(1,2) by (auto simp: tunnel_reads_def frame_ok_def)
  qed (use assms(4) in simp)
  then show ?thesis
    using w' by (auto simp: reads_def)
qed

theorem download_roundtrip_witness:
  "\<exists>w' onwire. send_chunks plain_aead Write 1 [(replicate 12 9, [1, 2]), (replicate 12 8, [3])] \<lparr>sent = [], budget = None, werr = EOF\<rparr> = (Inr (), w') \<and>
     sent w' = onwire \<and>
     io_Copy (streamReader_Read plain_aead) 4 \<lparr>rbody = \<lparr>chunks = filter (\<lambda>c. c \<noteq> []) [take 5 onwire, drop 5 onwire], fin = EOF\<rparr>, decrypted = [], off = 0\<rparr>
       = Some ([1, 2, 3], EOF)"
proof -
  let ?xs = "[(replicate 12 9, [1, 2]), (replicate 12 8, [3])] :: (bytes \<times> bytes) list"
  have "\<forall>x\<in>set ?xs. length (fst x) = NonceSize \<and> length (snd x) \<le> 32 * 1024"
    by (simp add: NonceSize_def)
  then obtain w' onwire where w': "send_chunks plain_aead Write 1 ?xs \<lparr>sent = [], budget = None, werr = EOF\<rparr> = (Inr (), w')"
    "sent w' = onwire"
    and all: "\<And>r e. productive r \<and> stream r = onwire \<and> fin r = e \<Longrightarrow>
       io_Copy (streamReader_Read plain_aead) 4 \<lparr>rbody = r, decrypted = [], off = 0\<rparr> = Some ([1, 2, 3], e)"
    using download_roundtrip [OF plain_aead_ok, of ?xs "\<lparr>sent = [], budget = None, werr = EOF\<rparr>" 4 1] by auto
  have "productive \<lparr>chunks = filter (\<lambda>c. c \<noteq> []) [take 5 onwire, drop 5 onwire], fin = EOF\<rparr>"
    "stream \<lparr>chunks = filter (\<lambda>c. c \<noteq> []) [take 5 onwire, drop 5 onwire], fin = EOF\<rparr> = onwire"
    by (auto simp: productive_def stream_def)
  then show ?thesis
    using w' all by auto
qed

text \<open>
  Cutting the payload out of a decrypted message panics exactly when the message announces
  at least \<open>2^32 - 10\<close> bytes: \<^verbatim>\<open>10+payloadLen\<close> wraps around, passes the length check and cuts a
  slice that ends before it starts.  In every other case the reader goes on, with the announced
  bytes or, when they are not all there, with none.
\<close>

theorem payload_of_cases:
  "payload_of dec =
     (let n = unat (be32 (drop 6 (take 10 dec)))
      in if length dec \<le> 10 then Ok []
         else if 2 ^ 32 - 10 \<le> n then Panic ''slice bounds out of range''
         else if 10 + n \<le> length dec then Ok (take n (drop 10 dec))
         else Ok [])"
proof -
  let ?l = "be32 (drop 6 (take 10 dec))"
  have lt: "unat ?l < 2 ^ 32"
    using unsigned_less [of ?l, where 'a = nat] by simp
  have wrap: "unat (10 + ?l) = (if 2 ^ 32 - 10 \<le> unat ?l then unat ?l - (2 ^ 32 - 10) else 10 + unat ?l)"
    using lt by (auto simp: unat_word_ariths mod_if)
  show ?thesis
  proof (cases "2 ^ 32 - 10 \<le> unat ?l")
    case True
    then have "unat (10 + ?l) < 10"
      using lt wrap by simp
    then show ?thesis
      using True by (simp add: payload_of_def Let_def go_simps)
  next
    case False
    then have "unat (10 + ?l) = 10 + unat ?l"
      using wrap by simp
    then show ?thesis
      using False by (simp add: payload_of_def Let_def go_simps drop_take)
  qed
qed

subsection \<open>Connection ids\<close>

primrec conn_ids :: "nat \<Rightarrow> Transport \<Rightarrow> u32 list" where
  "conn_ids 0 t = []"
| "conn_ids (Suc n) t = (case NextConnID t of (i, t') \<Rightarrow> i # conn_ids n t')"

lemma word_of_nat_nonzero: "0 < k \<Longrightarrow> k < 2 ^ 32 \<Longrightarrow> (of_nat k :: u32) \<noteq> 0"
  by (subst word_unat_eq_iff) (simp add: unat_of_nat)

lemma conn_ids_from:
  "connIDGen t = of_nat k \<Longrightarrow> 0 < k \<Longrightarrow> k + n \<le> 2 ^ 32 \<Longrightarrow> conn_ids n t = map of_nat [k..<k + n]"
proof (induction n arbitrary: t k)
  case (Suc n)
  show ?case
  proof (cases n)
    case 0
    then show ?thesis
      using Suc.prems by (simp add: NextConnID_def Let_def)
  next
    case (Suc m)
    have "(of_nat (Suc k) :: u32) \<noteq> 0"
      using Suc.prems(3) Suc by (intro word_of_nat_nonzero) simp_all
    then have "connIDGen (snd (NextConnID t)) = of_nat (Suc k)"
      using Suc.prems(1) by (simp add: NextConnID_def Let_def add.commute)
    then show ?thesis
      using Suc.IH [of "snd (NextConnID t)" "Suc k"] Suc.prems
      by (simp add: NextConnID_def Let_def upt_conv_Cons case_prod_beta del: upt_Suc)
  qed
qed simp

text \<open>
  A new transport hands out \<open>1, 2, 3, ...\<close>: its first \<open>2^32 - 1\<close> connection ids are pairwise
  different and never 0.
\<close>

theorem connection_ids_distinct:
  assumes "NewTransport parsed serverURL fHost fIP proto = Inr t" "n < 2 ^ 32"
  shows "conn_ids n t = map of_nat [1..<Suc n] \<and> distinct (conn_ids n t) \<and> 0 \<notin> set (conn_ids n t)"
proof -
  have "connIDGen t = 1"
    using assms(1) by (auto simp: NewTransport_def split: sum.splits if_splits)
  then have ids: "conn_ids n t = map of_nat [1..<Suc n]"
    using conn_ids_from [of t 1 n] assms(2) by simp
  moreover have "inj_on (of_nat :: nat \<Rightarrow> u32) {1..<Suc n}"
    using assms(2) by (auto intro!: inj_onI simp: word_unat_eq_iff unat_of_nat)
  moreover have "(of_nat k :: u32) \<noteq> 0" if "k \<in> {1..<Suc n}" for k
    using that assms(2) by (intro word_of_nat_nonzero) simp_all
  ultimately show ?thesis
    by (auto simp: distinct_map simp del: upt_Suc)
qed

theorem connection_ids_distinct_witness:
  "\<exists>t. NewTransport (Inr \<lparr>Scheme = ''https'', UHost = ''h'', Hostname = ''h''\<rparr>) ''https://h'' [] ''10.0.0.1'' [] = Inr t \<and>
     conn_ids 3 t = [1, 2, 3]"
proof -
  obtain t where t: "NewTransport (Inr \<lparr>Scheme = ''https'', UHost = ''h'', Hostname = ''h''\<rparr>) ''https://h'' [] ''10.0.0.1'' [] = Inr t"
    by (simp add: NewTransport_def client_normalizeAppProtocol_def)
  then show ?thesis
    using connection_ids_distinct [OF t, of 3] by (auto simp: upt_rec)
qed

end
