(* ===== verification/Dpi_Tunnel.thy ===== *)
theory Dpi_Tunnel
  imports Dpi_Transport
begin

text \<open>
  The DPI client and server together: the transport of \<^verbatim>\<open>dpi/client\<close> with an HTTP client that
  reaches the routes of \<^verbatim>\<open>dpi/server\<close>.  The lemmas evaluate a posted message in the server's handler;
  the properties say what a connect, a sequence of uploads and a close do to the far end, what two
  clients of one server do to each other, and when \<^verbatim>\<open>Connect\<close> returns.
\<close>

subsection \<open>A network that delivers\<close>

definition serve :: "AEAD \<Rightarrow> network \<Rightarrow> string \<Rightarrow> string \<Rightarrow> out_request \<Rightarrow> server \<Rightarrow> (error + http_response) \<times> server" where
  "serve a nw redirectURL base req s =
     (let path = TrimPrefix (Url req) base;
          r = \<lparr>Method = OMethod req, Path = path, Body = Inr (OBody req)\<rparr>
      in case mux path of
           ToTunnel \<Rightarrow>
             (case handleTunnel a nw r s of
                (Ok resp, s') \<Rightarrow> (Inr resp, s')
              | (Err e, s') \<Rightarrow> (Inl e, s')
              | (Panic m, s') \<Rightarrow> (Inl EOF, s'))
         | ToDownload \<Rightarrow>
             (case handleDownload r s of
                Refused resp \<Rightarrow> (Inr resp, s)
              | Streaming i p \<Rightarrow> (Inr (reply []), s))
         | ToSlash \<Rightarrow> (Inr \<lparr>Status = 301, RespBody = [], Location = path @ ''/''\<rparr>, s)
         | ToRoot \<Rightarrow> (Inr (handleRoot redirectURL), s))"

text \<open>
  The state is the server and the number of nonces drawn; \<open>ns\<close> is the sequence of nonces and \<open>ds\<close>
  answers the streaming requests.
\<close>

definition honest ::
  "AEAD \<Rightarrow> network \<Rightarrow> (nat \<Rightarrow> bytes) \<Rightarrow> string \<Rightarrow> (out_request \<Rightarrow> server \<times> nat \<Rightarrow> (error + nat \<times> reader) \<times> (server \<times> nat)) \<Rightarrow> (server \<times> nat) net_env" where
  "honest a nw ns base ds =
     \<lparr>rand = (\<lambda>(s, k). (Inr (ns k), (s, Suc k))),
      url_err = (\<lambda>_. None),
      Do = (\<lambda>req (s, k). case serve a nw [] base req s of (x, s') \<Rightarrow> (x, (s', k))),
      Do_stream = ds\<rparr>"

lemma Header_Set_simps [simp]:
  "OMethod (Header_Set k v r) = OMethod r" "Url (Header_Set k v r) = Url r" "OBody (Header_Set k v r) = OBody r"
  by (simp_all add: Header_Set_def)

lemma setBrowserHeaders_simps [simp]:
  "OMethod (setBrowserHeaders t r) = OMethod r" "Url (setBrowserHeaders t r) = Url r" "OBody (setBrowserHeaders t r) = OBody r"
  by (simp_all add: setBrowserHeaders_def browser_headers_def)

lemma post_request_simps [simp]:
  "OMethod (post_request t u b) = ''POST''" "Url (post_request t u b) = u" "OBody (post_request t u b) = b"
  by (simp_all add: post_request_def)

definition answered :: "nat \<Rightarrow> http_response go \<times> server \<Rightarrow> (error + http_response) \<times> server \<times> nat" where
  "answered k x = ((case fst x of Ok r \<Rightarrow> Inr r | Err e \<Rightarrow> Inl e | Panic m \<Rightarrow> Inl EOF), snd x, k)"

lemma post_message_honest:
  assumes "aead_ok a" "\<forall>k. length (ns k) = NonceSize" "mux path = ToTunnel"
  shows "post_message a (honest a nw ns (baseURL t) ds) t path ty i payload (s, k) =
    answered (Suc k) (handle_message nw \<lparr>HVersion = 1, MsgType = ty, ConnID = i, PayloadLen = of_nat (length payload)\<rparr> payload s)"
proof -
  let ?e = "sealed a (ns k) ty i payload"
  have enc: "Encrypt a (Inr (ns k)) (header_bytes ty i (of_nat (length payload)) @ payload) = Inr ?e"
    by (simp add: Encrypt_def sealed_def)
  have "handleTunnel a nw \<lparr>Method = ''POST'', Path = path, Body = Inr ?e\<rparr> s =
      handle_message nw \<lparr>HVersion = 1, MsgType = ty, ConnID = i, PayloadLen = of_nat (length payload)\<rparr> payload s"
    using handleTunnel_sealed [OF assms(1), of "ns k"] assms(2) by simp
  then show ?thesis
    using enc assms(3)
    by (simp add: post_message_def honest_def serve_def TrimPrefix_append answered_def Let_def case_prod_beta split: go.splits prod.splits)
qed

lemma mux_upload: "mux ''/.well-known/cdn-cache/upload'' = ToTunnel" "mux ''/api/v2/upload'' = ToTunnel"
  by (simp_all add: mux_def HasPrefix_def)

subsection \<open>The operations against the handlers\<close>

lemma connect_answers:
  "connect_result i (reply (connect_ok j)) = Inr i"
  "connect_result i (reply connect_failed) = Inl (Errorf (''connect failed: '' @ connect_failed))"
  "\<not> is_redirect (reply b)"
  by (simp_all add: connect_result_def reply_def connect_ok_def connect_failed_def HasPrefix_def is_redirect_def)

definition opened :: "u32 \<Rightarrow> string \<Rightarrow> server \<Rightarrow> server" where
  "opened i addr s = registerClient i (length (conns s)) (s\<lparr>conns := conns s @ [new_clientConn i addr]\<rparr>)"

lemma Connect_honest:
  assumes "aead_ok a" "\<forall>k. length (ns k) = NonceSize" "length net < 65534" "length addr < 65536"
  shows "Connect a (honest a nw ns (baseURL t) ds) net addr t (s, k) =
    (case dial_err nw net addr of
       Some e \<Rightarrow> Some (Inl (Errorf (''connect failed: '' @ connect_failed)), snd (NextConnID t), (s, Suc k))
     | None \<Rightarrow> Some (Inr (connIDGen t), snd (NextConnID t), (opened (connIDGen t) addr s, Suc k)))"
proof -
  let ?i = "connIDGen t" and ?req = "\<lparr>ReqNetwork = net, ReqAddress = addr\<rparr>"
  obtain t1 where next_id: "NextConnID t = (?i, t1)" and base: "baseURL t1 = baseURL t"
    by (simp add: NextConnID_def Let_def)
  have h: "handle_message nw \<lparr>HVersion = 1, MsgType = MsgConnect, ConnID = ?i, PayloadLen = of_nat (length (EncodeConnectRequest ?req))\<rparr>
      (EncodeConnectRequest ?req) s = (Ok (fst (handleConnect nw ?i ?req s)), snd (handleConnect nw ?i ?req s))"
    by (rule handle_message_connect) (use assms(3,4) in simp_all)
  have "post_message a (honest a nw ns (baseURL t) ds) t1 ''/.well-known/cdn-cache/upload'' MsgConnect ?i (EncodeConnectRequest ?req) (s, k)
      = answered (Suc k) (Ok (fst (handleConnect nw ?i ?req s)), snd (handleConnect nw ?i ?req s))"
    using post_message_honest [OF assms(1,2) mux_upload(1), of nw t1 ds MsgConnect ?i "EncodeConnectRequest ?req" s k]
    unfolding base h .
  then show ?thesis
    by (cases "dial_err nw net addr")
      (simp_all add: Connect.simps [of a _ net addr t] next_id answered_def handleConnect_def opened_def connect_answers)
qed

lemma SendData_honest:
  assumes "aead_ok a" "\<forall>k. length (ns k) = NonceSize"
  shows "SendData a (honest a nw ns (baseURL t) ds) t i data (s, k) = (None, (handle_data nw i data s, Suc k))"
  using post_message_honest [OF assms mux_upload(2), where t = t and ty = MsgData]
  by (simp add: SendData_def handle_message_def msg_consts answered_def)

lemma CloseConn_honest:
  assumes "aead_ok a" "\<forall>k. length (ns k) = NonceSize"
  shows "CloseConn a (honest a nw ns (baseURL t) ds) t i (s, k) = (None, (handle_close i s, Suc k))"
  using post_message_honest [OF assms mux_upload(2), where t = t and ty = MsgClose]
  by (simp add: CloseConn_def handle_message_def msg_consts answered_def)

primrec send_all :: "AEAD \<Rightarrow> 's net_env \<Rightarrow> Transport \<Rightarrow> u32 \<Rightarrow> bytes list \<Rightarrow> 's \<Rightarrow> error option \<times> 's" where
  "send_all a env t i [] s = (None, s)"
| "send_all a env t i (d # ds) s =
     (case SendData a env t i d s of
        (Some e, s') \<Rightarrow> (Some e, s')
      | (None, s') \<Rightarrow> send_all a env t i ds s')"

lemma handle_data_open:
  assumes "clients s i = Some p" "p < length (conns s)" "\<not> rclosed (conns s ! p)" "write_err nw p d = None"
  shows "handle_data nw i d s = set_conn p ((conns s ! p)\<lparr>rout := rout (conns s ! p) @ d\<rparr>) s"
  using assms by (simp add: handle_data_def getClient_def remote_Write_def Let_def)

lemma send_all_honest:
  assumes "aead_ok a" "\<forall>k. length (ns k) = NonceSize" "\<forall>d. write_err nw p d = None"
  shows "\<lbrakk>clients s i = Some p; p < length (conns s); \<not> rclosed (conns s ! p)\<rbrakk> \<Longrightarrow>
    send_all a (honest a nw ns (baseURL t) ds) t i xs (s, k) =
      (None, (set_conn p ((conns s ! p)\<lparr>rout := rout (conns s ! p) @ concat xs\<rparr>) s, k + length xs))"
proof (induction xs arbitrary: s k)
  case Nil
  then show ?case by (simp add: set_conn_def)
next
  case (Cons x xs)
  let ?s = "set_conn p ((conns s ! p)\<lparr>rout := rout (conns s ! p) @ x\<rparr>) s"
  have "SendData a (honest a nw ns (baseURL t) ds) t i x (s, k) = (None, (?s, Suc k))"
    using SendData_honest [OF assms(1,2)] handle_data_open [of s i p nw x] Cons.prems assms(3) by simp
  then show ?case
    using Cons.IH [of ?s "Suc k"] Cons.prems by (simp add: set_conn_def)
qed

lemma handle_close_open:
  "clients s i = Some p \<Longrightarrow> handle_close i s = unregisterClient i (remote_Close p s)"
  by (simp add: handle_close_def getClient_def)

subsection \<open>Properties\<close>

text \<open>
  C19: A tunnelled connection from end to end.  Against a server whose dial succeeds, \<^verbatim>\<open>Connect\<close>
  returns the transport's next id; then the uploads of any data arrive at a connection to the
  requested address, in order and unchanged, and \<^verbatim>\<open>CloseConn\<close> closes that connection and removes it
  from the registry.  When the dial fails, \<^verbatim>\<open>Connect\<close> returns an error and the server is as before.
\<close>

theorem tunnel_upload_end_to_end:
  assumes "aead_ok a" "\<forall>k. length (ns k) = NonceSize" "length net < 65534" "length addr < 65536"
    and "\<forall>p d. write_err nw p d = None"
    and "env = honest a nw ns (baseURL t) ds" "i = connIDGen t" "p = length (conns s)"
  shows "case dial_err nw net addr of
      Some e \<Rightarrow> \<exists>msg t'. Connect a env net addr t (s, k) = Some (Inl (Errorf msg), t', (s, Suc k))
    | None \<Rightarrow>
        \<exists>t' s1 s2 s3. Connect a env net addr t (s, k) = Some (Inr i, t', (s1, Suc k)) \<and>
          send_all a env t' i xs (s1, Suc k) = (None, (s2, Suc k + length xs)) \<and>
          getClient i s2 = Some p \<and> targetAddr (conns s2 ! p) = addr \<and>
          rout (conns s2 ! p) = concat xs \<and> \<not> rclosed (conns s2 ! p) \<and> take p (conns s2) = conns s \<and>
          CloseConn a env t' i (s2, Suc k + length xs) = (None, (s3, Suc (Suc k + length xs))) \<and>
          getClient i s3 = None \<and> rout (conns s3 ! p) = concat xs \<and> rclosed (conns s3 ! p)"
proof (cases "dial_err nw net addr")
  case None
  let ?s1 = "opened i addr s" and ?t = "snd (NextConnID t)"
  let ?s2 = "set_conn p ((new_clientConn i addr)\<lparr>rout := concat xs\<rparr>) ?s1"
  let ?s3 = "unregisterClient i (remote_Close p ?s2)"
  have c: "Connect a env net addr t (s, k) = Some (Inr i, ?t, (?s1, Suc k))"
    using Connect_honest [OF assms(1-4)] None assms(6,7) by simp
  have env: "env = honest a nw ns (baseURL ?t) ds"
    using assms(6) by (simp add: NextConnID_def Let_def)
  have s1: "clients ?s1 i = Some p" "p < length (conns ?s1)" "conns ?s1 ! p = new_clientConn i addr"
    using assms(8) by (simp_all add: opened_def registerClient_def)
  have u: "send_all a env ?t i xs (?s1, Suc k) = (None, (?s2, Suc k + length xs))"
    using send_all_honest [OF assms(1,2), of nw p ?s1 i ?t ds xs "Suc k"] s1 assms(5)
    by (simp add: env new_clientConn_def)
  have "clients ?s2 i = Some p"
    using s1 by simp
  then have x: "CloseConn a env ?t i (?s2, Suc k + length xs) = (None, (?s3, Suc (Suc k + length xs)))"
    using CloseConn_honest [OF assms(1,2)] unfolding env by (simp add: handle_close_open)
  show ?thesis
    using c u x s1 assms(8) None
    by (simp add: getClient_def opened_def registerClient_def remote_Close_def new_clientConn_def nth_append list_update_append)
qed (use Connect_honest [OF assms(1-4)] assms(6) in simp)

definition demo_transport :: Transport where
  "demo_transport = \<lparr>baseURL = ''http://s'', scheme = ''http'', host = ''s'', frontHost = [], frontIP = ''1.2.3.4'',
     protocol = ''auto'', connIDGen = 1\<rparr>"

definition demo_env :: "(server \<times> nat) net_env" where
  "demo_env = honest plain_aead reliable (\<lambda>_. replicate 12 0) (baseURL demo_transport) (\<lambda>_ s. (Inl EOF, s))"

theorem tunnel_upload_end_to_end_witness:
  "\<exists>t' s1 s2. Connect plain_aead demo_env ''tcp'' ''h:80'' demo_transport (new_server, 0) = Some (Inr 1, t', (s1, Suc 0)) \<and>
     send_all plain_aead demo_env t' 1 [[1, 2], [3]] (s1, Suc 0) = (None, (s2, Suc 0 + 2)) \<and>
     rout (conns s2 ! 0) = [1, 2, 3]"
proof -
  have dial: "dial_err reliable ''tcp'' ''h:80'' = None" "\<forall>p d. write_err reliable p d = None"
    and n: "\<forall>k :: nat. length (replicate 12 (0 :: byte)) = NonceSize"
    and i: "1 = connIDGen demo_transport" and p: "0 = length (conns new_server)"
    and sizes: "length ''tcp'' < 65534" "length ''h:80'' < 65536" "length [[1, 2 :: byte], [3]] = 2" "concat [[1, 2 :: byte], [3]] = [1, 2, 3]"
    by (simp_all add: reliable_def NonceSize_def demo_transport_def new_server_def)
  show ?thesis
    using tunnel_upload_end_to_end [OF plain_aead_ok n sizes(1,2) dial(2) demo_env_def i p, of 0 "[[1, 2], [3]]"]
    unfolding dial(1) option.case sizes(3,4) by blast
qed

text \<open>
  C38: Connection ids are chosen by the clients, each starting from 1, and the server looks a
  connection up by its id alone.  When two clients of one server open their first connections, one
  after the other, what the first then uploads is written to the target of the second, and the
  first client's own connection gets nothing.
\<close>

theorem first_connections_collide:
  assumes "aead_ok a" "\<forall>k. length (ns k) = NonceSize" "length addrA < 65536" "length addrB < 65536"
    and "NewTransport parsedA urlA fHostA fIPA protoA = Inr tA" "NewTransport parsedB urlB fHostB fIPB protoB = Inr tB"
    and "urlA = urlB" "env = honest a reliable ns urlA ds"
  shows "\<exists>tA' tB' s1 s2 s3.
      Connect a env ''tcp'' addrA tA (new_server, 0) = Some (Inr 1, tA', (s1, 1)) \<and>
      Connect a env ''tcp'' addrB tB (s1, 1) = Some (Inr 1, tB', (s2, 2)) \<and>
      SendData a env tA' 1 data (s2, 2) = (None, (s3, 3)) \<and>
      map targetAddr (conns s3) = [addrA, addrB] \<and> map rout (conns s3) = [[], data]"
proof -
  have t: "connIDGen tA = 1" "baseURL tA = urlA" "connIDGen tB = 1" "baseURL tB = urlA"
    using assms(5-7) by (auto simp: NewTransport_def split: sum.splits if_splits)
  let ?A = "snd (NextConnID tA)" and ?s1 = "opened 1 addrA new_server"
  let ?s2 = "opened 1 addrB ?s1"
  have "baseURL ?A = urlA"
    using t by (simp add: NextConnID_def Let_def)
  then have A: "SendData a env ?A 1 data (?s2, 2) = (None, (handle_data reliable 1 data ?s2, 3))"
    using SendData_honest [OF assms(1,2), of reliable ?A ds 1 data ?s2 2] assms(8) by simp
  have "Connect a env ''tcp'' addrA tA (new_server, 0) = Some (Inr 1, ?A, (?s1, 1))"
    "Connect a env ''tcp'' addrB tB (?s1, 1) = Some (Inr 1, snd (NextConnID tB), (?s2, 2))"
    using Connect_honest [OF assms(1,2), of "''tcp''" addrA reliable tA ds new_server 0]
      Connect_honest [OF assms(1,2), of "''tcp''" addrB reliable tB ds ?s1 1] t assms(3,4,8)
    by (simp_all add: reliable_def)
  moreover have "handle_data reliable 1 data ?s2 = set_conn 1 ((new_clientConn 1 addrB)\<lparr>rout := data\<rparr>) ?s2"
    using handle_data_open [of ?s2 1 1 reliable data]
    by (simp add: opened_def registerClient_def new_server_def reliable_def new_clientConn_def)
  ultimately show ?thesis
    using A by - (rule exI [of _ ?A], rule exI, rule exI [of _ ?s1], rule exI [of _ ?s2], rule exI, rule conjI, assumption,
      rule conjI, assumption, rule conjI, assumption,
      simp add: opened_def registerClient_def new_server_def new_clientConn_def)
qed

theorem first_connections_collide_witness:
  "\<exists>tA' tB' s1 s2 s3.
      Connect plain_aead demo_env ''tcp'' ''a:1'' demo_transport (new_server, 0) = Some (Inr 1, tA', (s1, 1)) \<and>
      Connect plain_aead demo_env ''tcp'' ''b:2'' demo_transport (s1, 1) = Some (Inr 1, tB', (s2, 2)) \<and>
      SendData plain_aead demo_env tA' 1 [42] (s2, 2) = (None, (s3, 3)) \<and>
      map targetAddr (conns s3) = [''a:1'', ''b:2''] \<and> map rout (conns s3) = [[], [42]]"
proof -
  have t: "NewTransport (Inr \<lparr>Scheme = ''http'', UHost = ''s'', Hostname = ''s''\<rparr>) ''http://s'' [] ''1.2.3.4'' [] = Inr demo_transport"
    by (simp add: NewTransport_def client_normalizeAppProtocol_def demo_transport_def)
  have n: "\<forall>k :: nat. length (replicate 12 (0 :: byte)) = NonceSize"
    and sizes: "length ''a:1'' < 65536" "length ''b:2'' < 65536"
    and env: "demo_env = honest plain_aead reliable (\<lambda>_. replicate 12 0) ''http://s'' (\<lambda>_ s. (Inl EOF, s))"
    by (simp_all add: NonceSize_def demo_env_def demo_transport_def)
  show ?thesis
    by (rule first_connections_collide [OF plain_aead_ok n sizes t t refl env])
qed

text \<open>
  \<^verbatim>\<open>Connect\<close> follows redirects by calling itself, without a limit: when every answer is a
  redirect it never returns.
\<close>

theorem redirects_never_end:
  assumes "\<forall>s. \<exists>n s'. rand env s = (Inr n, s')" "\<forall>u. url_err env u = None"
    and "\<forall>req s. \<exists>resp s'. Do env req s = (Inr resp, s') \<and> is_redirect resp"
  shows "Connect a env net addr t s = None"
proof (rule ccontr)
  assume "Connect a env net addr t s \<noteq> None"
  then obtain y where y: "Connect a env net addr t s = Some y"
    by blast
  have post: "\<exists>resp s'. post_message a env t path ty i payload s = (Inr resp, s') \<and> is_redirect resp" for t path ty i payload s
  proof -
    obtain n s1 where "rand env s = (Inr n, s1)"
      using assms(1) by blast
    moreover obtain resp s2 where "Do env (post_request t (baseURL t @ path) (n @ Seal a n (header_bytes ty i (of_nat (length payload)) @ payload))) s1 = (Inr resp, s2)" "is_redirect resp"
      using assms(3) by blast
    ultimately show ?thesis
      using assms(2) by (simp add: post_message_def Encrypt_def)
  qed
  have "\<not> (a = a \<and> env = env)"
  proof (rule Connect.raw_induct [OF _ y, of "\<lambda>b v nw ad t s y. \<not> (b = a \<and> v = env)"], rule notI)
    fix Con b v nw ad t s y
    assume IH: "\<And>b v nw ad t s y. Con b v nw ad t s = Some y \<Longrightarrow> \<not> (b = a \<and> v = env)"
      and body: "(case NextConnID t of (i, t1) \<Rightarrow>
        (case post_message b v t1 ''/.well-known/cdn-cache/upload'' MsgConnect i
                (EncodeConnectRequest \<lparr>ReqNetwork = nw, ReqAddress = ad\<rparr>) s of
           (Inl e, s1) \<Rightarrow> Some (Inl e, t1, s1)
         | (Inr resp, s1) \<Rightarrow>
             if is_redirect resp then Con b v nw ad (t1\<lparr>baseURL := redirect_target t1 resp\<rparr>) s1
             else Some (connect_result i resp, t1, s1))) = Some y"
      and eqs: "b = a \<and> v = env"
    obtain i t1 where t1: "NextConnID t = (i, t1)"
      by fastforce
    obtain resp s1 where "post_message a env t1 ''/.well-known/cdn-cache/upload'' MsgConnect i
        (EncodeConnectRequest \<lparr>ReqNetwork = nw, ReqAddress = ad\<rparr>) s = (Inr resp, s1)" "is_redirect resp"
      using post by blast
    then show False
      using IH [of b v nw ad "t1\<lparr>baseURL := redirect_target t1 resp\<rparr>" s1 y] body eqs t1 by simp
  qed
  then show False
    by simp
qed

definition redirecting :: "unit net_env" where
  "redirecting = \<lparr>rand = (\<lambda>s. (Inr [], s)), url_err = (\<lambda>_. None),
     Do = (\<lambda>_ s. (Inr \<lparr>Status = 302, RespBody = [], Location = ''/''\<rparr>, s)), Do_stream = (\<lambda>_ s. (Inl EOF, s))\<rparr>"

theorem redirects_never_end_witness:
  "Connect plain_aead redirecting ''tcp'' ''h:80'' demo_transport () = None"
  by (rule redirects_never_end) (simp_all add: redirecting_def is_redirect_def)

end
