(* ===== verification/Dpi_Http_Client.thy ===== *)
theory Dpi_Http_Client
  imports Dpi_Tunnel
begin

text \<open>
  The HTTP client that \<^verbatim>\<open>NewTransport\<close> configures (\<^verbatim>\<open>dpi/client/transport.go\<close>): the settings of its
  \<^verbatim>\<open>http.Transport\<close>, the protocol they lead to against the server's TLS configuration, and the redirect
  policy of \<^verbatim>\<open>http.Client.Do\<close> over single exchanges, which decides whether \<^verbatim>\<open>Connect\<close> ever sees a
  redirect.
\<close>

subsection \<open>Settings\<close>

text \<open>\<open>TLSNextProto\<close> is \<open>None\<close> for the nil map; durations are in seconds.\<close>

record http_transport =
  MaxIdleConns :: nat
  IdleConnTimeout :: nat
  DisableCompression :: bool
  MaxIdleConnsPerHost :: nat
  ForceAttemptHTTP2 :: bool
  TLSNextProto :: "string list option"

definition http_settings :: "string \<Rightarrow> http_transport" where
  "http_settings proto =
     \<lparr>MaxIdleConns = 256, IdleConnTimeout = 120, DisableCompression = True, MaxIdleConnsPerHost = 128,
      ForceAttemptHTTP2 = (proto \<noteq> ''h1''), TLSNextProto = (if proto = ''h1'' then Some [] else None)\<rparr>"

text \<open>
  The protocols the transport offers: HTTP/2 is set up when \<^verbatim>\<open>TLSNextProto\<close> is nil and, since the
  transport has a dial function and a TLS configuration of its own, only when it is forced.  A
  client that offers nothing speaks HTTP/1.1.
\<close>

definition offered_protos :: "http_transport \<Rightarrow> string list" where
  "offered_protos h = (if TLSNextProto h = None \<and> ForceAttemptHTTP2 h then [''h2'', ''http/1.1''] else [])"

text \<open>The server's choice: its first protocol that the client offers; no overlap is an error.\<close>

definition negotiate :: "string list \<Rightarrow> string list \<Rightarrow> error + string" where
  "negotiate server client =
     (if client = [] then Inr ''http/1.1''
      else (case filter (\<lambda>p. p \<in> set client) server of
              [] \<Rightarrow> Inl (Errorf ''tls: client requested unsupported application protocols'')
            | p # _ \<Rightarrow> Inr p))"

subsection \<open>Redirects\<close>

text \<open>The method of the request after a redirect and whether it keeps its body.\<close>

definition redirect_behavior :: "string \<Rightarrow> nat \<Rightarrow> (string \<times> bool) option" where
  "redirect_behavior meth status =
     (if status \<in> {301, 302, 303} then Some (if meth \<noteq> ''GET'' \<and> meth \<noteq> ''HEAD'' then ''GET'' else meth, False)
      else if status \<in> {307, 308} then Some (meth, True)
      else None)"

text \<open>
  \<^verbatim>\<open>http.Client.Do\<close>: \<open>exchange\<close> is one round trip, \<open>resolve\<close> resolves a reference against a URL and tells
  whether it was relative, \<open>host\<close> is the host header of the first request, and \<open>n\<close> is the number of
  redirects the client may still follow.
\<close>

fun client_Do ::
  "(out_request \<Rightarrow> 's \<Rightarrow> (error + http_response) \<times> 's) \<Rightarrow> (string \<Rightarrow> string \<Rightarrow> error + string \<times> bool) \<Rightarrow> bool \<Rightarrow> string \<Rightarrow> nat \<Rightarrow>
   out_request \<Rightarrow> 's \<Rightarrow> (error + http_response) \<times> 's" where
  "client_Do exchange resolve follow hst n req s =
     (case exchange req s of
        (Inl e, s') \<Rightarrow> (Inl e, s')
      | (Inr resp, s') \<Rightarrow>
          (case redirect_behavior (OMethod req) (Status resp) of
             None \<Rightarrow> (Inr resp, s')
           | Some (meth, keepBody) \<Rightarrow>
               if Location resp = [] then (Inr resp, s')
               else
                 (case resolve (Url req) (Location resp) of
                    Inl e \<Rightarrow> (Inl (Errorf ''failed to parse Location header''), s')
                  | Inr (u, relative) \<Rightarrow>
                      if \<not> follow then (Inr resp, s')
                      else if n = 0 then (Inl (Errorf ''stopped after 10 redirects''), s')
                      else
                        client_Do exchange resolve follow hst (n - 1)
                          (req\<lparr>OMethod := meth, Url := u, OBody := (if keepBody then OBody req else []),
                               HostHeader := (if relative then hst else [])\<rparr>) s')))"

declare client_Do.simps [simp del]

text \<open>The client of \<^verbatim>\<open>NewTransport\<close>: without \<^verbatim>\<open>followRedirects\<close> a redirect response is returned as it is.\<close>

definition http_client ::
  "(out_request \<Rightarrow> 's \<Rightarrow> (error + http_response) \<times> 's) \<Rightarrow> (string \<Rightarrow> string \<Rightarrow> error + string \<times> bool) \<Rightarrow> bool \<Rightarrow> 's net_env \<Rightarrow> 's net_env" where
  "http_client exchange resolve followRedirects env =
     env\<lparr>Do := (\<lambda>req. client_Do exchange resolve followRedirects (HostHeader req) 9 req)\<rparr>"

text \<open>
  A front that answers the first upload with a redirect to the base URL of the server behind it,
  and that server.
\<close>

definition front_exchange :: "AEAD \<Rightarrow> network \<Rightarrow> nat \<Rightarrow> string \<Rightarrow> string \<Rightarrow> out_request \<Rightarrow> server \<times> nat \<Rightarrow> (error + http_response) \<times> server \<times> nat" where
  "front_exchange a nw code front base req sk =
     (if Url req = front @ ''/.well-known/cdn-cache/upload'' then (Inr \<lparr>Status = code, RespBody = [], Location = base\<rparr>, sk)
      else (case serve a nw [] base req (fst sk) of (x, s') \<Rightarrow> (x, (s', snd sk))))"

definition fronted ::
  "AEAD \<Rightarrow> network \<Rightarrow> (nat \<Rightarrow> bytes) \<Rightarrow> (out_request \<Rightarrow> server \<times> nat \<Rightarrow> (error + nat \<times> reader) \<times> (server \<times> nat)) \<Rightarrow>
   (string \<Rightarrow> string \<Rightarrow> error + string \<times> bool) \<Rightarrow> nat \<Rightarrow> string \<Rightarrow> string \<Rightarrow> bool \<Rightarrow> (server \<times> nat) net_env" where
  "fronted a nw ns ds resolve code front base follow =
     http_client (front_exchange a nw code front base) resolve follow (honest a nw ns base ds)"

subsection \<open>Facts\<close>

lemma negotiated:
  assumes "normalizeAppProtocol sp = Inr p" "client_normalizeAppProtocol cp = Inr q"
  shows "negotiate (tlsNextProtos p withACME) (offered_protos (http_settings q)) =
    Inr (if p = ''h1'' \<or> q = ''h1'' then ''http/1.1'' else ''h2'')"
  by (simp add: negotiate_def tlsNextProtos_def offered_protos_def http_settings_def)

lemma front_exchange_other:
  "Url req \<noteq> front @ ''/.well-known/cdn-cache/upload'' \<Longrightarrow>
   front_exchange a nw code front base req sk = Do (honest a nw ns base ds) req sk"
  by (cases sk) (simp add: front_exchange_def honest_def)

lemma client_Do_plain:
  "exchange req s = (Inr resp, s') \<Longrightarrow> redirect_behavior (OMethod req) (Status resp) = None \<Longrightarrow>
   client_Do exchange resolve follow hst n req s = (Inr resp, s')"
  by (simp add: client_Do.simps)

lemma client_Do_redirect:
  assumes "exchange req s = (Inr resp, s')" "redirect_behavior (OMethod req) (Status resp) = Some (meth, keep)"
    "Location resp \<noteq> []" "resolve (Url req) (Location resp) = Inr (u, relative)"
  shows "client_Do exchange resolve False hst n req s = (Inr resp, s')"
    "client_Do exchange resolve True hst (Suc n) req s =
       client_Do exchange resolve True hst n (req\<lparr>OMethod := meth, Url := u, OBody := (if keep then OBody req else []),
         HostHeader := (if relative then hst else [])\<rparr>) s'"
  using assms by (simp_all add: client_Do.simps [of exchange resolve _ hst _ req])

text \<open>A message posted through the client, next to the same message posted to the server directly.\<close>

lemma post_message_client:
  "\<exists>e. post_message a (honest a nw ns base ds) t path ty i payload (s, k) =
      Do (honest a nw ns base ds) (post_request t (baseURL t @ path) e) (s, Suc k) \<and>
    (\<forall>exchange resolve follow. post_message a (http_client exchange resolve follow (honest a nw ns base ds)) t path ty i payload (s, k) =
      client_Do exchange resolve follow (HostHeader (post_request t (baseURL t @ path) e)) 9 (post_request t (baseURL t @ path) e) (s, Suc k))"
  by (rule exI [of _ "sealed a (ns k) ty i payload"])
    (simp add: post_message_def http_client_def honest_def Encrypt_def sealed_def)

lemma Connect_fronted:
  assumes "aead_ok a" "\<forall>k. length (ns k) = NonceSize" "length net < 65534" "length addr < 65536" "base \<noteq> front"
    and "baseURL t = base" "dial_err nw net addr = None"
  shows "Connect a (fronted a nw ns ds resolve code front base follow) net addr t (s, k) =
    Some (Inr (connIDGen t), snd (NextConnID t), (opened (connIDGen t) addr s, Suc k))"
proof -
  let ?up = "''/.well-known/cdn-cache/upload''" and ?req = "\<lparr>ReqNetwork = net, ReqAddress = addr\<rparr>"
  let ?i = "connIDGen t" and ?env = "honest a nw ns base ds"
  obtain t1 where n: "NextConnID t = (?i, t1)" "baseURL t1 = base"
    using assms(6) by (simp add: NextConnID_def Let_def)
  obtain e where e: "post_message a ?env t1 ?up MsgConnect ?i (EncodeConnectRequest ?req) (s, k) =
      Do ?env (post_request t1 (base @ ?up) e) (s, Suc k)"
    "post_message a (fronted a nw ns ds resolve code front base follow) t1 ?up MsgConnect ?i (EncodeConnectRequest ?req) (s, k) =
      client_Do (front_exchange a nw code front base) resolve follow (HostHeader (post_request t1 (base @ ?up) e)) 9 (post_request t1 (base @ ?up) e) (s, Suc k)"
    using post_message_client [of a nw ns base ds t1 ?up MsgConnect ?i "EncodeConnectRequest ?req" s k]
    unfolding fronted_def n(2) by blast
  have "post_message a ?env t1 ?up MsgConnect ?i (EncodeConnectRequest ?req) (s, k) = (Inr (reply (connect_ok ?i)), (opened ?i addr s, Suc k))"
    using post_message_honest [OF assms(1,2) mux_upload(1), of nw t1 ds MsgConnect ?i "EncodeConnectRequest ?req" s k]
      handle_message_connect [of ?req nw ?i s] assms(3,4,7) n(2) by (simp add: answered_def handleConnect_def opened_def)
  then have "front_exchange a nw code front base (post_request t1 (base @ ?up) e) (s, Suc k) = (Inr (reply (connect_ok ?i)), (opened ?i addr s, Suc k))"
    using e(1) assms(5) by (subst front_exchange_other [where ns = ns and ds = ds]) simp_all
  then have "post_message a (fronted a nw ns ds resolve code front base follow) t1 ?up MsgConnect ?i (EncodeConnectRequest ?req) (s, k) =
      (Inr (reply (connect_ok ?i)), (opened ?i addr s, Suc k))"
    unfolding e(2) by (rule client_Do_plain) (simp add: redirect_behavior_def reply_def)
  then show ?thesis
    using n(1) by (subst Connect.simps) (simp add: connect_answers)
qed

subsection \<open>Properties\<close>

text \<open>
  C37: Redirects and \<^verbatim>\<open>redirect-follow\<close>.  When a front answers the connect request with a redirect (301, 302
  or 303) to the base URL of a server whose dial succeeds: with the option off, \<^verbatim>\<open>Connect\<close> sees the
  redirect, moves to the new base URL and opens the connection there under its second id; with the
  option on, which is the default, the HTTP client follows the redirect itself as a GET without the
  message, gets the server's page, and \<^verbatim>\<open>Connect\<close> fails with the server unchanged and the base URL
  where it was.
\<close>

theorem redirect_follow_defeats_connect:
  assumes "aead_ok a" "\<forall>k. length (ns k) = NonceSize" "length net < 65534" "length addr < 65536"
    and "code \<in> {301, 302, 303}" "base \<noteq> []" "hd base \<noteq> CHR ''/''" "base \<noteq> baseURL t"
      "base \<noteq> baseURL t @ ''/.well-known/cdn-cache/upload''"
    and "\<forall>u. resolve u base = Inr (base, False)" "dial_err nw net addr = None"
  shows "(\<exists>t'. Connect a (fronted a nw ns ds resolve code (baseURL t) base False) net addr t (s, k) =
        Some (Inr (connIDGen (snd (NextConnID t))), t', (opened (connIDGen (snd (NextConnID t))) addr s, Suc (Suc k))) \<and> baseURL t' = base) \<and>
    (\<exists>e t'. Connect a (fronted a nw ns ds resolve code (baseURL t) base True) net addr t (s, k) =
        Some (Inl e, t', (s, Suc k)) \<and> baseURL t' = baseURL t)"
proof -
  let ?env = "fronted a nw ns ds resolve code (baseURL t) base"
  let ?front = "baseURL t" and ?up = "''/.well-known/cdn-cache/upload''"
  let ?pay = "EncodeConnectRequest \<lparr>ReqNetwork = net, ReqAddress = addr\<rparr>"
  let ?resp = "\<lparr>Status = code, RespBody = [], Location = base\<rparr>"
  obtain i t1 where n: "NextConnID t = (i, t1)" "baseURL t1 = ?front"
    by (simp add: NextConnID_def Let_def)
  have b: "redirect_behavior ''POST'' code = Some (''GET'', False)" "is_redirect ?resp" "redirect_target t1 ?resp = base"
    using assms(5-7) by (auto simp: redirect_behavior_def is_redirect_def redirect_target_def)
  obtain e where e: "post_message a (?env follow) t1 ?up MsgConnect i ?pay (s, k) =
      client_Do (front_exchange a nw code ?front base) resolve follow (HostHeader (post_request t1 (?front @ ?up) e)) 9 (post_request t1 (?front @ ?up) e) (s, Suc k)" for follow
    using post_message_client [of a nw ns base ds t1 ?up MsgConnect i ?pay s k] n(2) unfolding fronted_def by metis
  have x: "front_exchange a nw code ?front base (post_request t1 (?front @ ?up) e) (s, Suc k) = (Inr ?resp, (s, Suc k))"
    by (simp add: front_exchange_def)
  note red = client_Do_redirect [where exchange = "front_exchange a nw code ?front base" and s = "(s, Suc k)", OF x, of "''GET''" False resolve base False]
  have "post_message a (?env False) t1 ?up MsgConnect i ?pay (s, k) = (Inr ?resp, (s, Suc k))"
    unfolding e using red(1) b(1) assms(6,10) by simp
  then have "Connect a (?env False) net addr t (s, k) = Connect a (?env False) net addr (t1\<lparr>baseURL := base\<rparr>) (s, Suc k)"
    using n(1) b(2,3) by (subst Connect.simps) simp
  moreover have "\<exists>e t'. Connect a (?env True) net addr t (s, k) = Some (Inl e, t', (s, Suc k)) \<and> baseURL t' = ?front"
  proof -
    let ?get = "(post_request t1 (?front @ ?up) e)\<lparr>OMethod := ''GET'', Url := base, OBody := [], HostHeader := []\<rparr>"
    have "front_exchange a nw code ?front base ?get (s, Suc k) = (Inr (reply root_page), (s, Suc k))"
      using assms(9) TrimPrefix_append [of base "[]"]
      by (simp add: front_exchange_def serve_def Let_def mux_def HasPrefix_def handleRoot_def)
    then have "client_Do (front_exchange a nw code ?front base) resolve True hst 8 ?get (s, Suc k) = (Inr (reply root_page), (s, Suc k))" for hst
      by (rule client_Do_plain) (simp add: redirect_behavior_def reply_def)
    then have "post_message a (?env True) t1 ?up MsgConnect i ?pay (s, k) = (Inr (reply root_page), (s, Suc k))"
      unfolding e using red(2) [of _ 8] b(1) assms(6,10) by simp
    moreover have "\<exists>e. connect_result i (reply root_page) = Inl e"
      by (simp add: connect_result_def reply_def root_page_def HasPrefix_def)
    ultimately show ?thesis
      using n by (subst Connect.simps) (auto simp: is_redirect_def reply_def)
  qed
  moreover have "connIDGen (t1\<lparr>baseURL := base\<rparr>) = connIDGen (snd (NextConnID t))" "baseURL (snd (NextConnID (t1\<lparr>baseURL := base\<rparr>))) = base"
    by (simp_all add: n(1)) (simp add: NextConnID_def Let_def)
  ultimately show ?thesis
    using Connect_fronted [OF assms(1-4,8), of "t1\<lparr>baseURL := base\<rparr>" nw ds resolve code False s "Suc k"] assms(11) by simp
qed

theorem redirect_follow_defeats_connect_witness:
  "\<exists>t' t'' e s1. Connect plain_aead (fronted plain_aead reliable (\<lambda>_. replicate 12 0) (\<lambda>_ s. (Inl EOF, s)) (\<lambda>_ u. Inr (u, False)) 302 ''http://s'' ''http://d'' False)
        ''tcp'' ''h:80'' demo_transport (new_server, 0) = Some (Inr 2, t', (s1, Suc (Suc 0))) \<and> baseURL t' = ''http://d'' \<and>
     Connect plain_aead (fronted plain_aead reliable (\<lambda>_. replicate 12 0) (\<lambda>_ s. (Inl EOF, s)) (\<lambda>_ u. Inr (u, False)) 302 ''http://s'' ''http://d'' True)
        ''tcp'' ''h:80'' demo_transport (new_server, 0) = Some (Inl e, t'', (new_server, Suc 0))"
proof -
  have f: "baseURL demo_transport = ''http://s''" "connIDGen (snd (NextConnID demo_transport)) = 2"
    by (simp_all add: demo_transport_def NextConnID_def)
  have "\<forall>k :: nat. length (replicate 12 (0 :: byte)) = NonceSize" "length ''tcp'' < 65534" "length ''h:80'' < 65536"
    "302 \<in> {301, 302, 303 :: nat}" "''http://d'' \<noteq> []" "hd ''http://d'' \<noteq> CHR ''/''" "''http://d'' \<noteq> baseURL demo_transport"
    "''http://d'' \<noteq> baseURL demo_transport @ ''/.well-known/cdn-cache/upload''"
    "\<forall>u :: string. (\<lambda>_ u. Inr (u, False)) u ''http://d'' = (Inr (''http://d'', False) :: error + string \<times> bool)"
    "dial_err reliable ''tcp'' ''h:80'' = None"
    by (simp_all add: NonceSize_def f(1) reliable_def)
  from redirect_follow_defeats_connect [where resolve = "\<lambda>_ u. Inr (u, False)" and ns = "\<lambda>_. replicate 12 0"
      and ds = "\<lambda>_ s. (Inl EOF, s)" and s = new_server and k = 0, OF plain_aead_ok this] show ?thesis
    unfolding f by blast
qed

end
