(* ===== verification/Configuration.thy ===== *)
theory Configuration
  imports Go_Net
begin

text \<open>
  The helpers under \<^verbatim>\<open>common/\<close>: the configuration records of \<^verbatim>\<open>configuration/config.go\<close> with loading and
  saving over a file system, address parsing (\<^verbatim>\<open>urls/urls.go\<close>), the INI reader (\<^verbatim>\<open>ini/loader.go\<close>), and
  port probing (\<^verbatim>\<open>utils/PortTool.go\<close>).  \<^verbatim>\<open>PTLog.Fatal\<close> ends the process; a function that may call it
  returns an \<open>outcome\<close>.
\<close>

datatype 'a outcome = Fatal string | Proceed 'a

subsection \<open>Addresses\<close>

text \<open>\<^verbatim>\<open>strconv.ParseUint(s, 10, bits)\<close>; the code uses the number only when there is no error.\<close>

definition ParseUint :: "nat \<Rightarrow> string \<Rightarrow> error + nat" where
  "ParseUint bits s =
     (case parse_base 10 s of
        None \<Rightarrow> Inl (Errorf ''invalid syntax'')
      | Some n \<Rightarrow> if n < 2 ^ bits then Inr n else Inl (Errorf ''value out of range''))"

definition ParsePort :: "string \<Rightarrow> error + nat" where
  "ParsePort portStr = ParseUint 16 portStr"

text \<open>The two attempts at splitting: as it is, and with everything before the last colon in brackets.\<close>

definition split_addr :: "string \<Rightarrow> error + string \<times> string" where
  "split_addr addrStr =
     (case SplitHostPort addrStr of
        Inr x \<Rightarrow> Inr x
      | Inl e \<Rightarrow>
          (let parts = split_on CHR '':'' addrStr
           in if length parts \<le> 2 then Inl e
              else SplitHostPort (''['' @ join_with CHR '':'' (butlast parts) @ '']:'' @ last parts)))"

definition ResolveAddr :: "string \<Rightarrow> error + bytes \<times> nat" where
  "ResolveAddr addrStr =
     (case split_addr addrStr of
        Inl e \<Rightarrow> Inl e
      | Inr (ipStr, portStr) \<Rightarrow>
          if ipStr = [] then Inl (Errorf ''address string lacks a host part'')
          else if portStr = [] then Inl (Errorf ''address string lacks a port part'')
          else
            (case ParseIP ipStr of
               None \<Rightarrow> Inl (Errorf ''not an IP string'')
             | Some ip \<Rightarrow> (case ParsePort portStr of Inl e \<Rightarrow> Inl e | Inr port \<Rightarrow> Inr (ip, port))))"

subsection \<open>The configuration\<close>

definition ObfsIatMode :: string where "ObfsIatMode = ''0''"

record JsonServerConfigImpl =
  sType :: string
  sListen :: string
  sUseExternalService :: bool
  sExternalServiceAddress :: string
  sCert :: string
  sPrivateKey :: string
  sEncKey :: string
  sProtocol :: string
  sHttpAddr :: string
  sHttpsAddr :: string
  sTlsCertFile :: string
  sTlsKeyFile :: string
  sAcmeEmail :: string
  sAcmeDomain :: string
  sSelfSigned :: bool
  sRedirect :: string
  sCertDir :: string
  sSocksBind :: string

record JsonClientConfigImpl =
  cType :: string
  cListen :: string
  cAddress :: string
  cUseExternalService :: bool
  cCert :: string
  cEncKey :: string
  cProtocol :: string
  cSni :: string
  cInsecure :: bool
  cHttpProxyAddr :: string
  cFollowRedirect :: "bool option"
  cDnsUpstream :: string
  cDnsNetwork :: string
  cFrontHost :: string
  cFrontIP :: string
  cVerbose :: bool
  cProxy :: string
  cForwardBind :: string

record JsonConfigImpl =
  cfgServer :: "JsonServerConfigImpl list"
  cfgClient :: "JsonClientConfigImpl list"

type_synonym files = "string \<rightharpoonup> bytes"

text \<open>\<open>unmarshal\<close> and \<open>marshal\<close> are \<^verbatim>\<open>encoding/json\<close> for these records.\<close>

definition Load :: "(bytes \<Rightarrow> error + JsonConfigImpl) \<Rightarrow> string \<Rightarrow> files \<Rightarrow> JsonConfigImpl outcome" where
  "Load unmarshal path fs =
     (case fs path of
        None \<Rightarrow> Fatal ''Can't access the config file''
      | Some bs \<Rightarrow>
          (case unmarshal bs of
             Inl e \<Rightarrow> Fatal ''Failed to parse config file''
           | Inr config \<Rightarrow> Proceed config))"

definition Save :: "(JsonConfigImpl \<Rightarrow> error + bytes) \<Rightarrow> (string \<Rightarrow> error option) \<Rightarrow> string \<Rightarrow> JsonConfigImpl \<Rightarrow> files \<Rightarrow> error option \<times> files" where
  "Save marshal write_err path config fs =
     (case marshal config of
        Inl e \<Rightarrow> (Some e, fs)
      | Inr bs \<Rightarrow>
          (case write_err path of
             Some e \<Rightarrow> (Some e, fs)
           | None \<Rightarrow> (None, fs(path \<mapsto> bs))))"

subsection \<open>INI files\<close>

text \<open>The loop over the lines; \<^verbatim>\<open>s[1]\<close> panics when the line has no equals sign.\<close>

primrec ini_lines :: "string list \<Rightarrow> (string \<rightharpoonup> string) \<Rightarrow> (string \<rightharpoonup> string) go" where
  "ini_lines [] configMap = Ok configMap"
| "ini_lines (l # ls) configMap =
     (let line = TrimSpace l
      in if HasPrefix line ''#'' \<or> line = [] then ini_lines ls configMap
         else
           (case split_on CHR ''='' line of
              s0 # s1 # rest \<Rightarrow> ini_lines ls (configMap(s0 \<mapsto> s1))
            | _ \<Rightarrow> Panic ''index out of range''))"

definition LoadIniFile :: "files \<Rightarrow> string \<Rightarrow> (string \<rightharpoonup> string) option go" where
  "LoadIniFile fs path =
     (case fs path of
        None \<Rightarrow> Ok None
      | Some bs \<Rightarrow>
          (case ini_lines (split_on CHR 0x0A (go_string bs)) Map.empty of
             Ok m \<Rightarrow> Ok (Some m)
           | Err e \<Rightarrow> Err e
           | Panic m \<Rightarrow> Panic m))"

subsection \<open>Ports\<close>

text \<open>\<open>reachable\<close> tells whether a TCP dial succeeds within a second.\<close>

definition IsTcpOpen :: "(string \<Rightarrow> bool) \<Rightarrow> string \<Rightarrow> string \<Rightarrow> bool" where
  "IsTcpOpen reachable port host = reachable (JoinHostPort host port)"

text \<open>\<open>r\<close> is the random number.\<close>

definition GetRandomPort :: "nat \<Rightarrow> nat" where
  "GetRandomPort r = r mod (35000 - 1025) + 1025"

text \<open>The loop that draws ports until one is free; \<open>rand i\<close> is the \<open>i\<close>-th random number.\<close>

partial_function (option) pick_port :: "(string \<Rightarrow> bool) \<Rightarrow> (nat \<Rightarrow> nat) \<Rightarrow> nat \<Rightarrow> string option" where
  "pick_port reachable rand i =
     (let port = Itoa (GetRandomPort (rand i))
      in if IsTcpOpen reachable port ''127.0.0.1'' then pick_port reachable rand (Suc i) else Some port)"

subsection \<open>Facts\<close>

lemma GetRandomPort_bounds: "1025 \<le> GetRandomPort r \<and> GetRandomPort r < 35000"
proof -
  have "r mod 33975 < 33975"
    by simp
  then show ?thesis
    by (simp add: GetRandomPort_def)
qed

lemma pick_port_finds:
  assumes "\<not> reachable (JoinHostPort ''127.0.0.1'' (Itoa (GetRandomPort (rand j))))" "i \<le> j"
  shows "\<exists>k. i \<le> k \<and> k \<le> j \<and> pick_port reachable rand i = Some (Itoa (GetRandomPort (rand k))) \<and>
    \<not> reachable (JoinHostPort ''127.0.0.1'' (Itoa (GetRandomPort (rand k))))"
  using assms(2)
proof (induction "j - i" arbitrary: i)
  case 0
  then have "i = j"
    by simp
  then show ?case
    using assms(1) by (auto simp: pick_port.simps [of _ _ j] IsTcpOpen_def Let_def)
next
  case (Suc d)
  then have "\<exists>k. Suc i \<le> k \<and> k \<le> j \<and> pick_port reachable rand (Suc i) = Some (Itoa (GetRandomPort (rand k))) \<and>
      \<not> reachable (JoinHostPort ''127.0.0.1'' (Itoa (GetRandomPort (rand k))))"
    using Suc.hyps(1) [of "Suc i"] by simp
  then show ?case
    using Suc.prems by (subst pick_port.simps) (auto simp: IsTcpOpen_def Let_def intro: Suc_leD)
qed

lemma pick_port_free:
  assumes "pick_port open rand i = Some port"
  shows "\<not> IsTcpOpen open port ''127.0.0.1''"
  by (rule pick_port.raw_induct [OF _ assms, of "\<lambda>open rand i port. \<not> IsTcpOpen open port ''127.0.0.1''"])
    (auto simp: Let_def split: if_splits)

lemma ini_lines_panics_iff:
  "(\<exists>m'. ini_lines ls m = Panic m') \<longleftrightarrow>
     (\<exists>l\<in>set ls. TrimSpace l \<noteq> [] \<and> \<not> HasPrefix (TrimSpace l) ''#'' \<and> CHR ''='' \<notin> set (TrimSpace l))"
proof (induction ls arbitrary: m)
  case (Cons l ls)
  show ?case
  proof (cases "CHR ''='' \<in> set (TrimSpace l)")
    case True
    then obtain a b where "TrimSpace l = a @ CHR ''='' # b" "CHR ''='' \<notin> set a"
      by (meson split_list_first)
    moreover obtain s ss where "split_on CHR ''='' b = s # ss"
      by (cases "split_on CHR ''='' b") auto
    ultimately show ?thesis
      using Cons.IH by (simp add: Let_def str_simps)
  next
    case False
    then show ?thesis
      using Cons.IH by (simp add: Let_def str_simps)
  qed
qed simp

lemma ParsePort_Itoa: "p < 65536 \<Longrightarrow> ParsePort (Itoa p) = Inr p"
  by (simp add: ParsePort_def ParseUint_def str_simps)

lemma split_on_last: "c \<notin> set r \<Longrightarrow> split_on c (f @ c # r) = split_on c f @ [r]"
  by (induction c f rule: split_on.induct) (auto simp: str_simps split: list.splits)

lemma length_split_on: "c \<in> set f \<Longrightarrow> 2 \<le> length (split_on c f)"
proof -
  assume "c \<in> set f"
  then obtain a b where "f = a @ c # b" "c \<notin> set a"
    by (meson split_list_first)
  moreover have "split_on c b \<noteq> []"
    by simp
  ultimately show ?thesis
    by (cases "split_on c b") (auto simp: str_simps)
qed

lemma set_IP_String:
  assumes "length ip = 4 \<or> length ip = 16" "x \<in> set (IP_String ip)"
  shows "x = CHR '':'' \<or> x = CHR ''.'' \<or> char_digit x \<noteq> None"
proof (cases "To4 ip")
  case None
  then have "x \<in> set (print_v6 (groups_of ip))"
    using assms by (auto simp: IP_String_def To4_def split: if_splits)
  then show ?thesis
    using set_print_v6 by blast
next
  case (Some a)
  then have "x \<in> set (join_with CHR ''.'' (map (\<lambda>b. Itoa (unat b)) a))"
    using assms by (auto simp: IP_String_def print_v4_def split: if_splits)
  then show ?thesis
    using set_join_digits [of x "CHR ''.''" 10 "map unat a"] by (auto simp: comp_def)
qed

lemma IP_String_nonempty: "length ip = 4 \<or> length ip = 16 \<Longrightarrow> IP_String ip \<noteq> []"
  using ParseIP_String [of ip] by (auto simp: To16_def ParseIP_def split: if_splits)

lemma IP_String_brackets:
  "length ip = 4 \<or> length ip = 16 \<Longrightarrow> CHR ''['' \<notin> set (IP_String ip) \<and> CHR '']'' \<notin> set (IP_String ip)"
  using set_IP_String by fastforce

lemma port_free: "CHR '':'' \<notin> set (Itoa p)" "CHR ''['' \<notin> set (Itoa p)" "CHR '']'' \<notin> set (Itoa p)"
  by (simp_all add: print_base_free)

lemma split_addr_bracketed:
  "length ip = 4 \<or> length ip = 16 \<Longrightarrow> split_addr (JoinHostPort (IP_String ip) (Itoa p)) = Inr (IP_String ip, Itoa p)"
  using IP_String_brackets [of ip] by (simp add: split_addr_def Split_JoinHostPort port_free)

lemma split_addr_plain:
  assumes "length ip = 4 \<or> length ip = 16"
  shows "split_addr (IP_String ip @ '':'' @ Itoa p) = Inr (IP_String ip, Itoa p)"
proof (cases "CHR '':'' \<in> set (IP_String ip)")
  case False
  then show ?thesis
    using split_addr_bracketed [OF assms, of p] by (simp add: JoinHostPort_def)
next
  case True
  let ?s = "IP_String ip @ '':'' @ Itoa p"
  have parts: "split_on CHR '':'' (IP_String ip @ CHR '':'' # Itoa p) = split_on CHR '':'' (IP_String ip) @ [Itoa p]"
    using split_on_last [OF port_free(1), of "IP_String ip"] by simp
  have "hd ?s \<noteq> CHR ''[''"
    using IP_String_brackets [OF assms] IP_String_nonempty [OF assms] by (cases "IP_String ip") auto
  moreover have "split_last CHR '':'' ?s = Some (IP_String ip, Itoa p)"
    using split_last_sep [OF port_free(1), of "IP_String ip"] by simp
  ultimately have "SplitHostPort ?s = Inl (Errorf ''too many colons in address'')"
    using True by (simp add: SplitHostPort_def)
  moreover have "SplitHostPort (''['' @ IP_String ip @ '']:'' @ Itoa p) = Inr (IP_String ip, Itoa p)"
    using Split_JoinHostPort [of "IP_String ip" "Itoa p"] IP_String_brackets [OF assms] port_free True
    by (simp add: JoinHostPort_def)
  ultimately show ?thesis
    using length_split_on [OF True] by (simp add: split_addr_def Let_def parts join_split)
qed

lemma ResolveAddr_printed:
  assumes "length ip = 4 \<or> length ip = 16" "p < 65536" "split_addr s = Inr (IP_String ip, Itoa p)"
  shows "ResolveAddr s = Inr (the (To16 ip), p)"
  using assms IP_String_nonempty [OF assms(1)] ParseIP_String [OF assms(1)] ParsePort_Itoa [OF assms(2)]
  by (auto simp: ResolveAddr_def To16_def)

subsection \<open>Properties\<close>

text \<open>
  C29: \<^verbatim>\<open>ResolveAddr\<close> reads back what is printed.  For every IPv4 or IPv6 address and every port it
  accepts the printed pair, with the IPv6 address in brackets or without, and returns exactly that
  address, in its 16-byte form, and port.
\<close>

theorem ResolveAddr_roundtrip:
  assumes "length ip = 4 \<or> length ip = 16" "p < 65536"
  shows "\<exists>a. To16 ip = Some a \<and> ResolveAddr (JoinHostPort (IP_String ip) (Itoa p)) = Inr (a, p) \<and>
    ResolveAddr (IP_String ip @ '':'' @ Itoa p) = Inr (a, p)"
proof -
  obtain a where "To16 ip = Some a"
    using assms(1) by (auto simp: To16_def)
  then show ?thesis
    using ResolveAddr_printed [OF assms] split_addr_bracketed [OF assms(1)] split_addr_plain [OF assms(1)] by simp
qed

theorem ResolveAddr_roundtrip_witness:
  "\<exists>a. To16 [127, 0, 0, 1] = Some a \<and> ResolveAddr (JoinHostPort (IP_String [127, 0, 0, 1]) (Itoa 4455)) = Inr (a, 4455)"
  using ResolveAddr_roundtrip [of "[127, 0, 0, 1]" 4455] by auto

end
