(* ===== verification/Upstream_Proxy.thy ===== *)
theory Upstream_Proxy
  imports Configuration Go_Conn Go_Source Go_Base64
begin

text \<open>
  Reaching a server through another proxy: \<^verbatim>\<open>proxy/http/http.go\<close>, \<^verbatim>\<open>proxy/socks4a/socks4.go\<close> and
  \<^verbatim>\<open>snowflake/common/standalone/proxy.go\<close>.  A parsed URL is a record; the outcomes of dialling, of
  resolving and of the HTTP exchange are arguments.  The exchange delivers the status, the bytes
  that the HTTP reader has taken from the connection beyond the response, and the connection.
\<close>

record proxy_url =
  url_Scheme :: string
  url_Host :: string
  url_User :: "(string \<times> string option) option"

definition proxy_authorization :: "(string \<times> string option) option \<Rightarrow> string option" where
  "proxy_authorization user =
     (case user of
        None \<Rightarrow> None
      | Some (username, password) \<Rightarrow> Some (basic_auth username (case password of None \<Rightarrow> [] | Some p \<Rightarrow> p)))"

record connect_request =
  req_addr :: string
  req_auth :: "string option"

type_synonym exchange = "connect_request \<Rightarrow> reader \<Rightarrow> error + nat \<times> bytes \<times> reader"

subsection \<open>HTTP CONNECT through a registered dialer\<close>

record httpProxy =
  hp_hostPort :: string
  hp_user :: "(string \<times> string option) option"

definition newHTTP :: "proxy_url \<Rightarrow> httpProxy" where
  "newHTTP uri = \<lparr>hp_hostPort = url_Host uri, hp_user = url_User uri\<rparr>"

record httpConn =
  staleReader :: "bytes option"
  hijackedConn :: reader

definition httpProxy_Dial ::
  "(string \<Rightarrow> string \<Rightarrow> error + reader) \<Rightarrow> (string \<Rightarrow> string \<Rightarrow> error option) \<Rightarrow> (string \<Rightarrow> error option) \<Rightarrow>
   (string \<Rightarrow> error option) \<Rightarrow> exchange \<Rightarrow> httpProxy \<Rightarrow> string \<Rightarrow> string \<Rightarrow> httpConn opened" where
  "httpProxy_Dial forward ResolveTCPAddr url_Parse NewRequest exch s network addr =
     (case forward ''tcp'' (hp_hostPort s) of
        Inl e \<Rightarrow> NotOpened e
      | Inr c \<Rightarrow>
          let conn = \<lparr>staleReader = None, hijackedConn = c\<rparr>
          in case ResolveTCPAddr network addr of
               Some e \<Rightarrow> Abandoned e conn
             | None \<Rightarrow>
                 (case url_Parse (''http://'' @ addr) of
                    Some e \<Rightarrow> Abandoned e conn
                  | None \<Rightarrow>
                      (case NewRequest addr of
                         Some e \<Rightarrow> Abandoned e conn
                       | None \<Rightarrow>
                           (case exch \<lparr>req_addr = addr, req_auth = proxy_authorization (hp_user s)\<rparr> c of
                              Inl e \<Rightarrow> Abandoned e conn
                            | Inr (status, buffered, c') \<Rightarrow>
                                if status \<noteq> 200 then Abandoned (Errorf ''proxy error'') conn
                                else Opened \<lparr>staleReader = Some buffered, hijackedConn = c'\<rparr>))))"

definition httpConn_Read :: "nat \<Rightarrow> httpConn \<Rightarrow> bytes go \<times> httpConn" where
  "httpConn_Read k c =
     (case staleReader c of
        Some buf \<Rightarrow>
          if buf \<noteq> [] then (Ok (take k buf), c\<lparr>staleReader := Some (drop k buf)\<rparr>)
          else (case go_Read k (hijackedConn c) of (x, r) \<Rightarrow> (x, \<lparr>staleReader = None, hijackedConn = r\<rparr>))
      | None \<Rightarrow> (case go_Read k (hijackedConn c) of (x, r) \<Rightarrow> (x, c\<lparr>hijackedConn := r\<rparr>)))"

text \<open>Writes go to the hijacked connection.\<close>

definition httpConn_Write :: "writer \<Rightarrow> bytes \<Rightarrow> (nat \<times> error option) \<times> writer" where
  "httpConn_Write hijacked b = Write hijacked b"

interpretation hijacked_out: byte_sink httpConn_Write unlimited sent
  by unfold_locales (simp add: httpConn_Write_def plain.wr_ok)

subsection \<open>HTTP CONNECT for the WebSocket\<close>

definition proxy_addr :: "proxy_url \<Rightarrow> string" where
  "proxy_addr u =
     (if CHR '':'' \<in> set (url_Host u) then url_Host u
      else url_Host u @ (if url_Scheme u = ''https'' then '':443'' else '':80''))"

definition dialHTTPProxy :: "(string \<Rightarrow> string \<Rightarrow> error + reader) \<Rightarrow> exchange \<Rightarrow> proxy_url \<Rightarrow> string \<Rightarrow> reader opened" where
  "dialHTTPProxy dial exch u addr =
     (case dial ''tcp'' (proxy_addr u) of
        Inl e \<Rightarrow> NotOpened e
      | Inr c \<Rightarrow>
          (case exch \<lparr>req_addr = addr, req_auth = proxy_authorization (url_User u)\<rparr> c of
             Inl e \<Rightarrow> Abandoned e c
           | Inr (status, buffered, c') \<Rightarrow>
               if status \<noteq> 200 then Abandoned (Errorf ''proxy CONNECT failed'') c' else Opened c'))"

text \<open>Which way \<^verbatim>\<open>ProxyDialer\<close> dials; the scheme of a parsed URL is ASCII.\<close>

datatype dial_way = DirectDial | FailingDial error | SocksDial proxy_url | ConnectDial proxy_url

definition ProxyDialer :: "(string \<Rightarrow> error + proxy_url) \<Rightarrow> (proxy_url \<Rightarrow> error option) \<Rightarrow> string \<Rightarrow> dial_way" where
  "ProxyDialer url_Parse FromURL proxyURL =
     (if proxyURL = [] then DirectDial
      else
        (case url_Parse proxyURL of
           Inl e \<Rightarrow> FailingDial (Errorf ''invalid proxy URL'')
         | Inr u \<Rightarrow>
             (let scheme = map to_lower (url_Scheme u)
              in if scheme = ''socks5'' \<or> scheme = ''socks5h'' then
                   (case FromURL u of Some e \<Rightarrow> FailingDial e | None \<Rightarrow> SocksDial u)
                 else if scheme = ''http'' \<or> scheme = ''https'' then ConnectDial u
                 else FailingDial (Errorf ''unsupported proxy scheme''))))"

record ws_tls =
  tls_ServerName :: string
  tls_InsecureSkipVerify :: bool

record ws_dialer =
  NetDial :: dial_way
  TLSClientConfig :: "ws_tls option"

definition WebSocketDialer :: "dial_way \<Rightarrow> bool \<Rightarrow> ws_dialer" where
  "WebSocketDialer dial insecureTLS =
     \<lparr>NetDial = dial,
      TLSClientConfig = (if insecureTLS then Some \<lparr>tls_ServerName = [], tls_InsecureSkipVerify = True\<rparr> else None)\<rparr>"

text \<open>\<^verbatim>\<open>dpi/client/utls_dial.go\<close>: the TLS settings a dial uses, with the host as the default server name.\<close>

definition newUTLSDialer :: "ws_tls option \<Rightarrow> ws_tls" where
  "newUTLSDialer config = (case config of None \<Rightarrow> \<lparr>tls_ServerName = [], tls_InsecureSkipVerify = False\<rparr> | Some c \<Rightarrow> c)"

definition utls_DialContext :: "(string \<Rightarrow> string \<Rightarrow> ws_tls \<Rightarrow> error + 'c) \<Rightarrow> ws_tls \<Rightarrow> string \<Rightarrow> string \<Rightarrow> error + 'c" where
  "utls_DialContext dialTLS config network addr =
     (let host = (case SplitHostPort addr of Inl e \<Rightarrow> addr | Inr (h, p) \<Rightarrow> h);
          cfg = (if tls_ServerName config = [] then config\<lparr>tls_ServerName := host\<rparr> else config)
      in dialTLS network addr cfg)"

subsection \<open>SOCKS4\<close>

record socks4Proxy =
  s4_hostPort :: string
  s4_username :: string

definition newSOCKS4 :: "proxy_url \<Rightarrow> socks4Proxy" where
  "newSOCKS4 uri =
     \<lparr>s4_hostPort = url_Host uri, s4_username = (case url_User uri of None \<Rightarrow> [] | Some (u, p) \<Rightarrow> u)\<rparr>"

definition socks4ErrorToString :: "byte \<Rightarrow> string" where
  "socks4ErrorToString code =
     (if code = 0x5b then ''request rejected or failed''
      else if code = 0x5c then ''request rejected becasue SOCKS server cannot connect to identd on the client''
      else if code = 0x5d then ''request rejected because the client program and identd report different user-ids''
      else ''unknown failure code '' @ print_base 16 (unat code))"

definition socks4_request :: "string \<Rightarrow> nat \<Rightarrow> bytes \<Rightarrow> bytes" where
  "socks4_request username port ip4 =
     [0x04, 0x01] @ [of_nat (port div 256), of_nat port] @ ip4 @ go_bytes username @ [0x00]"

definition socks4_destination :: "string \<Rightarrow> string \<Rightarrow> error + bytes \<times> nat" where
  "socks4_destination network addr =
     (if network \<noteq> ''tcp'' \<and> network \<noteq> ''tcp4'' then Inl (Errorf ''invalid network type'')
      else
        (case SplitHostPort addr of
           Inl e \<Rightarrow> Inl e
         | Inr (ipStr, portStr) \<Rightarrow>
             (case ParseIP ipStr of
                None \<Rightarrow> Inl (Errorf ''failed to parse destination IP'')
              | Some ip \<Rightarrow>
                  (case To4 ip of
                     None \<Rightarrow> Inl (Errorf ''destination address is not IPv4'')
                   | Some ip4 \<Rightarrow> (case ParseUint 16 portStr of Inl e \<Rightarrow> Inl e | Inr port \<Rightarrow> Inr (ip4, port))))))"

definition socks4_converse ::
  "(nat \<Rightarrow> 'c \<Rightarrow> (error + bytes) \<times> 'c) \<Rightarrow> ('c \<Rightarrow> bytes \<Rightarrow> (nat \<times> error option) \<times> 'c) \<Rightarrow> bytes \<Rightarrow> 'c \<Rightarrow> (error + unit) \<times> 'c" where
  "socks4_converse rd wr req =
     bind_io (put_io wr req) (\<lambda>_.
     bind_io (rd 8) (\<lambda>resp.
       if resp ! 0 \<noteq> 0x00 then fail_io (Errorf ''proxy returned invalid SOCKS4 version'')
       else if resp ! 1 \<noteq> 0x5a then fail_io (Errorf (''proxy error: '' @ socks4ErrorToString (resp ! 1)))
       else ret_io ()))"

definition socks4_Dial ::
  "(nat \<Rightarrow> 'c \<Rightarrow> (error + bytes) \<times> 'c) \<Rightarrow> ('c \<Rightarrow> bytes \<Rightarrow> (nat \<times> error option) \<times> 'c) \<Rightarrow>
   (string \<Rightarrow> string \<Rightarrow> error + 'c) \<Rightarrow> socks4Proxy \<Rightarrow> string \<Rightarrow> string \<Rightarrow> 'c opened" where
  "socks4_Dial rd wr forward s network addr =
     (case socks4_destination network addr of
        Inl e \<Rightarrow> NotOpened e
      | Inr (ip4, port) \<Rightarrow>
          (case forward ''tcp'' (s4_hostPort s) of
             Inl e \<Rightarrow> NotOpened e
           | Inr c \<Rightarrow>
               (case socks4_converse rd wr (socks4_request (s4_username s) port ip4) c of
                  (Inl e, c') \<Rightarrow> Abandoned e c'
                | (Inr _, c') \<Rightarrow> Opened c')))"

subsection \<open>Facts\<close>

definition http_src :: "httpConn \<Rightarrow> bytes \<Rightarrow> error \<Rightarrow> bool" where
  "http_src c s e \<longleftrightarrow>
     (\<exists>rest. reads (hijackedConn c) rest e \<and> s = (case staleReader c of None \<Rightarrow> [] | Some b \<Rightarrow> b) @ rest)"

lemma http_src_direct:
  "staleReader c = None \<or> staleReader c = Some [] \<Longrightarrow> http_src c s e \<longleftrightarrow> reads (hijackedConn c) s e"
  by (auto simp: http_src_def)

interpretation hijacked: byte_source httpConn_Read http_src
proof
  fix c s e and k :: nat assume src: "http_src c s e" "s \<noteq> []" "0 < k"
  show "\<exists>p s' r'. httpConn_Read k c = (Ok p, r') \<and> p \<noteq> [] \<and> length p \<le> k \<and> s = p @ s' \<and> http_src r' s' e"
  proof (cases "staleReader c = None \<or> staleReader c = Some []")
    case True
    obtain p s' r' where "go_Read k (hijackedConn c) = (Ok p, r')" "p \<noteq> []" "length p \<le> k" "s = p @ s'" "reads r' s' e"
      using body.rd_some [of "hijackedConn c" s e k] src True by (auto simp: http_src_direct)
    then show ?thesis
      using True by (auto simp: httpConn_Read_def http_src_def)
  next
    case False
    then obtain b where b: "staleReader c = Some b" "b \<noteq> []"
      by auto
    obtain rest where rest: "reads (hijackedConn c) rest e" "s = b @ rest"
      using src(1) b(1) by (auto simp: http_src_def)
    then have "http_src (c\<lparr>staleReader := Some (drop k b)\<rparr>) (drop k b @ rest) e"
      by (simp add: http_src_def)
    moreover have "s = take k b @ drop k b @ rest"
      using rest(2) by simp
    moreover have "httpConn_Read k c = (Ok (take k b), c\<lparr>staleReader := Some (drop k b)\<rparr>)" "take k b \<noteq> []" "length (take k b) \<le> k"
      using b src(3) by (simp_all add: httpConn_Read_def)
    ultimately show ?thesis
      by blast
  qed
next
  fix c e and k :: nat assume src: "http_src c [] e" "0 < k"
  then have "staleReader c = None \<or> staleReader c = Some []"
    by (auto simp: http_src_def split: option.splits)
  moreover from this obtain r where "go_Read k (hijackedConn c) = (Err e, r)" "reads r [] e"
    using body.rd_end [of "hijackedConn c" e k] src by (auto simp: http_src_direct)
  ultimately show "\<exists>r'. httpConn_Read k c = (Err e, r') \<and> http_src r' [] e"
    by (auto simp: httpConn_Read_def http_src_def)
qed

context duplex
begin

lemma follows_socks4: "follows (socks4_converse rd wr req) (socks4_converse wire_read wire_write req)"
  unfolding socks4_converse_def by (intro follows_intros)

end

lemma socks4_destination_ok:
  assumes "network \<in> {''tcp'', ''tcp4''}" "length ip = 4" "port < 65536"
  shows "socks4_destination network (JoinHostPort (IP_String ip) (Itoa port)) = Inr (ip, port)"
proof -
  have "ParseIP (IP_String ip) = Some (v4InV6Prefix @ ip)"
    using assms(2) ParseIP_String [of ip] by (simp add: To16_def)
  moreover have "To4 (v4InV6Prefix @ ip) = Some ip"
    using assms(2) by (simp add: To4_def v4InV6Prefix_def)
  moreover have "SplitHostPort (JoinHostPort (IP_String ip) (Itoa port)) = Inr (IP_String ip, Itoa port)"
    using IP_String_brackets [of ip] assms(2) by (simp add: Split_JoinHostPort port_free)
  ultimately show ?thesis
    using assms(1,3) ParsePort_Itoa [OF assms(3)] by (auto simp: socks4_destination_def ParsePort_def)
qed

text \<open>The layout of the request: version, command, port in network order, address, user name, zero.\<close>

lemma socks4_request_layout:
  "socks4_request username port ip =
     [4, 1, of_nat (port div 256), of_nat (port mod 256)] @ ip @ go_bytes username @ [0]"
proof -
  have "of_nat (port mod 256) = (of_nat port :: byte)"
    by (rule word_unat_eq_iff [THEN iffD2]) (simp add: unsigned_of_nat take_bit_eq_mod)
  then show ?thesis
    by (simp add: socks4_request_def)
qed

lemma socks4_converse_wire:
  assumes "ahead w = a # b # resp @ ys" "length resp = 6"
  shows "socks4_converse wire_read wire_write req w =
    ((if a \<noteq> 0 then Inl (Errorf ''proxy returned invalid SOCKS4 version'')
      else if b \<noteq> 0x5a then Inl (Errorf (''proxy error: '' @ socks4ErrorToString b)) else Inr ()),
     w\<lparr>ahead := ys, said := said w @ req\<rparr>)"
proof -
  have "wire_read 8 (w\<lparr>said := said w @ req\<rparr>) = (Inr (a # b # resp), w\<lparr>ahead := ys, said := said w @ req\<rparr>)"
    using assms by (simp add: wire_read_def eval_nat_numeral)
  then show ?thesis
    by (simp add: socks4_converse_def)
qed

subsection \<open>Properties\<close>

text \<open>
  C35: A SOCKS4 dial to an IPv4 address and port sends exactly the bytes 4, 1, the port with its high
  byte first, the four bytes of the address, the user name and a zero byte; and the connection is
  handed out, with everything after the eight bytes of the answer still to be read, if and only if
  the answer is version 0 with code 5a; otherwise it is closed with the error.
\<close>

theorem socks4_dial_grants:
  assumes "network \<in> {''tcp'', ''tcp4''}" "length ip = 4" "port < 65536" "forward ''tcp'' (s4_hostPort s) = Inr c"
    "talks c \<lparr>ahead = a # b # resp @ ys, final = e, said = o'\<rparr>" "length resp = 6"
  shows "\<exists>c'. talks c' \<lparr>ahead = ys, final = e,
        said = o' @ [4, 1, of_nat (port div 256), of_nat (port mod 256)] @ ip @ go_bytes (s4_username s) @ [0]\<rparr> \<and>
    socks4_Dial recv send forward s network (JoinHostPort (IP_String ip) (Itoa port)) =
      (if a = 0 \<and> b = 0x5a then Opened c'
       else if a \<noteq> 0 then Abandoned (Errorf ''proxy returned invalid SOCKS4 version'') c'
       else Abandoned (Errorf (''proxy error: '' @ socks4ErrorToString b)) c')"
proof -
  let ?req = "socks4_request (s4_username s) port ip"
  let ?w = "\<lparr>ahead = a # b # resp @ ys, final = e, said = o'\<rparr>"
  obtain c' where "socks4_converse recv send ?req c = (fst (socks4_converse wire_read wire_write ?req ?w), c')"
    "talks c' (snd (socks4_converse wire_read wire_write ?req ?w))"
    using tcp.followsD [OF tcp.follows_socks4 assms(5)] .
  then show ?thesis
    unfolding socks4_request_layout [symmetric]
    using socks4_converse_wire [of ?w a b resp ys ?req] assms(4,6) socks4_destination_ok [OF assms(1-3)]
    by (intro exI [of _ c']) (auto simp: socks4_Dial_def)
qed

theorem socks4_dial_grants_witness:
  "\<exists>c'. socks4_Dial recv send
      (\<lambda>_ _. Inr \<lparr>cin = \<lparr>chunks = [[0, 0x5a, 0], [0, 0, 0, 0, 0, 7]], fin = EOF\<rparr>, cout = \<lparr>sent = [], budget = None, werr = EOF\<rparr>\<rparr>)
      \<lparr>s4_hostPort = ''p:1080'', s4_username = ''u''\<rparr> ''tcp'' (JoinHostPort (IP_String [10, 0, 0, 1]) (Itoa 8080)) = Opened c' \<and>
    sent (cout c') = [4, 1, 31, 144, 10, 0, 0, 1, 117, 0]"
proof -
  let ?c = "\<lparr>cin = \<lparr>chunks = [[0, 0x5a, 0], [0, 0, 0, 0, 0, 7]], fin = EOF\<rparr>, cout = \<lparr>sent = [], budget = None, werr = EOF\<rparr>\<rparr>"
  have "talks ?c \<lparr>ahead = 0 # 0x5a # [0, 0, 0, 0, 0, 0] @ [7], final = EOF, said = []\<rparr>"
    by (simp add: talks_def reads_def productive_def stream_def unlimited_def)
  moreover have "go_bytes ''u'' = [117]"
    by code_simp
  ultimately show ?thesis
    using socks4_dial_grants [of "''tcp''" "[10, 0, 0, 1]" 8080 "\<lambda>_ _. Inr ?c" "\<lparr>s4_hostPort = ''p:1080'', s4_username = ''u''\<rparr>" ?c 0 "0x5a"
        "[0, 0, 0, 0, 0, 0]" "[7]" EOF "[]"]
    by (auto simp: talks_def)
qed

text \<open>
  Early bytes.  When the proxy answers the CONNECT with 200 and the first bytes of the tunnel
  arrive together with that answer, a connection of the registered HTTP dialer still delivers them,
  followed by the rest of the stream; the connection that \<^verbatim>\<open>dialHTTPProxy\<close> returns has lost them.
\<close>

theorem early_bytes_kept_or_lost:
  assumes "exch \<lparr>req_addr = addr, req_auth = proxy_authorization user\<rparr> c = Inr (200, buffered, c')" "reads c' rest e"
    "length (buffered @ rest) < n"
  shows "(\<exists>h. httpProxy_Dial (\<lambda>_ _. Inr c) (\<lambda>_ _. None) (\<lambda>_. None) (\<lambda>_. None) exch
          \<lparr>hp_hostPort = hostPort, hp_user = user\<rparr> network addr = Opened h \<and>
        io_Copy httpConn_Read n h = Some (buffered @ rest, e)) \<and>
    (\<exists>r. dialHTTPProxy (\<lambda>_ _. Inr c) exch \<lparr>url_Scheme = sch, url_Host = hostPort, url_User = user\<rparr> addr = Opened r \<and>
        io_Copy go_Read n r = Some (rest, e))"
proof -
  have "http_src \<lparr>staleReader = Some buffered, hijackedConn = c'\<rparr> (buffered @ rest) e"
    using assms(2) by (simp add: http_src_def)
  then show ?thesis
    using assms hijacked.io_Copy_all [of _ "buffered @ rest" e n] body.io_Copy_all [OF assms(2), of n]
    by (simp add: httpProxy_Dial_def dialHTTPProxy_def Let_def)
qed

theorem early_bytes_kept_or_lost_witness:
  "\<exists>r. dialHTTPProxy (\<lambda>_ _. Inr \<lparr>chunks = [], fin = EOF\<rparr>) (\<lambda>req c. Inr (200, [1, 2], \<lparr>chunks = [[3]], fin = EOF\<rparr>))
      \<lparr>url_Scheme = ''http'', url_Host = ''p'', url_User = None\<rparr> ''server:80'' = Opened r \<and>
    io_Copy go_Read 4 r = Some ([3], EOF)"
  using early_bytes_kept_or_lost [of "\<lambda>req c. Inr (200, [1, 2], \<lparr>chunks = [[3]], fin = EOF\<rparr>)" "''server:80''" None
      "\<lparr>chunks = [], fin = EOF\<rparr>" "[1, 2]" "\<lparr>chunks = [[3]], fin = EOF\<rparr>" "[3]" EOF 4]
  by (simp add: reads_def productive_def stream_def)

end
