(* ===== verification/Obfs.thy ===== *)
theory Obfs
  imports Upstream_Proxy Socks5_Server
begin

text \<open>
  \<^verbatim>\<open>obfs/server/server.go\<close> and \<^verbatim>\<open>obfs/client/client.go\<close>: identities and certificates, the set-up of both
  ends, their accept loops and their handlers.  The obfs transports themselves, the SOCKS library
  and the dialers it builds are third-party code and arguments of the model; the relay the handlers
  end in is the one of theory \<open>Relay\<close>.
\<close>

subsection \<open>Identities\<close>

definition NodeIDLength :: nat where "NodeIDLength = 20"
definition PublicKeyLength :: nat where "PublicKeyLength = 32"
definition obfs4CertRawLength :: nat where "obfs4CertRawLength = NodeIDLength + PublicKeyLength"

type_synonym args = "(string \<times> string) list"

definition encodeObfs4Cert :: "bytes \<Rightarrow> bytes \<Rightarrow> string" where
  "encodeObfs4Cert nodeID public = TrimSuffix (EncodeToString (nodeID @ public)) ''==''"

text \<open>
  \<open>raw\<close> is what the random source delivers, \<open>newNodeID\<close> and \<open>keypair\<close> are the calls to the ntor
  package; a key pair is the public key and the hexadecimal private key.
\<close>

definition GenerateIdentity ::
  "error + bytes \<Rightarrow> (bytes \<Rightarrow> error + bytes) \<Rightarrow> error + bytes \<times> string \<Rightarrow> error + string \<times> string" where
  "GenerateIdentity raw newNodeID keypair =
     (case raw of
        Inl e \<Rightarrow> Inl e
      | Inr rawID \<Rightarrow>
          (case newNodeID rawID of
             Inl e \<Rightarrow> Inl e
           | Inr nodeID \<Rightarrow>
               (case keypair of
                  Inl e \<Rightarrow> Inl e
                | Inr (public, private) \<Rightarrow> Inr (encodeObfs4Cert nodeID public, private))))"

definition obfs4ArgsFromConfig :: "error + string \<Rightarrow> string \<Rightarrow> string \<Rightarrow> error + args" where
  "obfs4ArgsFromConfig newSeed cert privateKey =
     (if privateKey = [] then Inl (Errorf ''missing private-key for obfs4 certificate'')
      else
        (case DecodeString (cert @ ''=='') of
           None \<Rightarrow> Inl (Errorf ''failed to decode cert'')
         | Some decoded \<Rightarrow>
             if length decoded \<noteq> obfs4CertRawLength then Inl (Errorf ''cert length is invalid'')
             else
               (case newSeed of
                  Inl e \<Rightarrow> Inl e
                | Inr seed \<Rightarrow>
                    Inr [(''node-id'', hex_string (take NodeIDLength decoded)), (''private-key'', privateKey),
                         (''drbg-seed'', seed), (''iat-mode'', ObfsIatMode)])))"

subsection \<open>The server\<close>

text \<open>What the set-up asks of its surroundings; \<open>server_factory\<close> is \<open>Inr False\<close> for a nil factory.\<close>

record obfs_env =
  dialable :: "string \<Rightarrow> bool"
  transport_known :: "string \<Rightarrow> bool"
  newSeed :: "error + string"
  mkdir_err :: "error option"
  server_factory :: "string \<Rightarrow> args \<Rightarrow> error + bool"
  client_factory :: "string \<Rightarrow> error option"
  listen_err :: "string \<Rightarrow> error option"
  listen_tcp_err :: "bytes \<times> nat \<Rightarrow> error option"
  draws :: "nat \<Rightarrow> nat"

record ServerInfo =
  bind_addr :: "bytes \<times> nat"
  MethodName :: string
  Options :: args
  OrAddr :: "bytes \<times> nat"

definition getPtServerInfo :: "JsonServerConfigImpl \<Rightarrow> args \<Rightarrow> ServerInfo outcome" where
  "getPtServerInfo config options =
     (case ResolveAddr (sListen config) of
        Inl e \<Rightarrow> Fatal ''listen address''
      | Inr addr \<Rightarrow>
          (case ResolveAddr (sExternalServiceAddress config) of
             Inl e \<Rightarrow> Fatal ''external service address''
           | Inr orAddr \<Rightarrow> Proceed \<lparr>bind_addr = addr, MethodName = sType config, Options = options, OrAddr = orAddr\<rparr>))"

definition server_options :: "obfs_env \<Rightarrow> JsonServerConfigImpl \<Rightarrow> error + args" where
  "server_options env config =
     (if sType config = ''obfs4'' \<and> sCert config \<noteq> [] then
        obfs4ArgsFromConfig (newSeed env) (sCert config) (sPrivateKey config)
      else Inr [])"

text \<open>The result is the server's description and the error of its listener, which the code ignores.\<close>

definition server_Setup :: "obfs_env \<Rightarrow> JsonServerConfigImpl \<Rightarrow> (ServerInfo \<times> error option) outcome" where
  "server_Setup env config =
     (let segments = split_on CHR '':'' (sListen config)
      in if length segments \<noteq> 2 then Fatal ''Invalid ipv4 service address format, should be <address>:<port>''
         else if IsTcpOpen (dialable env) (segments ! 1) (segments ! 0) then Fatal ''Service port already in use''
         else
           (case server_options env config of
              Inl e \<Rightarrow> Fatal ''Invalid obfs4 certificate/key''
            | Inr options \<Rightarrow>
                (case getPtServerInfo config options of
                   Fatal m \<Rightarrow> Fatal m
                 | Proceed info \<Rightarrow>
                     if \<not> transport_known env (MethodName info) then Fatal ''no such transport is supported''
                     else
                       (case mkdir_err env of
                          Some e \<Rightarrow> Fatal ''Failed to create temporary state directory''
                        | None \<Rightarrow>
                            (case server_factory env (MethodName info) (Options info) of
                               Inl e \<Rightarrow> Fatal ''server factory''
                             | Inr False \<Rightarrow> Fatal ''Can't initiate server factory.''
                             | Inr True \<Rightarrow> Proceed (info, listen_tcp_err env (bind_addr info)))))))"

fun is_net_error :: "error \<Rightarrow> bool" where
  "is_net_error (NetErr t m) = True"
| "is_net_error (OpError opn e) = True"
| "is_net_error _ = False"

text \<open>\<^verbatim>\<open>serverAcceptLoop\<close> and \<^verbatim>\<open>clientAcceptLoop\<close>: only a permanent \<^verbatim>\<open>net.Error\<close> ends the loop.\<close>

fun obfs_accept_loop :: "(error + 'c) list \<Rightarrow> 'c list \<times> error option" where
  "obfs_accept_loop [] = ([], None)"
| "obfs_accept_loop (Inl e # rs) = (if is_net_error e \<and> \<not> Temporary e then ([], Some e) else obfs_accept_loop rs)"
| "obfs_accept_loop (Inr c # rs) = (case obfs_accept_loop rs of (cs, e) \<Rightarrow> (c # cs, e))"

datatype server_end = ServerHandshakeFailed | OrFailed | ServerRelayed "error option"

definition serverHandler :: "error option \<Rightarrow> error option \<Rightarrow> error option \<Rightarrow> server_end" where
  "serverHandler wrapConn dialOr copyLoop =
     (if wrapConn \<noteq> None then ServerHandshakeFailed
      else if dialOr \<noteq> None then OrFailed
      else ServerRelayed copyLoop)"

subsection \<open>The client\<close>

record obfs_loop =
  loop_addr :: string
  loop_internal :: bool
  loop_middle :: "proxy_url option"

text \<open>\<open>None\<close>: the search for a free port does not end.\<close>

definition client_Setup :: "obfs_env \<Rightarrow> JsonClientConfigImpl \<Rightarrow> obfs_loop list outcome option" where
  "client_Setup env config =
     (if \<not> transport_known env (cType config) then Some (Fatal ''no such transport is supported'')
      else if client_factory env (cType config) \<noteq> None then Some (Fatal ''failed to get ClientFactory'')
      else
        (let segments = split_on CHR '':'' (cListen config)
         in if length segments \<noteq> 2 then Some (Fatal ''Invalid service ipv4 address <address>:<port>'')
            else if IsTcpOpen (dialable env) (segments ! 1) (segments ! 0) then Some (Fatal ''Address is not usable'')
            else if \<not> cUseExternalService config then
              map_option (\<lambda>port.
                let middle = ''127.0.0.1:'' @ port;
                    url = \<lparr>url_Scheme = ''socks5'', url_Host = middle,
                           url_User = Some (''cert='' @ cCert config, Some ('';iat-mode='' @ ObfsIatMode))\<rparr>
                in if listen_err env middle \<noteq> None \<or> listen_err env (cListen config) \<noteq> None then Fatal ''listen''
                   else Proceed [\<lparr>loop_addr = middle, loop_internal = False, loop_middle = None\<rparr>,
                                 \<lparr>loop_addr = cListen config, loop_internal = True, loop_middle = Some url\<rparr>])
                (pick_port (dialable env) (draws env) 0)
            else if listen_err env (cListen config) \<noteq> None then Some (Fatal ''listen'')
            else Some (Proceed [\<lparr>loop_addr = cListen config, loop_internal = True, loop_middle = None\<rparr>])))"

datatype socks_reply = ReplyGeneralFailure | ReplyError error | ReplySucceeded

datatype client_end = SocksFailed error | InvalidArgs error | OutgoingFailed error | ReplyFailed error | ClientRelayed "error option"

text \<open>
  The calls a handler makes: the SOCKS handshake, building the dialer to the obfuscating service
  from its URL and the SOCKS dialer over it (\<open>None\<close> is a nil dialer), dialling, the obfs
  transport's own argument parser and dial, the success reply and the relay.
\<close>

record 'd handler_env =
  handshake :: "error + string"
  FromURL :: "proxy_url option \<Rightarrow> 'd go"
  SOCKS5 :: "string \<Rightarrow> 'd option \<Rightarrow> 'd go"
  dialer_Dial :: "'d \<Rightarrow> string \<Rightarrow> error option"
  ParseArgs :: "error option"
  factory_Dial :: "string \<Rightarrow> error option"
  success_reply :: "error option"
  copy_loop :: "error option"

definition relay_phase :: "'d handler_env \<Rightarrow> socks_reply list \<Rightarrow> error option \<Rightarrow> (socks_reply list \<times> client_end) go" where
  "relay_phase h replies dialled =
     (case dialled of
        Some e \<Rightarrow> Ok (replies @ [ReplyError e], OutgoingFailed e)
      | None \<Rightarrow>
          (case success_reply h of
             Some e \<Rightarrow> Ok (replies @ [ReplySucceeded], ReplyFailed e)
           | None \<Rightarrow> Ok (replies @ [ReplySucceeded], ClientRelayed (copy_loop h))))"

definition clientHandler ::
  "'d handler_env \<Rightarrow> bool \<Rightarrow> JsonClientConfigImpl \<Rightarrow> proxy_url option \<Rightarrow> (socks_reply list \<times> client_end) go" where
  "clientHandler h isInternal config middleDialerUrl =
     (case handshake h of
        Inl e \<Rightarrow> Ok ([], SocksFailed e)
      | Inr target \<Rightarrow>
          if isInternal then
            (case FromURL h middleDialerUrl of
               Panic m \<Rightarrow> Panic m
             | obfuscate \<Rightarrow>
                 (let first = (case obfuscate of Ok d \<Rightarrow> [] | _ \<Rightarrow> [ReplyGeneralFailure]);
                      forward = (case obfuscate of Ok d \<Rightarrow> Some d | _ \<Rightarrow> None)
                  in case SOCKS5 h (cAddress config) forward of
                       Panic m \<Rightarrow> Panic m
                     | Err e \<Rightarrow> Panic ''nil dialer''
                     | Ok dialer \<Rightarrow> relay_phase h first (dialer_Dial h dialer target)))
          else
            (case ParseArgs h of
               Some e \<Rightarrow> Ok ([ReplyGeneralFailure], InvalidArgs e)
             | None \<Rightarrow> relay_phase h [] (factory_Dial h target)))"

subsection \<open>Facts\<close>

lemma encodeObfs4Cert_padded:
  assumes "length (nodeID @ public) = obfs4CertRawLength"
  shows "encodeObfs4Cert nodeID public @ ''=='' = EncodeToString (nodeID @ public)"
proof -
  have "length (map unat (nodeID @ public)) mod 3 = 1"
    using assms by (simp add: obfs4CertRawLength_def NodeIDLength_def PublicKeyLength_def)
  then obtain s where "EncodeToString (nodeID @ public) = s @ ''==''"
    using encode_padding unfolding EncodeToString_def by blast
  then show ?thesis
    by (simp add: encodeObfs4Cert_def TrimSuffix_append)
qed

lemma obfs4Args_of_cert:
  assumes "length nodeID = NodeIDLength" "length public = PublicKeyLength" "private \<noteq> []"
  shows "obfs4ArgsFromConfig (Inr seed) (encodeObfs4Cert nodeID public) private =
    Inr [(''node-id'', hex_string nodeID), (''private-key'', private), (''drbg-seed'', seed), (''iat-mode'', ''0'')]"
  using assms encodeObfs4Cert_padded [of nodeID public]
  by (simp add: obfs4ArgsFromConfig_def obfs4CertRawLength_def Decode_EncodeToString ObfsIatMode_def)

lemma encodeObfs4Cert_nonempty:
  assumes "length nodeID = NodeIDLength" "length public = PublicKeyLength"
  shows "encodeObfs4Cert nodeID public \<noteq> []"
proof
  assume "encodeObfs4Cert nodeID public = []"
  then have "DecodeString ''=='' = Some (nodeID @ public)"
    using encodeObfs4Cert_padded [of nodeID public] Decode_EncodeToString [of "nodeID @ public"] assms
    by (simp add: obfs4CertRawLength_def)
  moreover have "DecodeString ''=='' = None"
    by code_simp
  ultimately show False
    by simp
qed

text \<open>An accept error that is no \<^verbatim>\<open>net.Error\<close> keeps the loop running however often it returns.\<close>

lemma obfs_accept_loop_spins: "\<not> is_net_error e \<Longrightarrow> obfs_accept_loop (replicate n (Inl e) @ rs) = obfs_accept_loop rs"
  by (induction n) auto

text \<open>Whether a handler got as far as relaying, and the dialer it goes on with after \<^verbatim>\<open>proxy.FromURL\<close>.\<close>

fun relays :: "(socks_reply list \<times> client_end) go \<Rightarrow> bool" where
  "relays (Ok (replies, ClientRelayed e)) = True"
| "relays _ = False"

definition dialer_of :: "'d go \<Rightarrow> 'd option" where
  "dialer_of x = (case x of Ok d \<Rightarrow> Some d | _ \<Rightarrow> None)"

lemma relays_phase: "relays (relay_phase h replies dialled) \<longleftrightarrow> dialled = None \<and> success_reply h = None"
  by (auto simp: relay_phase_def split: option.splits)

lemma relays_transport:
  "handshake h = Inr target \<Longrightarrow>
     relays (clientHandler h False config u) \<longleftrightarrow> ParseArgs h = None \<and> factory_Dial h target = None \<and> success_reply h = None"
  by (auto simp: clientHandler_def relays_phase split: option.splits)

lemma relays_over:
  "\<lbrakk>handshake h = Inr target; FromURL h u = Ok d; SOCKS5 h (cAddress config) (Some d) = Ok d'\<rbrakk> \<Longrightarrow>
     relays (clientHandler h True config u) \<longleftrightarrow> dialer_Dial h d' target = None \<and> success_reply h = None"
  by (simp add: clientHandler_def relays_phase)

lemma relay_phase_transport [simp]: "relay_phase (h\<lparr>ParseArgs := parse, factory_Dial := dial\<rparr>) = relay_phase h"
  by (simp add: relay_phase_def fun_eq_iff cong: option.case_cong)

lemma handler_ignores_transport:
  "clientHandler (h\<lparr>ParseArgs := parse, factory_Dial := dial\<rparr>) True config u = clientHandler h True config u"
  by (simp add: clientHandler_def Let_def cong: sum.case_cong go.case_cong)

lemma relays_internal:
  "relays (clientHandler h True config u) \<Longrightarrow>
     (\<forall>m. FromURL h u \<noteq> Panic m) \<and>
     (\<exists>target d'. handshake h = Inr target \<and> dialer_Dial h d' target = None \<and>
        SOCKS5 h (cAddress config) (dialer_of (FromURL h u)) = Ok d')"
  by (auto simp: clientHandler_def dialer_of_def Let_def relays_phase split: sum.splits go.splits)

subsection \<open>Properties\<close>

text \<open>
  The stored identity is the generated one.  A certificate made by \<^verbatim>\<open>GenerateIdentity\<close> from a node
  id and a public key of the right lengths, read back with its private key, yields exactly that
  node id and private key as transport arguments, with inter-arrival mode 0.
\<close>

theorem obfs4_identity_roundtrip:
  assumes "newNodeID raw = Inr nodeID" "length nodeID = NodeIDLength" "length public = PublicKeyLength" "private \<noteq> []"
  shows "\<exists>cert. GenerateIdentity (Inr raw) newNodeID (Inr (public, private)) = Inr (cert, private) \<and> cert \<noteq> [] \<and>
    (\<forall>seed. obfs4ArgsFromConfig (Inr seed) cert private =
       Inr [(''node-id'', hex_string nodeID), (''private-key'', private), (''drbg-seed'', seed), (''iat-mode'', ''0'')])"
  using assms obfs4Args_of_cert [OF assms(2-4)] encodeObfs4Cert_nonempty [OF assms(2,3)]
  by (simp add: GenerateIdentity_def)

theorem obfs4_identity_roundtrip_witness:
  "\<exists>cert. GenerateIdentity (Inr (replicate 20 1)) Inr (Inr (replicate 32 2, ''ab'')) = Inr (cert, ''ab'') \<and> cert \<noteq> []"
  using obfs4_identity_roundtrip [of Inr "replicate 20 1" "replicate 20 1" "replicate 32 2" "''ab''"]
  by (auto simp: NodeIDLength_def PublicKeyLength_def)

text \<open>
  C40: The two modes of the obfs client and what each connection goes through.  In standalone mode a
  successful set-up runs two loops: an obfuscating one on a free loopback port and a SOCKS one on the
  configured address whose dialer URL names exactly that port and carries the certificate.  After
  its SOCKS handshake a connection of the former is relayed if and only if the obfs transport accepts
  the arguments and dials and the reply goes out; one of the latter, with the dialers built, if and
  only if the dialer for the configured server over that URL dials and the reply goes out.  In
  third-party mode there is one loop, on the configured address, and it never uses the obfs
  transport: whatever the transport's argument parser and dial would do, its handler does the same,
  and it relays only through a SOCKS dialer over what \<^verbatim>\<open>proxy.FromURL\<close> makes of a missing URL.
\<close>

theorem obfs_client_modes:
  fixes h :: "'d handler_env"
  assumes "client_Setup env config = Some (Proceed loops)"
  shows "(\<not> cUseExternalService config \<longrightarrow>
      (\<exists>port url. \<not> IsTcpOpen (dialable env) port ''127.0.0.1'' \<and> url_Host url = ''127.0.0.1:'' @ port \<and>
         url_Scheme url = ''socks5'' \<and> url_User url = Some (''cert='' @ cCert config, Some '';iat-mode=0'') \<and>
         loops = [\<lparr>loop_addr = ''127.0.0.1:'' @ port, loop_internal = False, loop_middle = None\<rparr>,
                  \<lparr>loop_addr = cListen config, loop_internal = True, loop_middle = Some url\<rparr>] \<and>
         (\<forall>target. handshake h = Inr target \<longrightarrow>
            (relays (clientHandler h (loop_internal (loops ! 0)) config (loop_middle (loops ! 0))) \<longleftrightarrow>
               ParseArgs h = None \<and> factory_Dial h target = None \<and> success_reply h = None)) \<and>
         (\<forall>target d d'. handshake h = Inr target \<and> FromURL h (Some url) = Ok d \<and> SOCKS5 h (cAddress config) (Some d) = Ok d' \<longrightarrow>
            (relays (clientHandler h (loop_internal (loops ! 1)) config (loop_middle (loops ! 1))) \<longleftrightarrow>
               dialer_Dial h d' target = None \<and> success_reply h = None)))) \<and>
    (cUseExternalService config \<longrightarrow>
      (\<exists>l. loops = [l] \<and> loop_addr l = cListen config \<and>
         (\<forall>parse dial. clientHandler (h\<lparr>ParseArgs := parse, factory_Dial := dial\<rparr>) (loop_internal l) config (loop_middle l) =
            clientHandler h (loop_internal l) config (loop_middle l)) \<and>
         (relays (clientHandler h (loop_internal l) config (loop_middle l)) \<longrightarrow>
            (\<forall>m. FromURL h None \<noteq> Panic m) \<and>
            (\<exists>target d'. handshake h = Inr target \<and> dialer_Dial h d' target = None \<and>
               SOCKS5 h (cAddress config) (dialer_of (FromURL h None)) = Ok d'))))"
proof (cases "cUseExternalService config")
  case True
  then have "loops = [\<lparr>loop_addr = cListen config, loop_internal = True, loop_middle = None\<rparr>]"
    using assms by (auto simp: client_Setup_def Let_def split: if_splits)
  then show ?thesis
    using True by (auto simp: handler_ignores_transport dest: relays_internal)
next
  case False
  then obtain port where p: "pick_port (dialable env) (draws env) 0 = Some port"
    using assms by (auto simp: client_Setup_def Let_def split: if_splits)
  then show ?thesis
    using assms False pick_port_free [OF p]
    by (auto simp: client_Setup_def Let_def ObfsIatMode_def relays_transport relays_over split: if_splits)
qed

text \<open>Surroundings in which every step succeeds and no port is taken, and a third-party client.\<close>

definition demo_obfs_env :: obfs_env where
  "demo_obfs_env =
     \<lparr>dialable = \<lambda>_. False, transport_known = \<lambda>_. True, newSeed = Inr [], mkdir_err = None,
      server_factory = \<lambda>_ _. Inr True, client_factory = \<lambda>_. None, listen_err = \<lambda>_. None,
      listen_tcp_err = \<lambda>_. None, draws = \<lambda>_. 0\<rparr>"

definition demo_client_config :: "bool \<Rightarrow> JsonClientConfigImpl" where
  "demo_client_config external =
     \<lparr>cType = ''obfs4'', cListen = ''127.0.0.1:9050'', cAddress = ''10.0.0.1:443'', cUseExternalService = external,
      cCert = [], cEncKey = [], cProtocol = [], cSni = [], cInsecure = False, cHttpProxyAddr = [],
      cFollowRedirect = None, cDnsUpstream = [], cDnsNetwork = [], cFrontHost = [], cFrontIP = [],
      cVerbose = False, cProxy = [], cForwardBind = []\<rparr>"

definition demo_handler_env :: "unit handler_env" where
  "demo_handler_env =
     \<lparr>handshake = Inr ''example.org:80'', FromURL = \<lambda>u. (case u of None \<Rightarrow> Err EOF | Some _ \<Rightarrow> Ok ()),
      SOCKS5 = \<lambda>_ _. Ok (), dialer_Dial = \<lambda>_ _. None, ParseArgs = None, factory_Dial = \<lambda>_. None,
      success_reply = None, copy_loop = None\<rparr>"

theorem obfs_client_modes_witness:
  "\<exists>l. client_Setup demo_obfs_env (demo_client_config True) = Some (Proceed [l]) \<and>
    clientHandler (demo_handler_env\<lparr>ParseArgs := Some EOF, factory_Dial := \<lambda>_. Some EOF\<rparr>) (loop_internal l) (demo_client_config True) (loop_middle l) =
      Ok ([ReplyGeneralFailure, ReplySucceeded], ClientRelayed None)"
proof -
  let ?l = "\<lparr>loop_addr = ''127.0.0.1:9050'', loop_internal = True, loop_middle = None\<rparr>"
  have s: "client_Setup demo_obfs_env (demo_client_config True) = Some (Proceed [?l])"
    by (simp add: client_Setup_def demo_obfs_env_def demo_client_config_def IsTcpOpen_def Let_def)
  have "cUseExternalService (demo_client_config True)"
    by (simp add: demo_client_config_def)
  then have "clientHandler (demo_handler_env\<lparr>ParseArgs := Some EOF, factory_Dial := \<lambda>_. Some EOF\<rparr>) (loop_internal ?l) (demo_client_config True) (loop_middle ?l) =
      clientHandler demo_handler_env (loop_internal ?l) (demo_client_config True) (loop_middle ?l)"
    using obfs_client_modes [OF s, of demo_handler_env] by auto
  moreover have "clientHandler demo_handler_env (loop_internal ?l) (demo_client_config True) (loop_middle ?l) =
      Ok ([ReplyGeneralFailure, ReplySucceeded], ClientRelayed None)"
    by (simp add: clientHandler_def demo_handler_env_def relay_phase_def)
  ultimately show ?thesis
    using s by (intro exI [of _ ?l] conjI) (assumption, rule trans)
qed

end
