(* ===== verification/Dpi_Conn.thy ===== *)
theory Dpi_Conn
  imports Dpi_Tunnel "HOL-Library.Sublist"
begin

text \<open>
  \<^verbatim>\<open>tunnelConn\<close> of \<^verbatim>\<open>dpi/client/proxy.go\<close>: the \<^verbatim>\<open>net.Conn\<close> that batches writes into uploads and queues
  what the download stream delivers.  Its state is the channels, the batch with the
  acknowledgements it owes and the timer; \<^verbatim>\<open>pumpRead\<close>, \<^verbatim>\<open>pumpWrite\<close>, any number of concurrent \<^verbatim>\<open>Write\<close>
  calls, a reader and \<^verbatim>\<open>Close\<close> are step relations over it, one rule per channel operation or select
  branch.  A \<^verbatim>\<open>Write\<close> call is known by its position in \<open>calls\<close>, which also names its acknowledgement
  channel; \<open>accepted\<close>, \<open>uploaded\<close>, \<open>streamed\<close> and \<open>delivered\<close> record the history for the properties.
\<close>

subsection \<open>State\<close>

datatype write_call = Offering bytes | Awaiting bytes | Returned bytes "nat \<times> error option"

fun call_data :: "write_call \<Rightarrow> bytes" where
  "call_data (Offering b) = b"
| "call_data (Awaiting b) = b"
| "call_data (Returned b r) = b"

text \<open>
  The variable \<^verbatim>\<open>timer\<close>: nil, running, expired with its tick still in the channel, or expired with
  the tick consumed; in the last state it never fires again.
\<close>

datatype timer_state = NoTimer | Running | Fired | Drained

text \<open>\<^verbatim>\<open>pumpWrite\<close>: at its select, in \<^verbatim>\<open>SendData\<close> (the flag: on the way out), or returned.\<close>

datatype write_pc = Select | Uploading bool | WriteDone

text \<open>\<^verbatim>\<open>pumpRead\<close>: at its first select, in \<^verbatim>\<open>Read\<close>, sending a chunk, after an error, or returned.\<close>

datatype read_pc = Check | InRead | Passing bytes "error option" | Failed | ReadDone

record tunnelConn =
  writeCh :: "nat list"
  closeCh :: bool
  calls :: "write_call list"
  acks :: "nat list"
  ackOf :: "nat \<rightharpoonup> error option"
  batch :: bytes
  timer :: timer_state
  pumpWrite :: write_pc
  accepted :: "nat list"
  uploaded :: "bytes list"
  readCh :: "bytes list"
  readChClosed :: bool
  readBuf :: bytes
  pumpRead :: read_pc
  streamed :: bytes
  delivered :: bytes

definition maxBatchBytes :: nat where "maxBatchBytes = 64 * 1024"
definition writeCh_cap :: nat where "writeCh_cap = 64"
definition readCh_cap :: nat where "readCh_cap = 16"

definition new_tunnelConn :: tunnelConn where
  "new_tunnelConn =
     \<lparr>writeCh = [], closeCh = False, calls = [], acks = [], ackOf = Map.empty, batch = [],
      timer = NoTimer, pumpWrite = Select, accepted = [], uploaded = [],
      readCh = [], readChClosed = False, readBuf = [], pumpRead = Check, streamed = [], delivered = []\<rparr>"

abbreviation data_of :: "tunnelConn \<Rightarrow> nat \<Rightarrow> bytes" where
  "data_of c i \<equiv> call_data (calls c ! i)"

subsection \<open>Writing\<close>

text \<open>The function literal \<^verbatim>\<open>flush\<close>.\<close>

definition flush :: "error option \<Rightarrow> tunnelConn \<Rightarrow> tunnelConn" where
  "flush e c = c\<lparr>ackOf := (\<lambda>i. if i \<in> set (acks c) then Some e else ackOf c i), acks := [], batch := [], timer := NoTimer\<rparr>"

definition start_timer :: "tunnelConn \<Rightarrow> tunnelConn" where
  "start_timer c = (if timer c = NoTimer then c\<lparr>timer := Running\<rparr> else c)"

text \<open>A request taken from the channel is appended; a full batch goes out at once.\<close>

definition take_request :: "nat \<Rightarrow> tunnelConn \<Rightarrow> tunnelConn" where
  "take_request i c =
     (let c' = c\<lparr>batch := batch c @ data_of c i, acks := acks c @ [i]\<rparr>
      in if maxBatchBytes \<le> length (batch c') then c'\<lparr>pumpWrite := Uploading False\<rparr> else start_timer c')"

definition ack_result :: "bytes \<Rightarrow> error option \<Rightarrow> nat \<times> error option" where
  "ack_result b e = (case e of None \<Rightarrow> (length b, None) | Some e' \<Rightarrow> (0, Some e'))"

inductive write_step :: "tunnelConn \<Rightarrow> tunnelConn \<Rightarrow> bool" where
  call: "write_step c (c\<lparr>calls := calls c @ [Offering b]\<rparr>)"
| offer: "\<lbrakk>i < length (calls c); calls c ! i = Offering b; length (writeCh c) < writeCh_cap\<rbrakk> \<Longrightarrow>
    write_step c (c\<lparr>writeCh := writeCh c @ [i], accepted := accepted c @ [i], calls := (calls c)[i := Awaiting b]\<rparr>)"
| offer_closed: "\<lbrakk>i < length (calls c); calls c ! i = Offering b; closeCh c\<rbrakk> \<Longrightarrow>
    write_step c (c\<lparr>calls := (calls c)[i := Returned b (0, Some EOF)]\<rparr>)"
| acked: "\<lbrakk>i < length (calls c); calls c ! i = Awaiting b; ackOf c i = Some e\<rbrakk> \<Longrightarrow>
    write_step c (c\<lparr>calls := (calls c)[i := Returned b (ack_result b e)]\<rparr>)"
| ack_closed: "\<lbrakk>i < length (calls c); calls c ! i = Awaiting b; closeCh c\<rbrakk> \<Longrightarrow>
    write_step c (c\<lparr>calls := (calls c)[i := Returned b (0, Some EOF)]\<rparr>)"
| request: "\<lbrakk>pumpWrite c = Select; writeCh c = i # rest\<rbrakk> \<Longrightarrow> write_step c (take_request i (c\<lparr>writeCh := rest\<rparr>))"
| expire: "timer c = Running \<Longrightarrow> write_step c (c\<lparr>timer := Fired\<rparr>)"
| tick: "\<lbrakk>pumpWrite c = Select; timer c = Fired\<rbrakk> \<Longrightarrow>
    write_step c (c\<lparr>timer := Drained, pumpWrite := (if batch c = [] then Select else Uploading False)\<rparr>)"
| leave: "\<lbrakk>pumpWrite c = Select; closeCh c\<rbrakk> \<Longrightarrow>
    write_step c (c\<lparr>pumpWrite := (if batch c = [] then WriteDone else Uploading True)\<rparr>)"
| upload_ok: "pumpWrite c = Uploading f \<Longrightarrow>
    write_step c ((flush None c)\<lparr>uploaded := uploaded c @ [batch c], pumpWrite := (if f then WriteDone else Select)\<rparr>)"
| upload_fails: "pumpWrite c = Uploading f \<Longrightarrow>
    write_step c ((flush (Some e) c)\<lparr>closeCh := True, pumpWrite := WriteDone\<rparr>)"

subsection \<open>Reading\<close>

inductive read_step :: "tunnelConn \<Rightarrow> tunnelConn \<Rightarrow> bool" where
  check_closed: "\<lbrakk>pumpRead c = Check; closeCh c\<rbrakk> \<Longrightarrow> read_step c (c\<lparr>pumpRead := ReadDone\<rparr>)"
| check_open: "\<lbrakk>pumpRead c = Check; \<not> closeCh c\<rbrakk> \<Longrightarrow> read_step c (c\<lparr>pumpRead := InRead\<rparr>)"
| read_data: "\<lbrakk>pumpRead c = InRead; 0 < length bs; length bs \<le> 32 * 1024\<rbrakk> \<Longrightarrow>
    read_step c (c\<lparr>pumpRead := Passing bs e, streamed := streamed c @ bs\<rparr>)"
| read_nothing: "pumpRead c = InRead \<Longrightarrow>
    read_step c (c\<lparr>pumpRead := (if (e :: error option) = None then Check else Failed)\<rparr>)"
| pass: "\<lbrakk>pumpRead c = Passing bs e; \<not> readChClosed c; length (readCh c) < readCh_cap\<rbrakk> \<Longrightarrow>
    read_step c (c\<lparr>readCh := readCh c @ [bs], pumpRead := (if e = None then Check else Failed)\<rparr>)"
| pass_closed: "\<lbrakk>pumpRead c = Passing bs e; closeCh c\<rbrakk> \<Longrightarrow> read_step c (c\<lparr>pumpRead := ReadDone\<rparr>)"
| fail_closed: "\<lbrakk>pumpRead c = Failed; closeCh c\<rbrakk> \<Longrightarrow> read_step c (c\<lparr>pumpRead := ReadDone\<rparr>)"
| fail_open: "\<lbrakk>pumpRead c = Failed; \<not> closeCh c\<rbrakk> \<Longrightarrow>
    read_step c (c\<lparr>readChClosed := True, pumpRead := ReadDone\<rparr>)"

text \<open>
  \<^verbatim>\<open>Read\<close> with a buffer of \<open>k\<close> bytes; \<open>None\<close> when it blocks.
\<close>

definition tunnelConn_Read :: "nat \<Rightarrow> tunnelConn \<Rightarrow> (bytes go \<times> tunnelConn) option" where
  "tunnelConn_Read k c =
     (if readBuf c \<noteq> [] then
        (let p = go_copy k (readBuf c)
         in Some (Ok p, c\<lparr>readBuf := drop (length p) (readBuf c), delivered := delivered c @ p\<rparr>))
      else
        (case readCh c of
           bs # rest \<Rightarrow>
             (let p = go_copy k bs
              in Some (Ok p, c\<lparr>readCh := rest, readBuf := (if length p < length bs then drop (length p) bs else []),
                               delivered := delivered c @ p\<rparr>))
         | [] \<Rightarrow> if readChClosed c then Some (Err EOF, c) else None))"

subsection \<open>The connection\<close>

text \<open>\<^verbatim>\<open>Close\<close>: the function runs once; telling the server and closing the stream are its other effects.\<close>

definition tunnelConn_Close :: "tunnelConn \<Rightarrow> tunnelConn" where
  "tunnelConn_Close c = c\<lparr>closeCh := True\<rparr>"

inductive conn_step :: "tunnelConn \<Rightarrow> tunnelConn \<Rightarrow> bool" where
  writing: "write_step c c' \<Longrightarrow> conn_step c c'"
| reading: "read_step c c' \<Longrightarrow> conn_step c c'"
| read_call: "tunnelConn_Read k c = Some (r, c') \<Longrightarrow> conn_step c c'"
| close: "conn_step c (tunnelConn_Close c)"

inductive conn_reachable :: "tunnelConn \<Rightarrow> bool" where
  start: "conn_reachable new_tunnelConn"
| step: "conn_reachable c \<Longrightarrow> conn_step c c' \<Longrightarrow> conn_reachable c'"

text \<open>The deadline setters report success and do nothing.\<close>

definition tunnelConn_SetDeadline :: "int \<Rightarrow> tunnelConn \<Rightarrow> error option \<times> tunnelConn" where
  "tunnelConn_SetDeadline t c = (None, c)"

definition tunnelConn_addr :: "bytes \<times> nat" where
  "tunnelConn_addr = ([127, 0, 0, 1], 0)"

subsection \<open>Write invariant\<close>

text \<open>
  The accepted requests are, in order, those whose upload ended, those in the batch and those in
  the channel.  \<open>ok\<close> are the ones uploaded; they make up the uploaded bytes, and only they are
  acknowledged without an error.
\<close>

fun call_ok :: "nat list \<Rightarrow> nat \<Rightarrow> write_call \<Rightarrow> bool" where
  "call_ok ok i (Returned b (n, None)) \<longleftrightarrow> i \<in> set ok \<and> n = length b"
| "call_ok ok i w \<longleftrightarrow> True"

definition write_inv :: "nat list \<Rightarrow> nat list \<Rightarrow> tunnelConn \<Rightarrow> bool" where
  "write_inv ok failed c \<longleftrightarrow>
     accepted c = ok @ failed @ acks c @ writeCh c \<and>
     (failed \<noteq> [] \<longrightarrow> pumpWrite c = WriteDone) \<and>
     distinct (accepted c) \<and>
     (\<forall>i\<in>set (accepted c). i < length (calls c) \<and> (\<forall>b. calls c ! i \<noteq> Offering b)) \<and>
     concat (uploaded c) = concat (map (data_of c) ok) \<and>
     batch c = concat (map (data_of c) (acks c)) \<and>
     (\<forall>i. ackOf c i = Some None \<longrightarrow> i \<in> set ok) \<and>
     (\<forall>i<length (calls c). call_ok ok i (calls c ! i))"

definition write_ok :: "tunnelConn \<Rightarrow> bool" where
  "write_ok c \<longleftrightarrow> (\<exists>ok failed. write_inv ok failed c)"

lemma call_ok_mono: "call_ok ok i w \<Longrightarrow> call_ok (ok @ ms) i w"
  by (cases "(ok, i, w)" rule: call_ok.cases) auto

lemma data_of_update:
  "i < length (calls c) \<Longrightarrow> call_data x = call_data (calls c ! i) \<Longrightarrow>
     call_data ((calls c)[i := x] ! j) = call_data (calls c ! j)"
  by (cases "i = j") simp_all

lemma write_inv_other [simp]:
  "write_inv ok failed (c\<lparr>readCh := x1\<rparr>) = write_inv ok failed c"
  "write_inv ok failed (c\<lparr>readChClosed := x2\<rparr>) = write_inv ok failed c"
  "write_inv ok failed (c\<lparr>readBuf := x3\<rparr>) = write_inv ok failed c"
  "write_inv ok failed (c\<lparr>pumpRead := x4\<rparr>) = write_inv ok failed c"
  "write_inv ok failed (c\<lparr>streamed := x5\<rparr>) = write_inv ok failed c"
  "write_inv ok failed (c\<lparr>delivered := x6\<rparr>) = write_inv ok failed c"
  "write_inv ok failed (c\<lparr>timer := x7\<rparr>) = write_inv ok failed c"
  "write_inv ok failed (c\<lparr>closeCh := x8\<rparr>) = write_inv ok failed c"
  by (simp_all add: write_inv_def)

lemma write_inv_call:
  assumes "write_inv ok failed c" "i < length (calls c)" "call_data x = data_of c i" "\<forall>b. x \<noteq> Offering b"
    and x: "call_ok ok i x"
  shows "write_inv ok failed (c\<lparr>calls := (calls c)[i := x]\<rparr>)"
proof -
  note inv = assms(1) [unfolded write_inv_def]
  have d: "call_data ((calls c)[i := x] ! j) = data_of c j" for j
    using data_of_update [of i c x j] assms(2,3) by simp
  have "\<forall>j<length (calls c). call_ok ok j ((calls c)[i := x] ! j)"
    using inv x assms(2) by (simp add: nth_list_update)
  moreover have "\<forall>j\<in>set (accepted c). \<forall>b. (calls c)[i := x] ! j \<noteq> Offering b"
    using inv assms(2,4) by (simp add: nth_list_update)
  ultimately show ?thesis
    using inv by (auto simp: write_inv_def d)
qed

lemma write_inv_new_call:
  assumes "write_inv ok failed c"
  shows "write_inv ok failed (c\<lparr>calls := calls c @ [Offering b]\<rparr>)"
proof -
  have acc: "\<forall>i\<in>set (accepted c). i < length (calls c)"
    and split: "accepted c = ok @ failed @ acks c @ writeCh c"
    using assms by (simp_all add: write_inv_def)
  have d: "call_data ((calls c @ [Offering b]) ! i) = data_of c i" if "i \<in> set (accepted c)" for i
    using acc that by (simp add: nth_append)
  then have m: "map (\<lambda>i. call_data ((calls c @ [Offering b]) ! i)) ok = map (data_of c) ok"
    "map (\<lambda>i. call_data ((calls c @ [Offering b]) ! i)) (acks c) = map (data_of c) (acks c)"
    by (simp_all add: split)
  have "\<forall>i\<in>set (accepted c). (calls c @ [Offering b]) ! i = calls c ! i"
    using acc by (simp add: nth_append)
  moreover have "\<forall>i<Suc (length (calls c)). call_ok ok i ((calls c @ [Offering b]) ! i)"
    using assms by (simp add: write_inv_def nth_append less_Suc_eq)
  ultimately show ?thesis
    using assms [unfolded write_inv_def] by (auto simp: write_inv_def m less_SucI)
qed

lemma write_inv_offer:
  assumes "write_inv ok failed c" "i < length (calls c)" "calls c ! i = Offering b"
  shows "write_inv ok failed (c\<lparr>writeCh := writeCh c @ [i], accepted := accepted c @ [i], calls := (calls c)[i := Awaiting b]\<rparr>)"
proof -
  have "write_inv ok failed (c\<lparr>calls := (calls c)[i := Awaiting b]\<rparr>)"
    using write_inv_call [OF assms(1,2), of "Awaiting b"] assms(3) by simp
  moreover have "i \<notin> set (accepted c)"
    using assms by (auto simp: write_inv_def)
  ultimately show ?thesis
    using assms(2) by (auto simp: write_inv_def nth_list_update)
qed

lemma write_inv_request:
  assumes "write_inv ok failed c" "pumpWrite c = Select" "writeCh c = i # rest"
  shows "write_inv ok failed (take_request i (c\<lparr>writeCh := rest\<rparr>))"
proof -
  have "write_inv ok failed (c\<lparr>writeCh := rest, batch := batch c @ data_of c i, acks := acks c @ [i]\<rparr>)"
    using assms by (auto simp: write_inv_def)
  moreover have "failed = []"
    using assms by (auto simp: write_inv_def)
  ultimately show ?thesis
    by (auto simp: take_request_def start_timer_def Let_def write_inv_def)
qed

lemma write_inv_flush_ok:
  assumes "write_inv ok failed c" "pumpWrite c = Uploading f"
  shows "write_inv (ok @ acks c) [] ((flush None c)\<lparr>uploaded := uploaded c @ [batch c], pumpWrite := x\<rparr>)"
  using assms by (auto simp: write_inv_def flush_def call_ok_mono)

lemma write_inv_flush_fails:
  assumes "write_inv ok failed c" "pumpWrite c = Uploading f"
  shows "write_inv ok (acks c) ((flush (Some e) c)\<lparr>closeCh := True, pumpWrite := WriteDone\<rparr>)"
  using assms by (auto simp: write_inv_def flush_def)

lemma write_inv_control:
  assumes "write_inv ok failed c"
  shows "write_inv ok failed (c\<lparr>timer := x\<rparr>)"
    and "pumpWrite c = Select \<Longrightarrow> write_inv ok failed (c\<lparr>timer := x, pumpWrite := y\<rparr>)"
    and "pumpWrite c = Select \<Longrightarrow> write_inv ok failed (c\<lparr>pumpWrite := y\<rparr>)"
    and "write_inv ok failed (tunnelConn_Close c)"
  using assms by (auto simp: write_inv_def tunnelConn_Close_def)

lemma write_ok_step:
  assumes "write_step c c'" "write_ok c"
  shows "write_ok c'"
proof -
  obtain ok failed where inv: "write_inv ok failed c"
    using assms(2) by (auto simp: write_ok_def)
  have "\<exists>ok failed. write_inv ok failed c'"
    using assms(1)
  proof cases
    case (call b)
    then show ?thesis using write_inv_new_call [OF inv] by blast
  next
    case (offer i b)
    then show ?thesis using write_inv_offer [OF inv] by blast
  next
    case (offer_closed i b)
    then show ?thesis using write_inv_call [OF inv offer_closed(2), of "Returned b (0, Some EOF)"] by auto
  next
    case (acked i b e)
    have "call_ok ok i (Returned b (ack_result b e))"
      using inv acked(4) by (cases e) (simp_all add: ack_result_def write_inv_def)
    then show ?thesis
      using write_inv_call [OF inv acked(2), of "Returned b (ack_result b e)"] acked(1,3) by auto
  next
    case (ack_closed i b)
    then show ?thesis using write_inv_call [OF inv ack_closed(2), of "Returned b (0, Some EOF)"] by auto
  next
    case (request i rest)
    then show ?thesis using write_inv_request [OF inv] by blast
  next
    case expire
    then show ?thesis using write_inv_control(1) [OF inv] by blast
  next
    case tick
    then show ?thesis using write_inv_control(2) [OF inv] by blast
  next
    case leave
    then show ?thesis using write_inv_control(3) [OF inv] by blast
  next
    case (upload_ok f)
    then show ?thesis using write_inv_flush_ok [OF inv] by blast
  next
    case (upload_fails f e)
    then show ?thesis using write_inv_flush_fails [OF inv] by blast
  qed
  then show ?thesis
    by (simp add: write_ok_def)
qed

lemma read_step_frame: "read_step c c' \<Longrightarrow> write_inv ok failed c' = write_inv ok failed c"
  by (induction rule: read_step.induct) simp_all

lemma Read_frame: "tunnelConn_Read k c = Some (r, c') \<Longrightarrow> write_inv ok failed c' = write_inv ok failed c"
  by (auto simp: tunnelConn_Read_def Let_def split: if_splits list.splits)

lemma conn_write_ok: "conn_reachable c \<Longrightarrow> write_ok c"
proof (induction rule: conn_reachable.induct)
  case start
  then show ?case
    by (auto simp: write_ok_def write_inv_def new_tunnelConn_def intro!: exI [of _ "[]"])
next
  case (step c c')
  from step(2) show ?case
  proof cases
    case writing
    then show ?thesis using step(3) by (rule write_ok_step)
  qed (use step(3) in \<open>auto simp: write_ok_def read_step_frame Read_frame tunnelConn_Close_def\<close>)
qed

subsection \<open>The flush timer\<close>

definition no_empty_writes :: "tunnelConn \<Rightarrow> bool" where
  "no_empty_writes c \<longleftrightarrow> (\<forall>w\<in>set (calls c). call_data w \<noteq> [])"

definition timer_ok :: "tunnelConn \<Rightarrow> bool" where
  "timer_ok c \<longleftrightarrow> (pumpWrite c = Select \<longrightarrow> timer c \<noteq> Drained \<and> (acks c = [] \<longleftrightarrow> timer c = NoTimer))"

lemma timer_ok_other [simp]:
  "timer_ok (c\<lparr>readCh := x1\<rparr>) = timer_ok c" "timer_ok (c\<lparr>readChClosed := x2\<rparr>) = timer_ok c"
  "timer_ok (c\<lparr>readBuf := x3\<rparr>) = timer_ok c" "timer_ok (c\<lparr>pumpRead := x4\<rparr>) = timer_ok c"
  "timer_ok (c\<lparr>streamed := x5\<rparr>) = timer_ok c" "timer_ok (c\<lparr>delivered := x6\<rparr>) = timer_ok c"
  "timer_ok (c\<lparr>closeCh := x7\<rparr>) = timer_ok c" "timer_ok (c\<lparr>calls := x8\<rparr>) = timer_ok c"
  "timer_ok (c\<lparr>accepted := x9\<rparr>) = timer_ok c" "timer_ok (c\<lparr>writeCh := x10\<rparr>) = timer_ok c"
  by (simp_all add: timer_ok_def)

lemma batch_nonempty:
  assumes "write_ok c" "no_empty_writes c" "acks c \<noteq> []"
  shows "batch c \<noteq> []"
proof -
  obtain ok failed where inv: "write_inv ok failed c"
    using assms(1) by (auto simp: write_ok_def)
  obtain i where i: "i \<in> set (acks c)"
    using assms(3) by (cases "acks c") auto
  then have "i < length (calls c)"
    using inv by (auto simp: write_inv_def)
  then have "data_of c i \<noteq> []"
    using assms(2) by (simp add: no_empty_writes_def)
  then show ?thesis
    using inv i by (auto simp: write_inv_def)
qed

lemma timer_ok_write:
  assumes "write_step c c'" "write_ok c" "no_empty_writes c" "timer_ok c"
  shows "timer_ok c'"
  using assms(1)
proof cases
  case (request i rest)
  then show ?thesis
    using assms(4) by (cases "timer c") (auto simp: timer_ok_def take_request_def start_timer_def Let_def)
next
  case tick
  then show ?thesis
    using assms(4) batch_nonempty [OF assms(2,3)] by (auto simp: timer_ok_def)
next
  case leave
  then show ?thesis
    using assms(4) by (auto simp: timer_ok_def)
qed (use assms(4) in \<open>auto simp: timer_ok_def flush_def\<close>)

lemma same_data:
  "i < length ws \<Longrightarrow> call_data x = call_data (ws ! i) \<Longrightarrow> map call_data (ws[i := x]) = map call_data ws"
  by (metis list_update_id map_update)

lemma write_step_calls: "write_step c c' \<Longrightarrow> \<exists>ds. map call_data (calls c') = map call_data (calls c) @ ds"
  by (induction rule: write_step.induct) (auto simp: same_data flush_def take_request_def start_timer_def Let_def)

lemma read_step_calls: "read_step c c' \<Longrightarrow> calls c' = calls c"
  by (induction rule: read_step.induct) simp_all

lemma Read_calls: "tunnelConn_Read k c = Some (r, c') \<Longrightarrow> calls c' = calls c"
  by (auto simp: tunnelConn_Read_def Let_def split: if_splits list.splits)

lemma no_empty_writes_back:
  assumes "conn_step c c'" "no_empty_writes c'"
  shows "no_empty_writes c"
proof -
  have "\<exists>ds. map call_data (calls c') = map call_data (calls c) @ ds"
    using assms(1)
    by (cases rule: conn_step.cases)
      (auto simp: write_step_calls read_step_calls Read_calls tunnelConn_Close_def)
  then have "call_data ` set (calls c) \<subseteq> call_data ` set (calls c')"
    by (metis set_append set_map sup_ge1)
  then show ?thesis
    using assms(2) unfolding no_empty_writes_def by (metis image_eqI imageE subsetD)
qed

lemma timer_ok_Read: "tunnelConn_Read k c = Some (r, c') \<Longrightarrow> timer_ok c' = timer_ok c"
  by (auto simp: tunnelConn_Read_def Let_def split: if_splits list.splits)

lemma conn_timer_ok: "conn_reachable c \<Longrightarrow> no_empty_writes c \<Longrightarrow> timer_ok c"
proof (induction rule: conn_reachable.induct)
  case start
  then show ?case by (simp add: timer_ok_def new_tunnelConn_def)
next
  case (step c c')
  then have c: "timer_ok c" "write_ok c" "no_empty_writes c"
    by (simp_all add: no_empty_writes_back [OF step(2)] conn_write_ok)
  from step(2) show ?case
  proof cases
    case writing
    then show ?thesis using timer_ok_write c by blast
  next
    case reading
    then show ?thesis using c(1) by (induction rule: read_step.induct) simp_all
  next
    case (read_call k r)
    then show ?thesis using c(1) timer_ok_Read by simp
  next
    case close
    then show ?thesis using c(1) by (simp add: tunnelConn_Close_def)
  qed
qed

lemma upload_owed:
  assumes "timer c \<in> {Running, Fired}" "pumpWrite c = Select" "batch c \<noteq> []"
  shows "\<exists>c'. write_step\<^sup>*\<^sup>* c c' \<and> uploaded c' = uploaded c @ [batch c] \<and> (\<forall>i\<in>set (acks c). ackOf c' i = Some None)"
proof -
  let ?c1 = "c\<lparr>timer := Fired\<rparr>"
  let ?c2 = "?c1\<lparr>timer := Drained, pumpWrite := (if batch ?c1 = [] then Select else Uploading False)\<rparr>"
  let ?c3 = "(flush None ?c2)\<lparr>uploaded := uploaded ?c2 @ [batch ?c2], pumpWrite := (if False then WriteDone else Select)\<rparr>"
  have "write_step\<^sup>*\<^sup>* c ?c1"
  proof (cases "timer c = Running")
    case True
    then show ?thesis by (blast intro: write_step.expire)
  next
    case False
    then have "?c1 = c" using assms(1) by simp
    then show ?thesis by simp
  qed
  moreover have "write_step ?c1 ?c2"
    by (rule write_step.tick) (use assms in simp_all)
  moreover have "write_step ?c2 ?c3"
    by (rule write_step.upload_ok) (use assms in simp)
  ultimately have "write_step\<^sup>*\<^sup>* c ?c3"
    by (meson rtranclp.rtrancl_into_rtrancl)
  then show ?thesis
    by - (rule exI [of _ ?c3], simp add: flush_def)
qed

definition stalled :: "tunnelConn \<Rightarrow> bool" where
  "stalled c \<longleftrightarrow> pumpWrite c = Select \<and> timer c = Drained \<and> \<not> closeCh c"

lemma stalled_write:
  assumes "write_step c c'" "stalled c" "length (batch c') < maxBatchBytes"
  shows "stalled c' \<and> ackOf c' = ackOf c"
  using assms
  by (induction rule: write_step.induct)
    (auto simp: stalled_def take_request_def start_timer_def Let_def split: if_splits)

lemma stalled_step:
  assumes "conn_step c c'" "stalled c" "\<not> closeCh c'" "length (batch c') < maxBatchBytes"
  shows "stalled c' \<and> ackOf c' = ackOf c"
  using assms(1)
proof cases
  case writing
  then show ?thesis using stalled_write assms by blast
next
  case reading
  then show ?thesis using assms(2) by (induction rule: read_step.induct) (auto simp: stalled_def)
next
  case (read_call k r)
  then show ?thesis
    using assms(2) by (auto simp: tunnelConn_Read_def Let_def stalled_def split: if_splits list.splits)
next
  case close
  then show ?thesis using assms(3) by (simp add: tunnelConn_Close_def)
qed

text \<open>One empty \<^verbatim>\<open>Write\<close>, taken by the pump, and the timer going off.\<close>

definition after_empty_write :: tunnelConn where
  "after_empty_write = new_tunnelConn\<lparr>calls := [Awaiting []], accepted := [0], acks := [0], timer := Drained\<rparr>"

lemma write_reachable: "conn_reachable c \<Longrightarrow> write_step c c' \<Longrightarrow> conn_reachable c'"
  by (blast intro: conn_reachable.step conn_step.writing)

lemma after_empty_write_reachable: "conn_reachable after_empty_write"
proof -
  let ?c0 = new_tunnelConn
  let ?c1 = "?c0\<lparr>calls := [Offering []]\<rparr>"
  let ?c2 = "?c0\<lparr>calls := [Awaiting []], accepted := [0], writeCh := [0]\<rparr>"
  let ?c3 = "?c0\<lparr>calls := [Awaiting []], accepted := [0], acks := [0], timer := Running\<rparr>"
  let ?c4 = "?c0\<lparr>calls := [Awaiting []], accepted := [0], acks := [0], timer := Fired\<rparr>"
  have "write_step ?c0 ?c1"
    using write_step.call [of ?c0 "[]"] by (simp add: new_tunnelConn_def)
  moreover have "write_step ?c1 ?c2"
    using write_step.offer [of 0 ?c1 "[]"] by (simp add: new_tunnelConn_def writeCh_cap_def)
  moreover have "write_step ?c2 ?c3"
    using write_step.request [of ?c2 0 "[]"]
    by (simp add: new_tunnelConn_def take_request_def start_timer_def maxBatchBytes_def)
  moreover have "write_step ?c3 ?c4"
    using write_step.expire [of ?c3] by (simp add: new_tunnelConn_def)
  moreover have "write_step ?c4 after_empty_write"
    using write_step.tick [of ?c4] by (simp add: new_tunnelConn_def after_empty_write_def)
  ultimately show ?thesis
    using conn_reachable.start write_reachable by meson
qed

subsection \<open>Read invariant\<close>

fun hand :: "read_pc \<Rightarrow> bytes" where
  "hand (Passing bs e) = bs"
| "hand _ = []"

definition read_inv :: "tunnelConn \<Rightarrow> bool" where
  "read_inv c \<longleftrightarrow> (\<exists>lost.
     streamed c = delivered c @ readBuf c @ concat (readCh c) @ hand (pumpRead c) @ lost \<and>
     (lost \<noteq> [] \<longrightarrow> pumpRead c = ReadDone \<and> \<not> readChClosed c)) \<and>
     (readChClosed c \<longrightarrow> pumpRead c = ReadDone) \<and>
     length (readCh c) \<le> readCh_cap \<and> [] \<notin> set (readCh c) \<and>
     (\<forall>e. pumpRead c \<noteq> Passing [] e)"

lemma read_inv_read_step: "read_step c c' \<Longrightarrow> read_inv c \<Longrightarrow> read_inv c'"
  by (induction rule: read_step.induct) (auto simp: read_inv_def)

lemma read_inv_shift:
  assumes "read_inv c" "streamed c' = streamed c" "pumpRead c' = pumpRead c" "readChClosed c' = readChClosed c"
    and same: "delivered c' @ readBuf c' @ concat (readCh c') = delivered c @ readBuf c @ concat (readCh c)"
    and "length (readCh c') \<le> length (readCh c)" "set (readCh c') \<subseteq> set (readCh c)"
  shows "read_inv c'"
proof -
  obtain lost where lost: "streamed c = delivered c @ readBuf c @ concat (readCh c) @ hand (pumpRead c) @ lost"
    "lost \<noteq> [] \<longrightarrow> pumpRead c = ReadDone \<and> \<not> readChClosed c"
    using assms(1) by (auto simp: read_inv_def)
  then have "streamed c' = delivered c' @ readBuf c' @ concat (readCh c') @ hand (pumpRead c') @ lost"
    using arg_cong [OF same, of "\<lambda>x. x @ hand (pumpRead c) @ lost"] assms(2,3) by simp
  moreover have "[] \<notin> set (readCh c')" "length (readCh c') \<le> readCh_cap"
    "readChClosed c \<longrightarrow> pumpRead c = ReadDone" "\<forall>e. pumpRead c \<noteq> Passing [] e"
    using assms(1,6,7) by (auto simp: read_inv_def)
  ultimately show ?thesis
    unfolding read_inv_def using assms(3,4) lost(2) by auto
qed

lemma read_inv_Read:
  assumes "tunnelConn_Read k c = Some (r, c')" "read_inv c"
  shows "read_inv c'"
proof (rule read_inv_shift [OF assms(2)])
  have "take k bs @ (if k < length bs then drop k bs else []) = bs" for bs :: bytes
    by (cases "length bs \<le> k") simp_all
  then show "delivered c' @ readBuf c' @ concat (readCh c') = delivered c @ readBuf c @ concat (readCh c)"
    using assms(1) by (auto simp: tunnelConn_Read_def Let_def go_copy_def min_def split: if_splits list.splits)
qed (use assms(1) in \<open>auto simp: tunnelConn_Read_def Let_def split: if_splits list.splits\<close>)

lemma write_step_read_side:
  "write_step c c' \<Longrightarrow> streamed c' = streamed c \<and> delivered c' = delivered c \<and> readBuf c' = readBuf c \<and>
     readCh c' = readCh c \<and> pumpRead c' = pumpRead c \<and> readChClosed c' = readChClosed c"
  by (induction rule: write_step.induct) (auto simp: flush_def take_request_def start_timer_def Let_def)

lemma conn_read_inv: "conn_reachable c \<Longrightarrow> read_inv c"
proof (induction rule: conn_reachable.induct)
  case start
  then show ?case by (simp add: read_inv_def new_tunnelConn_def)
next
  case (step c c')
  from step(2) show ?case
  proof cases
    case writing
    then show ?thesis using step(3) write_step_read_side [OF writing] by (simp add: read_inv_def)
  next
    case reading
    then show ?thesis using step(3) by (rule read_inv_read_step)
  next
    case (read_call k r)
    then show ?thesis using step(3) by (rule read_inv_Read)
  next
    case close
    then show ?thesis using step(3) by (simp add: tunnelConn_Close_def read_inv_def)
  qed
qed

definition stuck_reader :: "tunnelConn \<Rightarrow> bool" where
  "stuck_reader c \<longleftrightarrow> pumpRead c = ReadDone \<and> \<not> readChClosed c \<and> readCh c = [] \<and> readBuf c = []"

lemma stuck_reader_step:
  assumes "conn_step c c'" "stuck_reader c"
  shows "stuck_reader c'"
  using assms(1)
proof cases
  case writing
  then show ?thesis using assms(2) write_step_read_side [OF writing] by (simp add: stuck_reader_def)
next
  case reading
  then show ?thesis using assms(2) by (induction rule: read_step.induct) (auto simp: stuck_reader_def)
next
  case (read_call k r)
  then show ?thesis using assms(2) by (simp add: stuck_reader_def tunnelConn_Read_def)
next
  case close
  then show ?thesis using assms(2) by (simp add: stuck_reader_def tunnelConn_Close_def)
qed

lemma closed_reader_reachable: "conn_reachable ((tunnelConn_Close new_tunnelConn)\<lparr>pumpRead := ReadDone\<rparr>)"
proof -
  have "conn_step new_tunnelConn (tunnelConn_Close new_tunnelConn)"
    by (rule conn_step.close)
  moreover have "read_step (tunnelConn_Close new_tunnelConn) ((tunnelConn_Close new_tunnelConn)\<lparr>pumpRead := ReadDone\<rparr>)"
    by (rule read_step.check_closed) (simp_all add: tunnelConn_Close_def new_tunnelConn_def)
  ultimately show ?thesis
    by (blast intro: conn_reachable.intros conn_step.reading)
qed

subsection \<open>Properties\<close>

text \<open>
  C30: Whatever the interleaving of concurrent \<^verbatim>\<open>Write\<close> calls with the pump, the timer and \<^verbatim>\<open>Close\<close>,
  the uploaded bytes are the data of the first so many accepted calls, in the order of acceptance,
  each whole and once.  A call that reports success reports all its bytes and is among them.
\<close>

theorem writes_upload_in_order:
  assumes "conn_reachable c"
  shows "\<exists>ids. prefix ids (accepted c) \<and> distinct ids \<and> concat (uploaded c) = concat (map (data_of c) ids) \<and>
    (\<forall>i b n. i < length (calls c) \<and> calls c ! i = Returned b (n, None) \<longrightarrow> i \<in> set ids \<and> n = length b)"
proof -
  obtain ok failed where inv: "write_inv ok failed c"
    using conn_write_ok [OF assms] by (auto simp: write_ok_def)
  have "i \<in> set ok \<and> n = length b" if "i < length (calls c)" "calls c ! i = Returned b (n, None)" for i b n
    using inv that by (metis call_ok.simps(1) write_inv_def)
  moreover have "prefix ok (accepted c)" "distinct ok" "concat (uploaded c) = concat (map (data_of c) ok)"
    using inv by (auto simp: write_inv_def)
  ultimately show ?thesis
    by blast
qed

text \<open>A connection on which one \<^verbatim>\<open>Write\<close> of one byte has been taken by the pump.\<close>

definition one_byte_taken :: tunnelConn where
  "one_byte_taken = new_tunnelConn\<lparr>calls := [Awaiting [7]], accepted := [0], acks := [0], batch := [7], timer := Running\<rparr>"

lemma one_byte_taken_reachable: "conn_reachable one_byte_taken"
proof -
  let ?c1 = "new_tunnelConn\<lparr>calls := [Offering [7]]\<rparr>"
  let ?c2 = "new_tunnelConn\<lparr>calls := [Awaiting [7]], accepted := [0], writeCh := [0]\<rparr>"
  have "write_step new_tunnelConn ?c1"
    using write_step.call [of new_tunnelConn "[7]"] by (simp add: new_tunnelConn_def)
  moreover have "write_step ?c1 ?c2"
    using write_step.offer [of 0 ?c1 "[7]"] by (simp add: new_tunnelConn_def writeCh_cap_def)
  moreover have "write_step ?c2 one_byte_taken"
    using write_step.request [of ?c2 0 "[]"]
    by (simp add: new_tunnelConn_def take_request_def start_timer_def maxBatchBytes_def one_byte_taken_def)
  ultimately show ?thesis
    using conn_reachable.start write_reachable by meson
qed

theorem writes_upload_in_order_witness:
  "conn_reachable one_byte_taken \<and> (\<exists>ids. prefix ids (accepted one_byte_taken) \<and> concat (map (data_of one_byte_taken) ids) = [])"
proof -
  have "concat (uploaded one_byte_taken) = []"
    by (simp add: one_byte_taken_def new_tunnelConn_def)
  then show ?thesis
    using writes_upload_in_order [OF one_byte_taken_reachable] one_byte_taken_reachable by metis
qed

text \<open>
  C33: As long as no \<^verbatim>\<open>Write\<close> is empty, the pump never sits on data: whenever it waits at its select
  and owes acknowledgements, the flush timer is running or has fired, and letting it run and the
  upload succeed sends the whole batch and acknowledges every call in it.
\<close>

theorem nonempty_writes_are_flushed:
  assumes "conn_reachable c" "no_empty_writes c" "pumpWrite c = Select" "acks c \<noteq> []"
  shows "timer c \<in> {Running, Fired} \<and>
    (\<exists>c'. write_step\<^sup>*\<^sup>* c c' \<and> uploaded c' = uploaded c @ [batch c] \<and> (\<forall>i\<in>set (acks c). ackOf c' i = Some None))"
proof -
  have "timer c \<in> {Running, Fired}"
    using conn_timer_ok [OF assms(1,2)] assms(3,4) by (cases "timer c") (auto simp: timer_ok_def)
  moreover have "batch c \<noteq> []"
    using batch_nonempty [OF conn_write_ok [OF assms(1)] assms(2,4)] .
  ultimately show ?thesis
    using upload_owed [of c] assms(3) by blast
qed

theorem nonempty_writes_are_flushed_witness:
  "\<exists>c'. write_step\<^sup>*\<^sup>* one_byte_taken c' \<and> uploaded c' = [[7]] \<and> ackOf c' 0 = Some None"
proof -
  have "no_empty_writes one_byte_taken" "pumpWrite one_byte_taken = Select" "acks one_byte_taken = [0]"
    "uploaded one_byte_taken = []" "batch one_byte_taken = [7]"
    by (simp_all add: one_byte_taken_def new_tunnelConn_def no_empty_writes_def)
  then show ?thesis
    using nonempty_writes_are_flushed [OF one_byte_taken_reachable] by auto
qed

text \<open>
  C39: An empty \<^verbatim>\<open>Write\<close> stalls the connection.  After the timer it starts has fired on an empty
  batch, the timer is neither nil nor ever ready again, so until the connection closes or 64 KiB
  pile up no step acknowledges any call: not the empty one, and none of those that follow it.
\<close>

theorem empty_write_stalls:
  "(\<exists>c. conn_reachable c \<and> stalled c \<and> calls c = [Awaiting []] \<and> ackOf c 0 = None) \<and>
   (\<forall>c c'. stalled c \<and> conn_step c c' \<and> \<not> closeCh c' \<and> length (batch c') < maxBatchBytes \<longrightarrow>
      stalled c' \<and> ackOf c' = ackOf c)"
proof (intro conjI allI impI)
  show "\<exists>c. conn_reachable c \<and> stalled c \<and> calls c = [Awaiting []] \<and> ackOf c 0 = None"
    using after_empty_write_reachable
    by (intro exI [of _ after_empty_write]) (simp add: after_empty_write_def new_tunnelConn_def stalled_def)
qed (use stalled_step in blast)+

theorem empty_write_stalls_witness:
  "\<exists>c. conn_reachable c \<and> stalled c \<and> calls c = [Awaiting []] \<and> ackOf c 0 = None"
  using empty_write_stalls by blast

text \<open>
  C32: \<^verbatim>\<open>Read\<close> delivers what the download stream delivered, in order and without gaps, and reports the
  end of file only when all of it has been handed out; the pump never sends on the closed channel.
\<close>

theorem reads_in_order:
  assumes "conn_reachable c"
  shows "prefix (delivered c) (streamed c) \<and>
    (\<forall>k e c'. tunnelConn_Read k c = Some (Err e, c') \<longrightarrow> e = EOF \<and> delivered c = streamed c) \<and>
    (\<forall>bs e. pumpRead c = Passing bs e \<longrightarrow> \<not> readChClosed c)"
proof -
  have inv: "read_inv c"
    using conn_read_inv [OF assms] .
  have "e = EOF \<and> delivered c = streamed c" if "tunnelConn_Read k c = Some (Err e, c')" for k e c'
  proof -
    have "readBuf c = []" "readCh c = []" "readChClosed c" "e = EOF"
      using that by (auto simp: tunnelConn_Read_def Let_def split: if_splits list.splits)
    then show ?thesis
      using inv by (auto simp: read_inv_def)
  qed
  then show ?thesis
    using inv by (auto simp: read_inv_def)
qed

theorem reads_in_order_witness:
  "conn_reachable new_tunnelConn \<and> prefix (delivered new_tunnelConn) (streamed new_tunnelConn)"
  using reads_in_order [OF conn_reachable.start] conn_reachable.start by blast

text \<open>
  A \<^verbatim>\<open>Read\<close> that waits while the connection is closed never returns: when \<^verbatim>\<open>Close\<close> comes before
  the stream ends, \<^verbatim>\<open>pumpRead\<close> returns without closing the channel, and from then on, whatever
  happens, \<^verbatim>\<open>Read\<close> finds neither data nor the end.
\<close>

theorem Read_blocks_after_Close:
  "(\<exists>c. conn_reachable c \<and> closeCh c \<and> stuck_reader c) \<and>
   (\<forall>c c' k. stuck_reader c \<and> conn_step\<^sup>*\<^sup>* c c' \<longrightarrow> tunnelConn_Read k c' = None)"
proof (intro conjI allI impI)
  show "\<exists>c. conn_reachable c \<and> closeCh c \<and> stuck_reader c"
    using closed_reader_reachable
    by (intro exI [of _ "(tunnelConn_Close new_tunnelConn)\<lparr>pumpRead := ReadDone\<rparr>"])
      (simp add: stuck_reader_def tunnelConn_Close_def new_tunnelConn_def)
next
  fix c c' k assume "stuck_reader c \<and> conn_step\<^sup>*\<^sup>* c c'"
  then have "conn_step\<^sup>*\<^sup>* c c'" "stuck_reader c"
    by simp_all
  then have "stuck_reader c'"
    by (induction rule: rtranclp_induct) (auto intro: stuck_reader_step)
  then show "tunnelConn_Read k c' = None"
    by (simp add: stuck_reader_def tunnelConn_Read_def)
qed

theorem Read_blocks_after_Close_witness:
  "\<exists>c. conn_reachable c \<and> closeCh c \<and> tunnelConn_Read 100 c = None"
proof -
  obtain c where "conn_reachable c" "closeCh c" "stuck_reader c"
    using Read_blocks_after_Close by blast
  then show ?thesis
    using Read_blocks_after_Close by blast
qed

end
