(* ===== verification/Dpi_Proxy.thy ===== *)
theory Dpi_Proxy
  imports Dpi_Conn Go_Base64
begin

text \<open>
  The rest of \<^verbatim>\<open>dpi/client/proxy.go\<close> and \<^verbatim>\<open>dpi/client/tunnel_conn.go\<close>: the HTTP CONNECT proxy in front of
  the transport, the \<^verbatim>\<open>Proxy-Authorization\<close> parser, and the simple tunnel that pumps a local
  connection without batching.  \<^verbatim>\<open>http.ReadRequest\<close> delivers the method and host of the request or an
  error; writing the answer may fail.
\<close>

subsection \<open>HTTP CONNECT\<close>

definition host_port :: "string \<Rightarrow> string" where
  "host_port h = (if CHR '':'' \<in> set h then h else h @ '':443'')"

text \<open>
  How a proxied connection ends: unreadable request, an answer with a status code and nothing more,
  connected but the answer could not be written, connected and answered but no download stream, or
  a tunnel.
\<close>

datatype proxy_end = Unreadable | Answered nat | AnswerLost u32 | NoStream u32 | Tunnel u32 streamReader

definition handleHTTPProxy ::
  "AEAD \<Rightarrow> 's net_env \<Rightarrow> error + string \<times> string \<Rightarrow> error option \<Rightarrow> Transport \<Rightarrow> 's \<Rightarrow> (proxy_end \<times> Transport \<times> 's) option" where
  "handleHTTPProxy a env req answer t s =
     (case req of
        Inl e \<Rightarrow> Some (Unreadable, t, s)
      | Inr (meth, h) \<Rightarrow>
          if meth \<noteq> ''CONNECT'' then Some (Answered 405, t, s)
          else
            (case Connect a env ''tcp'' (host_port h) t s of
               None \<Rightarrow> None
             | Some (Inl e, t', s') \<Rightarrow> Some (Answered 502, t', s')
             | Some (Inr i, t', s') \<Rightarrow>
                 (case answer of
                    Some e \<Rightarrow> Some (AnswerLost i, t', s')
                  | None \<Rightarrow>
                      (case DownloadStream env t' i s' of
                         (Inl e, s'') \<Rightarrow> Some (NoStream i, t', s'')
                       | (Inr sr, s'') \<Rightarrow> Some (Tunnel i sr, t', s'')))))"

text \<open>The accept loop ends at the first error.\<close>

fun proxy_accept :: "(error + 'c) list \<Rightarrow> 'c list" where
  "proxy_accept [] = []"
| "proxy_accept (Inl e # xs) = []"
| "proxy_accept (Inr c # xs) = c # proxy_accept xs"

definition run_proxy :: "(string \<Rightarrow> error option) \<Rightarrow> string \<Rightarrow> string \<Rightarrow> error option \<times> string list" where
  "run_proxy listen socksAddr httpAddr =
     (let socks = (if socksAddr \<noteq> [] then [socksAddr] else [])
      in if httpAddr = [] then (None, socks)
         else (case listen httpAddr of Some e \<Rightarrow> (Some e, socks) | None \<Rightarrow> (None, socks @ [httpAddr])))"

subsection \<open>Credentials\<close>

definition ParseProxyAuth :: "string \<Rightarrow> (string \<times> string) option" where
  "ParseProxyAuth auth =
     (if \<not> HasPrefix auth ''Basic '' then None
      else
        (case DecodeString (drop 6 auth) of
           None \<Rightarrow> None
         | Some dec \<Rightarrow> split_first CHR '':'' (go_string dec)))"

subsection \<open>The unbatched tunnel\<close>

text \<open>
  \<^verbatim>\<open>TunnelConn\<close>: \<open>tc_closed\<close> is the closed channel \<^verbatim>\<open>closeCh\<close>, which \<^verbatim>\<open>closeOnce\<close> closes the first time,
  and \<open>local_closed\<close> is the state of the local connection.
\<close>

record TunnelConn =
  tc_connID :: u32
  tc_closed :: bool
  local_closed :: bool

definition NewTunnelConn :: "u32 \<Rightarrow> TunnelConn" where
  "NewTunnelConn i = \<lparr>tc_connID = i, tc_closed = False, local_closed = False\<rparr>"

definition TunnelConn_Close :: "AEAD \<Rightarrow> 's net_env \<Rightarrow> Transport \<Rightarrow> TunnelConn \<Rightarrow> 's \<Rightarrow> TunnelConn \<times> 's" where
  "TunnelConn_Close a env t tc s =
     (if tc_closed tc then (tc, s)
      else (tc\<lparr>tc_closed := True, local_closed := True\<rparr>, snd (CloseConn a env t (tc_connID tc) s)))"

text \<open>
  \<^verbatim>\<open>pumpLocalToServer\<close>: \<open>n\<close> is the number of rounds before its select sees the tunnel closed by the
  other pump.
\<close>

primrec pumpLocalToServer :: "AEAD \<Rightarrow> 's net_env \<Rightarrow> Transport \<Rightarrow> nat \<Rightarrow> reader \<Rightarrow> TunnelConn \<Rightarrow> 's \<Rightarrow> TunnelConn \<times> 's" where
  "pumpLocalToServer a env t 0 r tc s = (tc, s)"
| "pumpLocalToServer a env t (Suc n) r tc s =
     (if tc_closed tc then (tc, s)
      else
        (case Read (32 * 1024) r of ((p, e), r') \<Rightarrow>
           (case (if p \<noteq> [] then SendData a env t (tc_connID tc) p s else (None, s)) of
              (Some err, s') \<Rightarrow> TunnelConn_Close a env t tc s'
            | (None, s') \<Rightarrow>
                (case e of
                   Some err \<Rightarrow> TunnelConn_Close a env t tc s'
                 | None \<Rightarrow> pumpLocalToServer a env t n r' tc s'))))"

text \<open>\<^verbatim>\<open>pumpServerToLocal\<close>: the bytes copied to the local connection before the tunnel closes.\<close>

definition pumpServerToLocal :: "AEAD \<Rightarrow> 's net_env \<Rightarrow> Transport \<Rightarrow> nat \<Rightarrow> TunnelConn \<Rightarrow> 's \<Rightarrow> (bytes \<times> TunnelConn \<times> 's) option" where
  "pumpServerToLocal a env t n tc s =
     (case DownloadStream env t (tc_connID tc) s of
        (Inl e, s') \<Rightarrow> Some ([], TunnelConn_Close a env t tc s')
      | (Inr sr, s') \<Rightarrow>
          map_option (\<lambda>(bs, e). (bs, TunnelConn_Close a env t tc s')) (io_Copy (streamReader_Read a) n sr))"

lemma TunnelConn_Close_once:
  "TunnelConn_Close a env t tc s = (tc', s') \<Longrightarrow> TunnelConn_Close a env' t' tc' s'' = (tc', s'')"
  by (auto simp: TunnelConn_Close_def split: if_splits)

lemma pumpLocalToServer_closed:
  "tc_closed tc \<Longrightarrow> pumpLocalToServer a env t n r tc s = (tc, s)"
  by (cases n) simp_all

lemma pumpLocalToServer_honest:
  assumes a: "aead_ok a" "\<forall>k. length (ns k) = NonceSize" "\<forall>d. write_err nw p d = None"
  shows "\<lbrakk>reads r bs EOF; length bs < n; clients s (tc_connID tc) = Some p; p < length (conns s); \<not> rclosed (conns s ! p);
      \<not> tc_closed tc\<rbrakk> \<Longrightarrow>
    \<exists>k'. pumpLocalToServer a (honest a nw ns (baseURL t) ds) t n r tc (s, k) =
      (tc\<lparr>tc_closed := True, local_closed := True\<rparr>, (unregisterClient (tc_connID tc) (remote_Close p (set_conn p ((conns s ! p)\<lparr>rout := rout (conns s ! p) @ bs\<rparr>) s)), k'))"
proof (induction n arbitrary: r bs s k)
  case (Suc n)
  show ?case
  proof (cases "bs = []")
    case True
    then have "Read (32 * 1024) r = (([], Some EOF), r)"
      using Suc.prems(1) by (simp add: Read_end)
    then show ?thesis
      using True CloseConn_honest [OF a(1,2)] Suc.prems handle_close_open [of s "tc_connID tc" p]
      by (simp add: set_conn_def TunnelConn_Close_def)
  next
    case False
    obtain q bs' r' where q: "Read (32 * 1024) r = ((q, None), r')" "q \<noteq> []" "bs = q @ bs'" "reads r' bs' EOF"
      by (rule Read_some [OF Suc.prems(1) False, of "32 * 1024"]) auto
    let ?s = "set_conn p ((conns s ! p)\<lparr>rout := rout (conns s ! p) @ q\<rparr>) s"
    have "SendData a (honest a nw ns (baseURL t) ds) t (tc_connID tc) q (s, k) = (None, (?s, Suc k))"
      using SendData_honest [OF a(1,2)] handle_data_open [of s "tc_connID tc" p nw q] Suc.prems a(3) by simp
    moreover have "length bs' < n"
      using q Suc.prems(2) by (cases q) auto
    ultimately show ?thesis
      using Suc.IH [of r' bs' ?s "Suc k"] Suc.prems q by (simp add: set_conn_def)
  qed
qed simp

subsection \<open>Properties\<close>

text \<open>
  The proxy credentials the program sends are the ones it parses: for every user name without
  a colon and every password, \<^verbatim>\<open>ParseProxyAuth\<close> on the header value the proxy dialers build gives
  them back.
\<close>

theorem proxy_auth_roundtrip:
  assumes "CHR '':'' \<notin> set username"
  shows "ParseProxyAuth (basic_auth username password) = Some (username, password)"
proof -
  have "HasPrefix (basic_auth username password) ''Basic ''"
    unfolding basic_auth_def by (rule HasPrefix_append)
  moreover have "drop 6 (basic_auth username password) = EncodeToString (go_bytes (username @ '':'' @ password))"
    by (simp add: basic_auth_def)
  ultimately show ?thesis
    using assms by (simp add: ParseProxyAuth_def str_simps)
qed

theorem proxy_auth_roundtrip_witness:
  "ParseProxyAuth (basic_auth ''user'' ''p:w'') = Some (''user'', ''p:w'')"
  using proxy_auth_roundtrip [of "''user''" "''p:w''"] by simp

text \<open>
  When the answer to a CONNECT cannot be written, or the download stream cannot be opened, the
  proxy returns without closing what it has opened: on the server the connection to the target
  stays open and registered.
\<close>

theorem lost_answer_leaks_connection:
  assumes "aead_ok a" "\<forall>k. length (ns k) = NonceSize" "length h < 65532" "dial_err nw ''tcp'' (host_port h) = None"
    and "handleHTTPProxy a (honest a nw ns (baseURL t) ds) (Inr (''CONNECT'', h)) (Some e) t (s, k) = Some (r, t', (s', k'))"
  shows "r = AnswerLost (connIDGen t) \<and> getClient (connIDGen t) s' = Some (length (conns s)) \<and>
    \<not> rclosed (conns s' ! length (conns s)) \<and> targetAddr (conns s' ! length (conns s)) = host_port h"
proof -
  have "length (host_port h) < 65536"
    using assms(3) by (simp add: host_port_def)
  then have "Connect a (honest a nw ns (baseURL t) ds) ''tcp'' (host_port h) t (s, k) =
      Some (Inr (connIDGen t), snd (NextConnID t), (opened (connIDGen t) (host_port h) s, Suc k))"
    using Connect_honest [OF assms(1,2), of "''tcp''" "host_port h" nw t ds s k] assms(4) by simp
  then show ?thesis
    using assms(5)
    by (auto simp: handleHTTPProxy_def opened_def registerClient_def getClient_def nth_append new_clientConn_def)
qed

theorem lost_answer_leaks_connection_witness:
  "\<exists>t' s' k'. handleHTTPProxy plain_aead demo_env (Inr (''CONNECT'', ''h'')) (Some EOF) demo_transport (new_server, 0) = Some (AnswerLost 1, t', (s', k')) \<and>
     getClient 1 s' = Some 0 \<and> \<not> rclosed (conns s' ! 0) \<and> targetAddr (conns s' ! 0) = ''h:443''"
proof -
  have n: "\<forall>k :: nat. length (replicate 12 (0 :: byte)) = NonceSize" and l: "length ''h'' < 65532" "length ''tcp'' < 65534" "length (host_port ''h'') < 65536"
    and d: "dial_err reliable ''tcp'' (host_port ''h'') = None"
    by (simp_all add: NonceSize_def reliable_def host_port_def)
  have "Connect plain_aead demo_env ''tcp'' (host_port ''h'') demo_transport (new_server, 0) =
      Some (Inr (connIDGen demo_transport), snd (NextConnID demo_transport), (opened (connIDGen demo_transport) (host_port ''h'') new_server, Suc 0))"
    using Connect_honest [OF plain_aead_ok n l(2,3), of reliable demo_transport _ new_server 0] d
    unfolding demo_env_def by simp
  then have r: "handleHTTPProxy plain_aead demo_env (Inr (''CONNECT'', ''h'')) (Some EOF) demo_transport (new_server, 0) =
      Some (AnswerLost (connIDGen demo_transport), snd (NextConnID demo_transport), (opened (connIDGen demo_transport) (host_port ''h'') new_server, Suc 0))"
    by (simp add: handleHTTPProxy_def)
  show ?thesis
    using lost_answer_leaks_connection [OF plain_aead_ok n l(1) d r [unfolded demo_env_def]] r
    by (auto simp: demo_transport_def new_server_def host_port_def)
qed

end
