(* ===== verification/Dpi_Dns.thy ===== *)
theory Dpi_Dns
  imports Dpi_Proxy
begin

text \<open>
  \<^verbatim>\<open>dpi/client/dns_resolver.go\<close>: names are resolved by DNS queries that travel through the tunnel, with
  a cache in front.  Of the DNS library the model uses what the code reads: the answer section as a
  list of records with their time to live, and \<^verbatim>\<open>Fqdn\<close>, \<^verbatim>\<open>Pack\<close> and \<^verbatim>\<open>Unpack\<close> as functions that are
  arguments.  Times and durations are in nanoseconds, as Go has them.
\<close>

subsection \<open>State\<close>

datatype rr = RR_A u32 bytes | RR_Other u32

fun Ttl :: "rr \<Rightarrow> u32" where
  "Ttl (RR_A ttl ip) = ttl"
| "Ttl (RR_Other ttl) = ttl"

record dnsCacheEntry =
  entry_ip :: bytes
  expires :: nat

record tunneledResolver =
  resolver_network :: string
  upstream :: string
  timeout :: nat
  cache :: "string \<rightharpoonup> dnsCacheEntry"

definition Second :: nat where "Second = 10 ^ 9"

definition newTunneledResolver :: "string \<Rightarrow> string \<Rightarrow> tunneledResolver" where
  "newTunneledResolver nw up =
     \<lparr>resolver_network = (if nw \<noteq> ''tcp'' \<and> nw \<noteq> ''udp'' then ''tcp'' else nw), upstream = up,
      timeout = 10 * Second, cache = Map.empty\<rparr>"

subsection \<open>Cache\<close>

definition cacheLookup :: "string \<Rightarrow> nat \<Rightarrow> tunneledResolver \<Rightarrow> bytes option \<times> tunneledResolver" where
  "cacheLookup name now r =
     (case cache r name of
        None \<Rightarrow> (None, r)
      | Some entry \<Rightarrow>
          if expires entry < now then (None, r\<lparr>cache := (cache r)(name := None)\<rparr>)
          else (Some (entry_ip entry), r))"

definition cache_ttl :: "u32 \<Rightarrow> nat" where
  "cache_ttl ttlSeconds =
     (let ttl = unat ttlSeconds * Second;
          ttl = (if ttl = 0 then 60 * Second else ttl)
      in if 5 * 60 * Second < ttl then 5 * 60 * Second else ttl)"

definition cacheStore :: "string \<Rightarrow> bytes \<Rightarrow> u32 \<Rightarrow> nat \<Rightarrow> tunneledResolver \<Rightarrow> tunneledResolver" where
  "cacheStore name ip ttlSeconds now r =
     r\<lparr>cache := (cache r)(name \<mapsto> \<lparr>entry_ip = ip, expires = now + cache_ttl ttlSeconds\<rparr>)\<rparr>"

primrec min_ttl_loop :: "u32 \<Rightarrow> rr list \<Rightarrow> u32" where
  "min_ttl_loop ttl [] = ttl"
| "min_ttl_loop ttl (x # xs) = min_ttl_loop (if ttl = 0 \<or> Ttl x < ttl then Ttl x else ttl) xs"

definition minTTLSeconds :: "rr list \<Rightarrow> u32 \<Rightarrow> u32" where
  "minTTLSeconds answer fallback =
     (let ttl = min_ttl_loop 0 answer in if ttl = 0 then fallback else ttl)"

subsection \<open>Queries\<close>

text \<open>
  What the select of an exchange sees first: the cancelled context, the goroutine's result, or the
  timeout.
\<close>

datatype race = Cancelled error | Answered_first | Timed_out

definition settle :: "race \<Rightarrow> (error + rr list) \<times> 'c \<Rightarrow> (error + rr list) \<times> 'c" where
  "settle w x =
     (case w of
        Cancelled e \<Rightarrow> (Inl e, snd x)
      | Answered_first \<Rightarrow> x
      | Timed_out \<Rightarrow> (Inl (Errorf ''DNS query timed out''), snd x))"

definition wrap_io :: "string \<Rightarrow> ('c \<Rightarrow> (error + 'a) \<times> 'c) \<Rightarrow> 'c \<Rightarrow> (error + 'a) \<times> 'c" where
  "wrap_io msg m c = (case m c of (Inl e, c') \<Rightarrow> (Inl (Errorf msg), c') | (Inr x, c') \<Rightarrow> (Inr x, c'))"

definition unpack_io :: "(bytes \<Rightarrow> error + rr list) \<Rightarrow> bytes \<Rightarrow> 'c \<Rightarrow> (error + rr list) \<times> 'c" where
  "unpack_io unpack buf c = (case unpack buf of Inl e \<Rightarrow> (Inl (Errorf ''unpack DNS response''), c) | Inr m \<Rightarrow> (Inr m, c))"

definition read_tcp_reply :: "(nat \<Rightarrow> 'c \<Rightarrow> (error + bytes) \<times> 'c) \<Rightarrow> (bytes \<Rightarrow> error + rr list) \<Rightarrow> 'c \<Rightarrow> (error + rr list) \<times> 'c" where
  "read_tcp_reply rd unpack =
     bind_io (wrap_io ''read DNS length'' (rd 2)) (\<lambda>lenBuf.
       let respLen = be16 lenBuf
       in if respLen = 0 then fail_io (Errorf ''empty DNS TCP response'')
          else bind_io (wrap_io ''read DNS response'' (rd (unat respLen))) (unpack_io unpack))"

definition exchangeTCP ::
  "(nat \<Rightarrow> 'c \<Rightarrow> (error + bytes) \<times> 'c) \<Rightarrow> ('c \<Rightarrow> bytes \<Rightarrow> (nat \<times> error option) \<times> 'c) \<Rightarrow>
   (bytes \<Rightarrow> error + rr list) \<Rightarrow> race \<Rightarrow> bytes \<Rightarrow> 'c \<Rightarrow> (error + rr list) \<times> 'c" where
  "exchangeTCP rd wr unpack w query =
     (if 0xffff < length query then fail_io (Errorf ''DNS query too large for TCP'')
      else
        bind_io (wrap_io ''write DNS query'' (put_io wr (put_be16 (of_nat (length query)) @ query))) (\<lambda>_ c.
          settle w (read_tcp_reply rd unpack c)))"

text \<open>Over UDP one \<^verbatim>\<open>Read\<close> is the reply; \<open>rd1\<close> is that read, with the buffer of \<^verbatim>\<open>dns.MaxMsgSize\<close> bytes.\<close>

definition MaxMsgSize :: nat where "MaxMsgSize = 65535"

definition exchangeUDP ::
  "(nat \<Rightarrow> 'c \<Rightarrow> (error + bytes) \<times> 'c) \<Rightarrow> ('c \<Rightarrow> bytes \<Rightarrow> (nat \<times> error option) \<times> 'c) \<Rightarrow>
   (bytes \<Rightarrow> error + rr list) \<Rightarrow> race \<Rightarrow> bytes \<Rightarrow> 'c \<Rightarrow> (error + rr list) \<times> 'c" where
  "exchangeUDP rd1 wr unpack w query =
     bind_io (wrap_io ''write DNS query'' (put_io wr query)) (\<lambda>_ c.
       settle w (bind_io (wrap_io ''read DNS response'' (rd1 MaxMsgSize)) (unpack_io unpack) c))"

text \<open>
  \<open>remaining\<close> is the time left until the deadline of the context, when it has one; \<open>talk\<close> is the
  conversation on the tunnel connection that \<^verbatim>\<open>newTunnelConn\<close> returns.
\<close>

definition exchange_timeout :: "int option \<Rightarrow> tunneledResolver \<Rightarrow> tunneledResolver" where
  "exchange_timeout remaining r =
     (case remaining of
        None \<Rightarrow> r
      | Some d \<Rightarrow> if 0 < d \<and> d < int (timeout r) then r\<lparr>timeout := nat d\<rparr> else r)"

definition exchange ::
  "AEAD \<Rightarrow> 's net_env \<Rightarrow> (string \<Rightarrow> u32 \<Rightarrow> streamReader \<Rightarrow> bytes \<Rightarrow> 's \<Rightarrow> (error + rr list) \<times> 's) \<Rightarrow>
   error + bytes \<Rightarrow> int option \<Rightarrow> tunneledResolver \<Rightarrow> Transport \<Rightarrow> 's \<Rightarrow> ((error + rr list) \<times> tunneledResolver \<times> Transport \<times> 's) option" where
  "exchange a env talk packed remaining r0 t s =
     (let r = exchange_timeout remaining r0
      in case Connect a env (resolver_network r) (upstream r) t s of
           None \<Rightarrow> None
         | Some (Inl e, t', s') \<Rightarrow> Some (Inl (Errorf (''tunnel connect to '' @ upstream r)), r, t', s')
         | Some (Inr i, t', s') \<Rightarrow>
             (case DownloadStream env t' i s' of
                (Inl e, s'') \<Rightarrow> Some (Inl (Errorf ''tunnel stream''), r, t', snd (CloseConn a env t' i s''))
              | (Inr sr, s'') \<Rightarrow>
                  (case packed of
                     Inl e \<Rightarrow> Some (Inl (Errorf ''pack DNS query''), r, t', snd (CloseConn a env t' i s''))
                   | Inr query \<Rightarrow>
                       (case talk (resolver_network r) i sr query s'' of
                          (res, s3) \<Rightarrow> Some (res, r, t', snd (CloseConn a env t' i s3))))))"

subsection \<open>Resolving\<close>

definition cacheKey :: "(string \<Rightarrow> string) \<Rightarrow> (string \<Rightarrow> string) \<Rightarrow> string \<Rightarrow> string" where
  "cacheKey unicode Fqdn name = ToLower unicode (TrimSuffix (Fqdn name) ''.'')"

fun first_A :: "rr list \<Rightarrow> bytes option" where
  "first_A [] = None"
| "first_A (RR_A ttl ip # xs) = Some ip"
| "first_A (RR_Other ttl # xs) = first_A xs"

text \<open>
  \<open>ask\<close> is \<^verbatim>\<open>exchange\<close> for the question of this name; \<open>now1\<close> and \<open>now2\<close> are the clock at the lookup and
  at the store.
\<close>

definition Resolve ::
  "(string \<Rightarrow> string) \<Rightarrow> (string \<Rightarrow> string) \<Rightarrow> (string \<Rightarrow> tunneledResolver \<Rightarrow> 'w \<Rightarrow> ((error + rr list) \<times> tunneledResolver \<times> 'w) option) \<Rightarrow>
   nat \<Rightarrow> nat \<Rightarrow> string \<Rightarrow> tunneledResolver \<Rightarrow> 'w \<Rightarrow> ((error + bytes) \<times> tunneledResolver \<times> 'w) option" where
  "Resolve unicode Fqdn ask now1 now2 name r w =
     (case cacheLookup (cacheKey unicode Fqdn name) now1 r of
        (Some ip, r1) \<Rightarrow> Some (Inr ip, r1, w)
      | (None, r1) \<Rightarrow>
          (case ask (Fqdn name) r1 w of
             None \<Rightarrow> None
           | Some (Inl e, r2, w') \<Rightarrow> Some (Inl e, r2, w')
           | Some (Inr answer, r2, w') \<Rightarrow>
               (case first_A answer of
                  None \<Rightarrow> Some (Inl (Errorf (''no A record found for '' @ name)), r2, w')
                | Some ip \<Rightarrow>
                    Some (Inr ip, cacheStore (cacheKey unicode Fqdn name) ip (minTTLSeconds answer 60) now2 r2, w'))))"

subsection \<open>Dialling\<close>

definition tunnelNetwork :: "string \<Rightarrow> error + string" where
  "tunnelNetwork nw =
     (if nw \<in> {''tcp'', ''tcp4'', ''tcp6''} then Inr ''tcp''
      else if nw \<in> {''udp'', ''udp4'', ''udp6''} then Inr ''udp''
      else Inl (Errorf (''tunneled dial: unsupported network '' @ nw)))"

definition tunnelDialContext :: "AEAD \<Rightarrow> 's net_env \<Rightarrow> string \<Rightarrow> string \<Rightarrow> Transport \<Rightarrow> 's \<Rightarrow> ((error + u32 \<times> streamReader) \<times> Transport \<times> 's) option" where
  "tunnelDialContext a env nw addr t s =
     (case tunnelNetwork nw of
        Inl e \<Rightarrow> Some (Inl e, t, s)
      | Inr tunnelNet \<Rightarrow>
          (case Connect a env tunnelNet addr t s of
             None \<Rightarrow> None
           | Some (Inl e, t', s') \<Rightarrow> Some (Inl e, t', s')
           | Some (Inr i, t', s') \<Rightarrow>
               (case DownloadStream env t' i s' of
                  (Inl e, s'') \<Rightarrow> Some (Inl e, t', s'')
                | (Inr sr, s'') \<Rightarrow> Some (Inr (i, sr), t', s''))))"

subsection \<open>Lemmas\<close>

lemma cache_ttl_bounds: "Second \<le> cache_ttl ttl" "cache_ttl ttl \<le> 300 * Second"
proof -
  have "Second \<le> n * Second" if "n \<noteq> 0" for n
    using that by simp
  then show "Second \<le> cache_ttl ttl" "cache_ttl ttl \<le> 300 * Second"
    by (auto simp: cache_ttl_def Let_def Second_def)
qed

lemma min_ttl_positive:
  assumes "\<forall>x\<in>set xs. Ttl x \<noteq> 0" "ttl \<noteq> 0"
  shows "min_ttl_loop ttl xs \<noteq> 0 \<and> (\<forall>y\<in>insert ttl (Ttl ` set xs). min_ttl_loop ttl xs \<le> y) \<and>
     min_ttl_loop ttl xs \<in> insert ttl (Ttl ` set xs)"
  using assms
proof (induction xs arbitrary: ttl)
  case (Cons x xs)
  define t where "t = (if ttl = 0 \<or> Ttl x < ttl then Ttl x else ttl)"
  have t: "t \<noteq> 0" "t \<le> ttl" "t \<le> Ttl x" "t = ttl \<or> t = Ttl x"
    using Cons.prems by (auto simp: t_def)
  have "min_ttl_loop t xs \<noteq> 0 \<and> (\<forall>y\<in>insert t (Ttl ` set xs). min_ttl_loop t xs \<le> y) \<and>
     min_ttl_loop t xs \<in> insert t (Ttl ` set xs)"
    using Cons.IH [OF _ t(1)] Cons.prems(1) by simp
  moreover from this have "min_ttl_loop t xs \<le> ttl" "min_ttl_loop t xs \<le> Ttl x"
    using t(2,3) order_trans by blast+
  ultimately show ?case
    using t(4) by (auto simp flip: t_def)
qed simp

lemma minTTLSeconds_min:
  assumes "xs \<noteq> []" "\<forall>x\<in>set xs. Ttl x \<noteq> 0"
  shows "minTTLSeconds xs fallback = Min (Ttl ` set xs)"
proof -
  obtain y ys where xs: "xs = y # ys"
    using assms(1) by (cases xs) auto
  have "min_ttl_loop 0 xs = min_ttl_loop (Ttl y) ys"
    by (simp add: xs)
  then have "min_ttl_loop 0 xs \<noteq> 0 \<and> (\<forall>z\<in>Ttl ` set xs. min_ttl_loop 0 xs \<le> z) \<and> min_ttl_loop 0 xs \<in> Ttl ` set xs"
    using min_ttl_positive [of ys "Ttl y"] assms(2) by (simp add: xs)
  then have "min_ttl_loop 0 xs \<noteq> 0" "min_ttl_loop 0 xs = Min (Ttl ` set xs)"
    by (auto intro!: Min_eqI [symmetric])
  then show ?thesis
    by (simp add: minTTLSeconds_def)
qed

lemma minTTLSeconds_zero_last: "minTTLSeconds (xs @ [RR_A 0 ip]) fallback = fallback"
proof -
  have "min_ttl_loop ttl (xs @ [RR_A 0 ip]) = 0" for ttl
    by (induction xs arbitrary: ttl) (auto simp: word_gt_0)
  then show ?thesis
    by (simp add: minTTLSeconds_def)
qed

lemma exchange_timeout_le: "timeout (exchange_timeout d r) \<le> timeout r"
  by (auto simp: exchange_timeout_def split: option.splits)

lemma exchange_keeps_timeout:
  "exchange a env talk packed d r t s = Some (res, r', x) \<Longrightarrow> timeout r' \<le> timeout r \<and> cache r' = cache r"
  by (auto simp: exchange_def exchange_timeout_def Let_def split: option.splits sum.splits prod.splits if_splits)

lemma wrap_io_wire [simp]:
  "m c = (Inr x, c') \<Longrightarrow> wrap_io msg m c = (Inr x, c')"
  "m c = (Inl e, c') \<Longrightarrow> wrap_io msg m c = (Inl (Errorf msg), c')"
  by (simp_all add: wrap_io_def)

lemma read_tcp_reply_wire:
  assumes "resp \<noteq> []" "length resp < 65536"
  shows "read_tcp_reply wire_read unpack (w\<lparr>ahead := put_be16 (of_nat (length resp)) @ resp @ rest\<rparr>) =
    (case unpack resp of Inl e \<Rightarrow> Inl (Errorf ''unpack DNS response'') | Inr m \<Rightarrow> Inr m, w\<lparr>ahead := rest\<rparr>)"
proof -
  have n: "unat (of_nat (length resp) :: u16) = length resp"
    using assms(2) by (simp add: unat_of_nat)
  then have nz: "(of_nat (length resp) :: u16) \<noteq> 0"
    using assms(1) by (metis length_0_conv unsigned_0)
  have "wire_read 2 (w\<lparr>ahead := put_be16 (of_nat (length resp)) @ resp @ rest\<rparr>) =
      (Inr (put_be16 (of_nat (length resp))), w\<lparr>ahead := resp @ rest\<rparr>)"
    "wire_read (length resp) (w\<lparr>ahead := resp @ rest\<rparr>) = (Inr resp, w\<lparr>ahead := rest\<rparr>)"
    by (simp_all add: wire_read_def)
  then show ?thesis
    using n nz by (simp add: read_tcp_reply_def be_simps unpack_io_def split: sum.splits)
qed

text \<open>
  An entry just stored: a lookup up to its expiry returns it, and one after it removes it and misses.
\<close>

lemma cacheLookup_stored:
  "now \<le> now2 + cache_ttl ttl \<Longrightarrow> cacheLookup k now (cacheStore k ip ttl now2 r) = (Some ip, cacheStore k ip ttl now2 r)"
  "now2 + cache_ttl ttl < now \<Longrightarrow>
     cacheLookup k now (cacheStore k ip ttl now2 r) = (None, (cacheStore k ip ttl now2 r)\<lparr>cache := (cache (cacheStore k ip ttl now2 r))(k := None)\<rparr>)"
  by (simp_all add: cacheLookup_def cacheStore_def)

lemma lifetime:
  assumes "first_A answer = Some ip" "\<forall>x\<in>set answer. Ttl x \<noteq> 0"
  shows "cache_ttl (minTTLSeconds answer 60) = min (unat (Min (Ttl ` set answer)) * Second) (300 * Second)"
proof -
  have "answer \<noteq> []"
    using assms(1) by auto
  then have "Min (Ttl ` set answer) \<in> Ttl ` set answer" and m: "minTTLSeconds answer 60 = Min (Ttl ` set answer)"
    using assms(2) by (simp_all add: minTTLSeconds_min)
  then have "unat (minTTLSeconds answer 60) \<noteq> 0"
    using assms(2) by (auto simp: unat_eq_0)
  then show ?thesis
    using m by (simp add: cache_ttl_def Let_def Second_def)
qed

subsection \<open>Properties\<close>



text \<open>
  A DNS exchange over TCP sends the query with its two-byte length in front and nothing else,
  reads exactly one reply, the bytes its length announces, and leaves the rest on the connection.
  A reply of length zero and a query over 65535 bytes are errors; in the latter case nothing is
  sent.
\<close>

theorem dns_tcp_exchange:
  assumes "length resp < 65536"
  shows "exchangeTCP wire_read wire_write unpack Answered_first query \<lparr>ahead = put_be16 (of_nat (length resp)) @ resp @ rest, final = e, said = out\<rparr> =
    (if 65535 < length query then
       (Inl (Errorf ''DNS query too large for TCP''), \<lparr>ahead = put_be16 (of_nat (length resp)) @ resp @ rest, final = e, said = out\<rparr>)
     else
       (if resp = [] then Inl (Errorf ''empty DNS TCP response'')
        else case unpack resp of Inl _ \<Rightarrow> Inl (Errorf ''unpack DNS response'') | Inr m \<Rightarrow> Inr m,
        \<lparr>ahead = rest, final = e, said = out @ put_be16 (of_nat (length query)) @ query\<rparr>))"
proof -
  let ?w = "\<lparr>ahead = put_be16 (of_nat (length resp)) @ resp @ rest, final = e, said = out @ put_be16 (of_nat (length query)) @ query\<rparr>"
  have "read_tcp_reply wire_read unpack ?w =
      (if resp = [] then Inl (Errorf ''empty DNS TCP response'')
        else case unpack resp of Inl _ \<Rightarrow> Inl (Errorf ''unpack DNS response'') | Inr m \<Rightarrow> Inr m, ?w\<lparr>ahead := rest\<rparr>)"
  proof (cases "resp = []")
    case True
    then show ?thesis
      by (simp add: read_tcp_reply_def be_simps)
  next
    case False
    then show ?thesis
      using read_tcp_reply_wire [OF False assms, where unpack = unpack and w = ?w and rest = rest] by simp
  qed
  then show ?thesis
    by (simp add: exchangeTCP_def settle_def)
qed

theorem dns_tcp_exchange_witness:
  "exchangeTCP wire_read wire_write (\<lambda>b. Inr [RR_A 5 b]) Answered_first [9, 9] \<lparr>ahead = [0, 4, 1, 2, 3, 4, 5], final = EOF, said = []\<rparr> =
     (Inr [RR_A 5 [1, 2, 3, 4]], \<lparr>ahead = [5], final = EOF, said = [0, 2, 9, 9]\<rparr>)"
  using dns_tcp_exchange [of "[1, 2, 3, 4]" "\<lambda>b. Inr [RR_A 5 b]" "[9, 9]" "[5]" EOF "[]"] by (simp add: put_be16_def)

end
