(* ===== verification/Launch.thy ===== *)
theory Launch
  imports Obfs Dpi_Dns Snowflake_Session
begin

text \<open>
  The program's entry points: \<^verbatim>\<open>main/ptbridge.go\<close>, \<^verbatim>\<open>main/dpi.go\<close> and the launchers of
  \<^verbatim>\<open>main/snowflake.go\<close>.  A launcher's result says whether it reported success and what it started;
  listening, resolving and the third-party constructors are outcomes given as arguments.
\<close>

subsection \<open>DPI\<close>

definition dpiOrDefault :: "string \<Rightarrow> string \<Rightarrow> string" where
  "dpiOrDefault v fallback = (if TrimSpace v = [] then fallback else v)"

definition dpiDefaultEncKey :: string where "dpiDefaultEncKey = ''default-encryption-key-change-me''"
definition dpiDefaultProtocol :: string where "dpiDefaultProtocol = ''auto''"
definition dpiDefaultSocksAddr :: string where "dpiDefaultSocksAddr = ''127.0.0.1:1080''"
definition dpiDefaultDnsUpstream :: string where "dpiDefaultDnsUpstream = ''1.1.1.1:53''"
definition dpiDefaultDnsNetwork :: string where "dpiDefaultDnsNetwork = ''tcp''"

definition dpi_server_config :: "JsonServerConfigImpl \<Rightarrow> Config" where
  "dpi_server_config c =
     \<lparr>HTTPAddr = sHttpAddr c, HTTPSAddr = sHttpsAddr c, TLSCertFile = sTlsCertFile c, TLSKeyFile = sTlsKeyFile c,
      ACMEEmail = sAcmeEmail c, ACMEDomain = sAcmeDomain c, SelfSigned = sSelfSigned c, RedirectURL = sRedirect c,
      EncryptionKey = go_bytes (dpiOrDefault (sEncKey c) dpiDefaultEncKey), CertDir = sCertDir c,
      Protocol = dpiOrDefault (sProtocol c) dpiDefaultProtocol\<rparr>"

definition launchDpiServer ::
  "error option \<Rightarrow> (string \<Rightarrow> error option) \<Rightarrow> (Config \<Rightarrow> error + tls_config) \<Rightarrow> JsonServerConfigImpl \<Rightarrow> bool \<times> listener list" where
  "launchDpiServer init listen build c =
     (let cfg = dpi_server_config c
      in if HTTPAddr cfg = [] \<and> HTTPSAddr cfg = [] then (False, [])
         else if HTTPSAddr cfg \<noteq> [] \<and> \<not> SelfSigned cfg \<and> ACMEEmail cfg = [] \<and> TLSCertFile cfg = [] then (False, [])
         else if init \<noteq> None then (False, [])
         else
           (case Run listen (build cfg) cfg of
              (Some e, ls) \<Rightarrow> (False, ls)
            | (None, ls) \<Rightarrow> (True, ls)))"

text \<open>The text of an address, as four numbers when it is an IPv4 address.\<close>

definition ip_text :: "bytes \<Rightarrow> string" where
  "ip_text ip = (case To4 ip of Some v4 \<Rightarrow> IP_String v4 | None \<Rightarrow> IP_String ip)"

definition resolveServerIP :: "(string \<Rightarrow> error + bytes list) \<Rightarrow> string \<Rightarrow> error + string" where
  "resolveServerIP lookup h =
     (if h = [] then Inl (Errorf ''server URL has no hostname'')
      else
        (case ParseIP h of
           Some ip \<Rightarrow> Inr (ip_text ip)
         | None \<Rightarrow>
             (case lookup h of
                Inl e \<Rightarrow> Inl (Errorf ''lookup'')
              | Inr ips \<Rightarrow>
                  if ips = [] then Inl (Errorf ''lookup: no addresses'')
                  else
                    (case find (\<lambda>ip. To4 ip \<noteq> None) ips of
                       Some ip \<Rightarrow> Inr (ip_text ip)
                     | None \<Rightarrow> Inr (IP_String (hd ips))))))"

text \<open>The address the client dials: the configured front IP, or what the server's name resolves to.\<close>

definition dial_ip :: "(string \<Rightarrow> error + bytes list) \<Rightarrow> URL \<Rightarrow> JsonClientConfigImpl \<Rightarrow> error + string" where
  "dial_ip lookup u c =
     (let frontIP = TrimSpace (cFrontIP c)
      in if frontIP = [] then resolveServerIP lookup (Hostname u)
         else (case ParseIP frontIP of None \<Rightarrow> Inl (Errorf ''invalid front-ip'') | Some ip \<Rightarrow> Inr (ip_text ip)))"

record dpi_client =
  dc_transport :: Transport
  dc_serverName :: string
  dc_insecure :: bool
  dc_followRedirects :: bool
  dc_socksAddr :: string
  dc_httpAddr :: string
  dc_dnsUpstream :: string
  dc_dnsNetwork :: string

definition dpi_client_of :: "URL \<Rightarrow> Transport \<Rightarrow> JsonClientConfigImpl \<Rightarrow> dpi_client" where
  "dpi_client_of u tr c =
     \<lparr>dc_transport = tr, dc_serverName = (if cSni c = [] then Hostname u else cSni c), dc_insecure = cInsecure c,
      dc_followRedirects = (case cFollowRedirect c of None \<Rightarrow> True | Some b \<Rightarrow> b),
      dc_socksAddr = (if cListen c = [] \<and> cHttpProxyAddr c = [] then dpiDefaultSocksAddr else cListen c),
      dc_httpAddr = cHttpProxyAddr c,
      dc_dnsUpstream = dpiOrDefault (cDnsUpstream c) dpiDefaultDnsUpstream,
      dc_dnsNetwork = dpiOrDefault (cDnsNetwork c) dpiDefaultDnsNetwork\<rparr>"

definition launchDpiClient ::
  "(string \<Rightarrow> error + URL) \<Rightarrow> (string \<Rightarrow> error + bytes list) \<Rightarrow> error option \<Rightarrow> (string \<Rightarrow> error option) \<Rightarrow>
   JsonClientConfigImpl \<Rightarrow> dpi_client option" where
  "launchDpiClient url_Parse lookup enc listen c =
     (if TrimSpace (cAddress c) = [] then None
      else
        (case url_Parse (cAddress c) of
           Inl e \<Rightarrow> None
         | Inr u \<Rightarrow>
             (case dial_ip lookup u c of
                Inl e \<Rightarrow> None
              | Inr dialIP \<Rightarrow>
                  if enc \<noteq> None then None
                  else
                    (case NewTransport (url_Parse (cAddress c)) (cAddress c) (cFrontHost c) dialIP
                            (dpiOrDefault (cProtocol c) dpiDefaultProtocol) of
                       Inl e \<Rightarrow> None
                     | Inr tr \<Rightarrow>
                         (let d = dpi_client_of u tr c
                          in case run_proxy listen (dc_socksAddr d) (dc_httpAddr d) of
                               (Some e, ls) \<Rightarrow> None
                             | (None, ls) \<Rightarrow> Some d)))))"

subsection \<open>Snowflake\<close>

definition snowflakeDefaultWsListen :: string where "snowflakeDefaultWsListen = ''0.0.0.0:8080''"
definition snowflakeDefaultSocks :: string where "snowflakeDefaultSocks = ''127.0.0.1:0''"

record snow_server =
  ss_wsAddr :: string
  ss_ServerSocksAddr :: string
  ss_tls :: bool

definition launchSnowflakeServer ::
  "(string \<Rightarrow> error option) \<Rightarrow> error option \<Rightarrow> (string \<Rightarrow> error + string) \<Rightarrow> JsonServerConfigImpl \<Rightarrow> snow_server option" where
  "launchSnowflakeServer ResolveTCPAddr newServer listen c =
     (let wsAddr = dpiOrDefault (sListen c) snowflakeDefaultWsListen
      in if ResolveTCPAddr wsAddr \<noteq> None then None
         else if newServer \<noteq> None then None
         else
           (case listen (dpiOrDefault (sSocksBind c) snowflakeDefaultSocks) of
              Inl e \<Rightarrow> None
            | Inr addr \<Rightarrow>
                Some \<lparr>ss_wsAddr = wsAddr, ss_ServerSocksAddr = addr, ss_tls = (sTlsCertFile c \<noteq> [] \<and> sTlsKeyFile c \<noteq> [])\<rparr>))"

text \<open>The TLS settings of the WebSocket dialer, after the overrides of the launcher.\<close>

definition snow_dialer :: "dial_way \<Rightarrow> JsonClientConfigImpl \<Rightarrow> ws_dialer" where
  "snow_dialer dial c =
     (let wsDialer = WebSocketDialer dial (cInsecure c);
          serverName = (if cSni c = [] then cFrontHost c else cSni c)
      in if serverName \<noteq> [] \<or> cInsecure c then
           (let tls = (case TLSClientConfig wsDialer of
                         None \<Rightarrow> \<lparr>tls_ServerName = [], tls_InsecureSkipVerify = False\<rparr> | Some t \<Rightarrow> t);
                tls1 = (if serverName \<noteq> [] then tls\<lparr>tls_ServerName := serverName\<rparr> else tls);
                tls2 = (if cInsecure c then tls1\<lparr>tls_InsecureSkipVerify := True\<rparr> else tls1)
            in wsDialer\<lparr>TLSClientConfig := Some tls2\<rparr>)
         else wsDialer)"

record snow_client =
  sc_dialer :: ws_dialer
  sc_hostHeader :: "string option"
  sc_socks :: string
  sc_forward :: "string option"

definition launchSnowflakeClient ::
  "(string \<Rightarrow> dial_way) \<Rightarrow> error option \<Rightarrow> error option \<Rightarrow> (string \<Rightarrow> error + string) \<Rightarrow> JsonClientConfigImpl \<Rightarrow> snow_client option" where
  "launchSnowflakeClient dialer kcp smux listen c =
     (if cAddress c = [] then None
      else
        (case NewClientSession kcp smux of
           (Inl e, cl) \<Rightarrow> None
         | (Inr closers, cl) \<Rightarrow>
             (case fst (ServeLocalSOCKS (listen (dpiOrDefault (cListen c) snowflakeDefaultSocks)) ([] :: (error + unit) list)) of
                Inl e \<Rightarrow> None
              | Inr socksAddr \<Rightarrow>
                  (let started = (\<lambda>forward. \<lparr>sc_dialer = snow_dialer (dialer (cProxy c)) c,
                         sc_hostHeader = (if cFrontHost c \<noteq> [] then Some (cFrontHost c) else None),
                         sc_socks = socksAddr, sc_forward = forward\<rparr>)
                   in if cForwardBind c \<noteq> [] then
                        (case fst (ServeTunnelForward (listen (cForwardBind c)) ([] :: (error + unit) list)) of
                           Inl e \<Rightarrow> None
                         | Inr forwardAddr \<Rightarrow> Some (started (Some forwardAddr)))
                      else Some (started None)))))"

subsection \<open>Certificates\<close>

text \<open>The loop over the entries; \<open>gen i\<close> is \<^verbatim>\<open>GenerateIdentity\<close> for the \<open>i\<close>-th one.\<close>

primrec fill_certs ::
  "(nat \<Rightarrow> error + string \<times> string) \<Rightarrow> JsonServerConfigImpl list \<Rightarrow> nat \<Rightarrow> (JsonServerConfigImpl list \<times> bool) outcome" where
  "fill_certs gen [] i = Proceed ([], False)"
| "fill_certs gen (s # ss) i =
     (if sType s \<noteq> ''obfs4'' \<or> sCert s \<noteq> [] then
        (case fill_certs gen ss (Suc i) of
           Fatal m \<Rightarrow> Fatal m
         | Proceed (ss', dirty) \<Rightarrow> Proceed (s # ss', dirty))
      else
        (case gen i of
           Inl e \<Rightarrow> Fatal ''Failed to generate obfs4 certificate''
         | Inr (cert, privateKey) \<Rightarrow>
             (case fill_certs gen ss (Suc i) of
                Fatal m \<Rightarrow> Fatal m
              | Proceed (ss', dirty) \<Rightarrow> Proceed (s\<lparr>sCert := cert, sPrivateKey := privateKey\<rparr> # ss', True))))"

definition ensureServerCerts ::
  "(nat \<Rightarrow> error + string \<times> string) \<Rightarrow> (JsonConfigImpl \<Rightarrow> error + bytes) \<Rightarrow> (string \<Rightarrow> error option) \<Rightarrow>
   string \<Rightarrow> JsonConfigImpl \<Rightarrow> files \<Rightarrow> (JsonConfigImpl \<times> files) outcome" where
  "ensureServerCerts gen marshal writeErr configPath config fs =
     (case fill_certs gen (cfgServer config) 0 of
        Fatal m \<Rightarrow> Fatal m
      | Proceed (ss, dirty) \<Rightarrow>
          (let config' = config\<lparr>cfgServer := ss\<rparr>
           in if dirty then
                (case Save marshal writeErr configPath config' fs of
                   (Some e, fs') \<Rightarrow> Fatal ''Failed to save generated certificates''
                 | (None, fs') \<Rightarrow> Proceed (config', fs'))
              else Proceed (config', fs)))"

subsection \<open>The main loop\<close>

definition buildTag :: "string \<Rightarrow> string \<Rightarrow> nat \<Rightarrow> string \<times> nat" where
  "buildTag transportType listen noTagCounter =
     (case SplitHostPort listen of
        Inr (h, port) \<Rightarrow> (transportType @ ''-'' @ port, noTagCounter)
      | Inl e \<Rightarrow> (transportType @ ''-'' @ Itoa (Suc noTagCounter), Suc noTagCounter))"

definition runInternalSocks :: "(string \<Rightarrow> bool) \<Rightarrow> (nat \<Rightarrow> nat) \<Rightarrow> string option" where
  "runInternalSocks reachable rnd = map_option (\<lambda>port. ''127.0.0.1:'' @ port) (pick_port reachable rnd 0)"

text \<open>
  The surroundings of the launchers: the outcomes of listening (as an error or, where the code asks
  for it, with the bound address), of building TLS settings, of resolving and parsing, of the
  third-party constructors, and the random draws for the internal SOCKS port.  The loops have such
  surroundings for every entry, \<open>env i\<close> for the \<open>i\<close>-th one launched, since ports, random numbers and
  seeds are different each time.
\<close>

record main_env =
  me_obfs :: obfs_env
  me_listen :: "string \<Rightarrow> error option"
  me_bound :: "string \<Rightarrow> error + string"
  me_tls :: "Config \<Rightarrow> error + tls_config"
  me_encryptor :: "error option"
  me_urlParse :: "string \<Rightarrow> error + URL"
  me_lookup :: "string \<Rightarrow> error + bytes list"
  me_resolveTCP :: "string \<Rightarrow> error option"
  me_kcpServer :: "error option"
  me_kcp :: "error option"
  me_smux :: "error option"
  me_proxyDialer :: "string \<Rightarrow> dial_way"
  me_socksDraws :: "nat \<Rightarrow> nat"

definition start_dpi_server :: "main_env \<Rightarrow> JsonServerConfigImpl \<Rightarrow> bool" where
  "start_dpi_server env c = fst (launchDpiServer (me_encryptor env) (me_listen env) (me_tls env) c)"

definition start_snow_server :: "main_env \<Rightarrow> JsonServerConfigImpl \<Rightarrow> bool" where
  "start_snow_server env c = (launchSnowflakeServer (me_resolveTCP env) (me_kcpServer env) (me_bound env) c \<noteq> None)"

definition start_dpi_client :: "main_env \<Rightarrow> JsonClientConfigImpl \<Rightarrow> bool" where
  "start_dpi_client env c =
     (launchDpiClient (me_urlParse env) (me_lookup env) (me_encryptor env) (me_listen env) c \<noteq> None)"

definition start_snow_client :: "main_env \<Rightarrow> JsonClientConfigImpl \<Rightarrow> bool" where
  "start_snow_client env c =
     (launchSnowflakeClient (me_proxyDialer env) (me_kcp env) (me_smux env) (me_bound env) c \<noteq> None)"

datatype launch =
    DpiServerLaunch string bool
  | SnowServerLaunch string bool
  | ObfsServerLaunch string ServerInfo "error option"
  | DpiClientLaunch string bool
  | SnowClientLaunch string bool
  | ObfsClientLaunch string "obfs_loop list"

record main_state =
  noTagCounter :: nat
  internalSocksAddress :: string
  launches :: "launch list"

text \<open>The address of the internal SOCKS server and the entry with its service address filled in.\<close>

definition with_service :: "main_env \<Rightarrow> string \<Rightarrow> JsonServerConfigImpl \<Rightarrow> (string \<times> JsonServerConfigImpl) option" where
  "with_service env internal c =
     (if sUseExternalService c then Some (internal, c)
      else
        map_option (\<lambda>a. (a, c\<lparr>sExternalServiceAddress := a\<rparr>))
          (if internal = [] then runInternalSocks (dialable (me_obfs env)) (me_socksDraws env) else Some internal))"

text \<open>The body of the loop over the server entries, and the loop.\<close>

definition server_entry :: "main_env \<Rightarrow> JsonServerConfigImpl \<Rightarrow> main_state \<Rightarrow> main_state outcome option" where
  "server_entry env c m =
     (case buildTag (sType c) (sListen c) (noTagCounter m) of
        (tag, n) \<Rightarrow>
          if sType c = ''dpi'' then
            Some (Proceed (m\<lparr>noTagCounter := n, launches := launches m @ [DpiServerLaunch tag (start_dpi_server env c)]\<rparr>))
          else if sType c = ''snowflake'' then
            Some (Proceed (m\<lparr>noTagCounter := n, launches := launches m @ [SnowServerLaunch tag (start_snow_server env c)]\<rparr>))
          else
            (case with_service env (internalSocksAddress m) c of
               None \<Rightarrow> None
             | Some (a, c') \<Rightarrow>
                 (case server_Setup (me_obfs env) c' of
                    Fatal e \<Rightarrow> Some (Fatal e)
                  | Proceed (info, lerr) \<Rightarrow>
                      Some (Proceed
                        \<lparr>noTagCounter = n, internalSocksAddress = a, launches = launches m @ [ObfsServerLaunch tag info lerr]\<rparr>))))"

primrec main_servers :: "(nat \<Rightarrow> main_env) \<Rightarrow> JsonServerConfigImpl list \<Rightarrow> main_state \<Rightarrow> main_state outcome option" where
  "main_servers env [] m = Some (Proceed m)"
| "main_servers env (c # cs) m =
     (case server_entry (env (length (launches m))) c m of
        None \<Rightarrow> None
      | Some (Fatal e) \<Rightarrow> Some (Fatal e)
      | Some (Proceed m') \<Rightarrow> main_servers env cs m')"

text \<open>The same for the client entries.\<close>

definition client_entry :: "main_env \<Rightarrow> JsonClientConfigImpl \<Rightarrow> main_state \<Rightarrow> main_state outcome option" where
  "client_entry env c m =
     (case buildTag (cType c) (cListen c) (noTagCounter m) of
        (tag, n) \<Rightarrow>
          if cType c = ''dpi'' then
            Some (Proceed (m\<lparr>noTagCounter := n, launches := launches m @ [DpiClientLaunch tag (start_dpi_client env c)]\<rparr>))
          else if cType c = ''snowflake'' then
            Some (Proceed (m\<lparr>noTagCounter := n, launches := launches m @ [SnowClientLaunch tag (start_snow_client env c)]\<rparr>))
          else
            (case client_Setup (me_obfs env) c of
               None \<Rightarrow> None
             | Some (Fatal e) \<Rightarrow> Some (Fatal e)
             | Some (Proceed loops) \<Rightarrow>
                 Some (Proceed (m\<lparr>noTagCounter := n, launches := launches m @ [ObfsClientLaunch tag loops]\<rparr>))))"

primrec main_clients :: "(nat \<Rightarrow> main_env) \<Rightarrow> JsonClientConfigImpl list \<Rightarrow> main_state \<Rightarrow> main_state outcome option" where
  "main_clients env [] m = Some (Proceed m)"
| "main_clients env (c # cs) m =
     (case client_entry (env (length (launches m))) c m of
        None \<Rightarrow> None
      | Some (Fatal e) \<Rightarrow> Some (Fatal e)
      | Some (Proceed m') \<Rightarrow> main_clients env cs m')"

definition main_start :: main_state where
  "main_start = \<lparr>noTagCounter = 0, internalSocksAddress = [], launches = []\<rparr>"

text \<open>\<^verbatim>\<open>main\<close> after the flags, up to the terminal monitor.\<close>

definition main ::
  "(bytes \<Rightarrow> error + JsonConfigImpl) \<Rightarrow> (nat \<Rightarrow> error + string \<times> string) \<Rightarrow> (JsonConfigImpl \<Rightarrow> error + bytes) \<Rightarrow>
   (string \<Rightarrow> error option) \<Rightarrow> error option \<Rightarrow> (nat \<Rightarrow> main_env) \<Rightarrow> string \<Rightarrow> files \<Rightarrow> (main_state \<times> files) outcome option" where
  "main unmarshal gen marshal writeErr initTransports env configPath fs =
     (case Load unmarshal configPath fs of
        Fatal m \<Rightarrow> Some (Fatal m)
      | Proceed config \<Rightarrow>
          (case ensureServerCerts gen marshal writeErr configPath config fs of
             Fatal m \<Rightarrow> Some (Fatal m)
           | Proceed (config', fs') \<Rightarrow>
               if initTransports \<noteq> None then Some (Fatal ''failed to initialize transports'')
               else
                 (case main_servers env (cfgServer config') main_start of
                    None \<Rightarrow> None
                  | Some (Fatal m) \<Rightarrow> Some (Fatal m)
                  | Some (Proceed ms) \<Rightarrow>
                      (case main_clients env (cfgClient config') ms of
                         None \<Rightarrow> None
                       | Some (Fatal m) \<Rightarrow> Some (Fatal m)
                       | Some (Proceed ms') \<Rightarrow> Some (Proceed (ms', fs'))))))"

subsection \<open>Facts\<close>

text \<open>What the certificate loop does to each entry.\<close>

definition cert_filled :: "(nat \<Rightarrow> error + string \<times> string) \<Rightarrow> nat \<Rightarrow> JsonServerConfigImpl \<Rightarrow> JsonServerConfigImpl \<Rightarrow> bool" where
  "cert_filled gen i s s' \<longleftrightarrow>
     (if sType s = ''obfs4'' \<and> sCert s = [] then
        \<exists>cert key. gen i = Inr (cert, key) \<and> s' = s\<lparr>sCert := cert, sPrivateKey := key\<rparr>
      else s' = s)"

lemma fill_certs_spec:
  "fill_certs gen ss i = Proceed (ss', dirty) \<Longrightarrow>
     length ss' = length ss \<and> (\<forall>k < length ss. cert_filled gen (i + k) (ss ! k) (ss' ! k)) \<and> (\<not> dirty \<longrightarrow> ss' = ss)"
proof (induction ss arbitrary: i ss' dirty)
  case (Cons s ss)
  obtain s' ts d where r: "fill_certs gen ss (Suc i) = Proceed (ts, d)" "ss' = s' # ts" "cert_filled gen i s s'"
    "\<not> dirty \<longrightarrow> s' = s \<and> \<not> d"
    using Cons.prems by (auto simp: cert_filled_def split: if_splits outcome.splits sum.splits prod.splits)
  then show ?case
    using Cons.IH [OF r(1)] by (auto simp: nth_Cons split: nat.splits)
qed simp

lemma fill_certs_done:
  "\<forall>s\<in>set ss. sType s = ''obfs4'' \<longrightarrow> sCert s \<noteq> [] \<Longrightarrow> fill_certs gen ss i = Proceed (ss, False)"
  by (induction ss arbitrary: i) auto

lemma ensureServerCerts_cases:
  assumes "ensureServerCerts gen marshal writeErr path config fs = Proceed (config', fs')"
  obtains ss dirty where "fill_certs gen (cfgServer config) 0 = Proceed (ss, dirty)" "config' = config\<lparr>cfgServer := ss\<rparr>"
    "(if dirty then \<exists>bs. marshal config' = Inr bs \<and> fs' = fs(path \<mapsto> bs) else fs' = fs)"
proof -
  obtain ss dirty where f: "fill_certs gen (cfgServer config) 0 = Proceed (ss, dirty)"
    using assms by (auto simp: ensureServerCerts_def split: outcome.splits)
  then show thesis
    using assms by (intro that [OF f])
      (auto simp: ensureServerCerts_def Save_def Let_def split: if_splits sum.splits option.splits prod.splits)
qed

text \<open>The certificates a start uses: those of the file, and usable ones for the entries that had none.\<close>

definition usable_cert :: "JsonServerConfigImpl \<Rightarrow> bool" where
  "usable_cert s \<longleftrightarrow> sCert s \<noteq> [] \<and> (\<forall>seed. \<exists>args. obfs4ArgsFromConfig (Inr seed) (sCert s) (sPrivateKey s) = Inr args)"

lemma generated_usable:
  assumes "GenerateIdentity raw newNodeID keypair = Inr (cert, key)"
    and "\<And>x y. newNodeID x = Inr y \<Longrightarrow> length y = NodeIDLength"
    and "\<And>pub priv. keypair = Inr (pub, priv) \<Longrightarrow> length pub = PublicKeyLength \<and> priv \<noteq> []"
  shows "usable_cert (s\<lparr>sCert := cert, sPrivateKey := key\<rparr>)"
proof -
  obtain nodeID pub where "length nodeID = NodeIDLength" "length pub = PublicKeyLength" "key \<noteq> []" "cert = encodeObfs4Cert nodeID pub"
    using assms by (auto simp: GenerateIdentity_def split: sum.splits prod.splits)
  then show ?thesis
    using obfs4Args_of_cert [of nodeID pub key] encodeObfs4Cert_nonempty [of nodeID pub] by (simp add: usable_cert_def)
qed

text \<open>What the server loop records for an entry, once the internal SOCKS address is \<open>a\<close>.\<close>

definition service_of :: "string \<Rightarrow> JsonServerConfigImpl \<Rightarrow> string" where
  "service_of a c = (if sUseExternalService c then sExternalServiceAddress c else a)"

fun launched :: "main_env \<Rightarrow> string \<Rightarrow> JsonServerConfigImpl \<Rightarrow> launch \<Rightarrow> bool" where
  "launched env a c (DpiServerLaunch tag ok) \<longleftrightarrow> sType c = ''dpi'' \<and> ok = start_dpi_server env c"
| "launched env a c (SnowServerLaunch tag ok) \<longleftrightarrow> sType c = ''snowflake'' \<and> ok = start_snow_server env c"
| "launched env a c (ObfsServerLaunch tag info e) \<longleftrightarrow>
     sType c \<notin> {''dpi'', ''snowflake''} \<and> MethodName info = sType c \<and> ResolveAddr (sListen c) = Inr (bind_addr info) \<and>
     ResolveAddr (service_of a c) = Inr (OrAddr info) \<and> server_options (me_obfs env) c = Inr (Options info) \<and>
     e = listen_tcp_err (me_obfs env) (bind_addr info)"
| "launched env a c _ \<longleftrightarrow> False"

lemma server_Setup_info:
  assumes "server_Setup env c = Proceed (info, e)"
  shows "MethodName info = sType c \<and> ResolveAddr (sListen c) = Inr (bind_addr info) \<and>
    ResolveAddr (sExternalServiceAddress c) = Inr (OrAddr info) \<and> server_options env c = Inr (Options info) \<and>
    e = listen_tcp_err env (bind_addr info)"
  using assms
  by (auto simp: server_Setup_def getPtServerInfo_def Let_def split: if_splits sum.splits outcome.splits option.splits bool.splits)

lemma server_options_service [simp]: "server_options env (c\<lparr>sExternalServiceAddress := a\<rparr>) = server_options env c"
  by (simp add: server_options_def)

lemma runInternalSocks_nonempty: "runInternalSocks r d = Some a \<Longrightarrow> a \<noteq> []"
  by (auto simp: runInternalSocks_def)

lemma with_service_cases:
  assumes "with_service env internal c = Some (a, c')"
  shows "c' = c\<lparr>sExternalServiceAddress := service_of a c\<rparr> \<and> (internal \<noteq> [] \<longrightarrow> a = internal) \<and>
    (sUseExternalService c \<or> a \<noteq> [])"
  using assms runInternalSocks_nonempty by (auto simp: with_service_def service_of_def split: if_splits)

text \<open>One entry: one launch more, right for every internal address the loop may still choose.\<close>

lemma server_entry_launches:
  assumes "server_entry env c m = Some (Proceed m')"
  shows "\<exists>l. launches m' = launches m @ [l] \<and>
    (internalSocksAddress m \<noteq> [] \<longrightarrow> internalSocksAddress m' = internalSocksAddress m) \<and>
    (\<forall>a. (internalSocksAddress m' \<noteq> [] \<longrightarrow> a = internalSocksAddress m') \<longrightarrow> launched env a c l)"
proof -
  obtain tag n where tag: "buildTag (sType c) (sListen c) (noTagCounter m) = (tag, n)"
    by (metis prod.exhaust)
  show ?thesis
  proof (cases "sType c \<in> {''dpi'', ''snowflake''}")
    case True
    then show ?thesis
      using assms tag by (auto simp: server_entry_def)
  next
    case False
    then obtain b c' info e where ws: "with_service env (internalSocksAddress m) c = Some (b, c')"
      "server_Setup (me_obfs env) c' = Proceed (info, e)"
      "m' = \<lparr>noTagCounter = n, internalSocksAddress = b, launches = launches m @ [ObfsServerLaunch tag info e]\<rparr>"
      using assms tag by (auto simp: server_entry_def split: option.splits prod.splits outcome.splits)
    have c': "c' = c\<lparr>sExternalServiceAddress := service_of b c\<rparr>" "internalSocksAddress m \<noteq> [] \<longrightarrow> b = internalSocksAddress m"
      "sUseExternalService c \<or> b \<noteq> []"
      using with_service_cases [OF ws(1)] by auto
    have "launched env a c (ObfsServerLaunch tag info e)" if "b \<noteq> [] \<longrightarrow> a = b" for a
    proof -
      have "service_of a c = service_of b c"
        using that c'(3) by (auto simp: service_of_def)
      then show ?thesis
        using server_Setup_info [OF ws(2)] False c'(1) by simp
    qed
    then show ?thesis
      using ws(3) c'(2) by auto
  qed
qed

lemma main_servers_launched:
  "main_servers env cs m = Some (Proceed m') \<Longrightarrow>
     \<exists>ls. launches m' = launches m @ ls \<and> length ls = length cs \<and>
       (\<forall>k < length cs. launched (env (length (launches m) + k)) (internalSocksAddress m') (cs ! k) (ls ! k)) \<and>
       (internalSocksAddress m \<noteq> [] \<longrightarrow> internalSocksAddress m' = internalSocksAddress m)"
proof (induction cs arbitrary: m)
  case (Cons c cs)
  obtain m1 where m1: "server_entry (env (length (launches m))) c m = Some (Proceed m1)" "main_servers env cs m1 = Some (Proceed m')"
    using Cons.prems by (auto split: option.splits outcome.splits)
  obtain l where l: "launches m1 = launches m @ [l]" "internalSocksAddress m \<noteq> [] \<longrightarrow> internalSocksAddress m1 = internalSocksAddress m"
    "\<forall>a. (internalSocksAddress m1 \<noteq> [] \<longrightarrow> a = internalSocksAddress m1) \<longrightarrow> launched (env (length (launches m))) a c l"
    using server_entry_launches [OF m1(1)] by blast
  obtain ls where ls: "launches m' = launches m1 @ ls" "length ls = length cs"
    "\<forall>k < length cs. launched (env (length (launches m1) + k)) (internalSocksAddress m') (cs ! k) (ls ! k)"
    "internalSocksAddress m1 \<noteq> [] \<longrightarrow> internalSocksAddress m' = internalSocksAddress m1"
    using Cons.IH [OF m1(2)] by blast
  show ?case
    using l ls by (intro exI [of _ "l # ls"]) (auto simp: nth_Cons split: nat.splits)
qed simp

text \<open>What stops the loop: the set-up of an obfs entry, all entries before it having been launched.\<close>

lemma server_entry_stops:
  assumes "server_entry env c m = r" "\<And>m'. r \<noteq> Some (Proceed m')"
  shows "sType c \<notin> {''dpi'', ''snowflake''} \<and>
    (case with_service env (internalSocksAddress m) c of
       None \<Rightarrow> r = None
     | Some (a, c') \<Rightarrow> (\<exists>e. server_Setup (me_obfs env) c' = Fatal e \<and> r = Some (Fatal e)))"
  using assms by (auto simp: server_entry_def split: prod.splits if_splits option.splits outcome.splits)

lemma main_servers_stops:
  assumes "main_servers env cs m = r" "\<And>m'. r \<noteq> Some (Proceed m')"
  shows "\<exists>k < length cs. \<exists>m'. main_servers env (take k cs) m = Some (Proceed m') \<and>
    server_entry (env (length (launches m) + k)) (cs ! k) m' = r"
  using assms(1)
proof (induction cs arbitrary: m)
  case Nil
  then show ?case
    using assms(2) [of m] by simp
next
  case (Cons c cs)
  let ?e = "server_entry (env (length (launches m))) c m"
  show ?case
  proof (cases "\<exists>m1. ?e = Some (Proceed m1)")
    case True
    then obtain m1 where m1: "?e = Some (Proceed m1)" ..
    then have "main_servers env cs m1 = r" "length (launches m1) = Suc (length (launches m))"
      using Cons.prems server_entry_launches [OF m1] by auto
    then obtain k m' where "k < length cs" "main_servers env (take k cs) m1 = Some (Proceed m')"
      "server_entry (env (Suc (length (launches m) + k))) (cs ! k) m' = r"
      using Cons.IH [of m1] by auto
    then show ?thesis
      using m1 by (intro exI [of _ "Suc k"] conjI exI [of _ m']) simp_all
  next
    case False
    then have "?e = r"
      using Cons.prems by (auto split: option.splits outcome.splits)
    then show ?thesis
      by (intro exI [of _ 0]) simp
  qed
qed

lemma main_clients_keeps:
  "main_clients env cs m = Some (Proceed m') \<Longrightarrow> \<exists>ls. launches m' = launches m @ ls"
proof (induction cs arbitrary: m)
  case (Cons c cs)
  then obtain m1 where m1: "client_entry (env (length (launches m))) c m = Some (Proceed m1)" "main_clients env cs m1 = Some (Proceed m')"
    by (auto split: option.splits outcome.splits)
  have "\<exists>l. launches m1 = launches m @ [l]"
    using m1(1) by (auto simp: client_entry_def split: prod.splits if_splits option.splits outcome.splits)
  then show ?case
    using Cons.IH [OF m1(2)] by auto
qed simp

text \<open>The launch of an obfs4 entry that has a certificate.\<close>

lemma launched_obfs4:
  assumes "launched env a c l" "sType c = ''obfs4''" "sCert c \<noteq> []"
  shows "\<exists>tag info. l = ObfsServerLaunch tag info (listen_tcp_err (me_obfs env) (bind_addr info)) \<and>
    obfs4ArgsFromConfig (newSeed (me_obfs env)) (sCert c) (sPrivateKey c) = Inr (Options info)"
  using assms by (cases l) (auto simp: server_options_def)

text \<open>A run of \<^verbatim>\<open>main\<close> that reaches the terminal monitor, taken apart.\<close>

lemma main_cases:
  assumes "main unmarshal gen marshal writeErr tr env path fs = Some (Proceed (ms, fs'))"
  obtains config config' ls a where "Load unmarshal path fs = Proceed config"
    "ensureServerCerts gen marshal writeErr path config fs = Proceed (config', fs')"
    "launches ms = ls" "length (cfgServer config') \<le> length ls"
    "\<forall>k < length (cfgServer config'). launched (env k) a (cfgServer config' ! k) (ls ! k)"
proof -
  obtain config config' ms1 where m: "Load unmarshal path fs = Proceed config"
    "ensureServerCerts gen marshal writeErr path config fs = Proceed (config', fs')"
    "main_servers env (cfgServer config') main_start = Some (Proceed ms1)"
    "main_clients env (cfgClient config') ms1 = Some (Proceed ms)"
    using assms unfolding main_def by (auto split: outcome.splits option.splits prod.splits if_splits)
  obtain ls where ls: "launches ms1 = ls" "length ls = length (cfgServer config')"
    "\<forall>k < length (cfgServer config'). launched (env k) (internalSocksAddress ms1) (cfgServer config' ! k) (ls ! k)"
    using main_servers_launched [OF m(3)] by (auto simp: main_start_def)
  then show thesis
    using that [OF m(1,2) refl, of "internalSocksAddress ms1"] main_clients_keeps [OF m(4)] by (auto simp: nth_append)
qed

text \<open>The identities such a run serves are those of the configuration it wrote, if all entries have one.\<close>

lemma main_serves:
  assumes "main unmarshal gen marshal writeErr tr env path fs = Some (Proceed (ms, fs'))"
    and "Load unmarshal path fs = Proceed config"
    and "ensureServerCerts gen marshal writeErr path config fs = Proceed (config', fs'')"
    and "\<forall>s\<in>set (cfgServer config'). sType s = ''obfs4'' \<longrightarrow> sCert s \<noteq> []"
  shows "fs' = fs'' \<and> (\<forall>k < length (cfgServer config'). sType (cfgServer config' ! k) = ''obfs4'' \<longrightarrow>
    (\<exists>tag info. launches ms ! k = ObfsServerLaunch tag info (listen_tcp_err (me_obfs (env k)) (bind_addr info)) \<and>
       obfs4ArgsFromConfig (newSeed (me_obfs (env k))) (sCert (cfgServer config' ! k)) (sPrivateKey (cfgServer config' ! k)) = Inr (Options info)))"
  using assms launched_obfs4 by (elim main_cases) (auto intro!: launched_obfs4)

lemma ensureServerCerts_entries:
  assumes "ensureServerCerts (\<lambda>i. GenerateIdentity (raw i) newNodeID (keypair i)) marshal writeErr path config fs = Proceed (config', fs')"
    and "\<forall>x y. newNodeID x = Inr y \<longrightarrow> length y = NodeIDLength"
    and "\<forall>i pub priv. keypair i = Inr (pub, priv) \<longrightarrow> length pub = PublicKeyLength \<and> priv \<noteq> []"
  shows "length (cfgServer config') = length (cfgServer config) \<and> cfgClient config' = cfgClient config \<and>
    (\<forall>k < length (cfgServer config).
       if sType (cfgServer config ! k) = ''obfs4'' \<and> sCert (cfgServer config ! k) = [] then usable_cert (cfgServer config' ! k)
       else cfgServer config' ! k = cfgServer config ! k)"
proof -
  let ?gen = "\<lambda>i. GenerateIdentity (raw i) newNodeID (keypair i)"
  obtain ss dirty where f: "fill_certs ?gen (cfgServer config) 0 = Proceed (ss, dirty)" "config' = config\<lparr>cfgServer := ss\<rparr>"
    using ensureServerCerts_cases [OF assms(1)] .
  have filled: "length ss = length (cfgServer config)" "\<forall>k < length (cfgServer config). cert_filled ?gen k (cfgServer config ! k) (ss ! k)"
    using fill_certs_spec [OF f(1)] by auto
  have "if sType (cfgServer config ! k) = ''obfs4'' \<and> sCert (cfgServer config ! k) = [] then usable_cert (ss ! k)
      else ss ! k = cfgServer config ! k" if k: "k < length (cfgServer config)" for k
  proof -
    have "usable_cert (s\<lparr>sCert := cert, sPrivateKey := key\<rparr>)" if "?gen k = Inr (cert, key)" for s cert key
      by (rule generated_usable [OF that]) (use assms(2,3) in blast)+
    then show ?thesis
      using filled(2) k unfolding cert_filled_def by metis
  qed
  then show ?thesis
    using filled(1) f(2) by simp
qed

lemma ensureServerCerts_saved:
  assumes "Load unmarshal path fs = Proceed config"
    and "ensureServerCerts (\<lambda>i. GenerateIdentity (raw i) newNodeID (keypair i)) marshal writeErr path config fs = Proceed (config', fs')"
    and "\<forall>x y. newNodeID x = Inr y \<longrightarrow> length y = NodeIDLength"
    and "\<forall>i pub priv. keypair i = Inr (pub, priv) \<longrightarrow> length pub = PublicKeyLength \<and> priv \<noteq> []"
    and "\<forall>bs. marshal config' = Inr bs \<longrightarrow> unmarshal bs = Inr config'"
  shows "(\<forall>s\<in>set (cfgServer config'). sType s = ''obfs4'' \<longrightarrow> sCert s \<noteq> []) \<and> Load unmarshal path fs' = Proceed config'"
proof -
  have "sCert (cfgServer config' ! k) \<noteq> []" if k: "k < length (cfgServer config')" "sType (cfgServer config' ! k) = ''obfs4''" for k
    using ensureServerCerts_entries [OF assms(2-4)] k
    by (cases "sType (cfgServer config ! k) = ''obfs4'' \<and> sCert (cfgServer config ! k) = []") (auto simp: usable_cert_def)
  then have "\<forall>s\<in>set (cfgServer config'). sType s = ''obfs4'' \<longrightarrow> sCert s \<noteq> []"
    by (auto simp: in_set_conv_nth)
  moreover obtain ss dirty where f: "fill_certs (\<lambda>i. GenerateIdentity (raw i) newNodeID (keypair i)) (cfgServer config) 0 = Proceed (ss, dirty)"
    "config' = config\<lparr>cfgServer := ss\<rparr>" "if dirty then \<exists>bs. marshal config' = Inr bs \<and> fs' = fs(path \<mapsto> bs) else fs' = fs"
    using ensureServerCerts_cases [OF assms(2)] .
  moreover have "Load unmarshal path fs' = Proceed config'"
    using f assms(1,5) fill_certs_spec [OF f(1)] by (cases dirty) (auto simp: Load_def)
  ultimately show ?thesis
    by simp
qed

subsection \<open>Properties\<close>

text \<open>
  C25: Certificates survive a restart.  When the program has filled in the missing obfs4
  certificates of the configuration it loaded, every entry that lacked one has a usable
  certificate and key, every other entry and the clients are as they were, and a restart loads
  exactly this configuration and generates and writes nothing.
\<close>

theorem certificates_survive_restart:
  assumes "Load unmarshal path fs = Proceed config"
    and "ensureServerCerts (\<lambda>i. GenerateIdentity (raw i) newNodeID (keypair i)) marshal writeErr path config fs = Proceed (config', fs')"
    and "\<forall>x y. newNodeID x = Inr y \<longrightarrow> length y = NodeIDLength"
    and "\<forall>i pub priv. keypair i = Inr (pub, priv) \<longrightarrow> length pub = PublicKeyLength \<and> priv \<noteq> []"
    and "\<forall>bs. marshal config' = Inr bs \<longrightarrow> unmarshal bs = Inr config'"
  shows "length (cfgServer config') = length (cfgServer config) \<and> cfgClient config' = cfgClient config \<and>
    (\<forall>k < length (cfgServer config).
       if sType (cfgServer config ! k) = ''obfs4'' \<and> sCert (cfgServer config ! k) = [] then usable_cert (cfgServer config' ! k)
       else cfgServer config' ! k = cfgServer config ! k) \<and>
    Load unmarshal path fs' = Proceed config' \<and>
    (\<forall>gen. ensureServerCerts gen marshal writeErr path config' fs' = Proceed (config', fs'))"
proof -
  have saved: "\<forall>s\<in>set (cfgServer config'). sType s = ''obfs4'' \<longrightarrow> sCert s \<noteq> []" "Load unmarshal path fs' = Proceed config'"
    using ensureServerCerts_saved [OF assms] by auto
  then have "ensureServerCerts gen marshal writeErr path config' fs' = Proceed (config', fs')" for gen
    by (simp add: ensureServerCerts_def fill_certs_done)
  then show ?thesis
    using ensureServerCerts_entries [OF assms(2-4)] saved(2) by simp
qed

text \<open>A configuration with one obfs4 server that has no certificate, and a codec that knows two configurations.\<close>

definition demo_server :: JsonServerConfigImpl where
  "demo_server =
     \<lparr>sType = ''obfs4'', sListen = ''1.1.1.1:5'', sUseExternalService = True, sExternalServiceAddress = ''1.1.1.1:6'',
      sCert = [], sPrivateKey = [], sEncKey = [], sProtocol = [], sHttpAddr = [], sHttpsAddr = [], sTlsCertFile = [],
      sTlsKeyFile = [], sAcmeEmail = [], sAcmeDomain = [], sSelfSigned = False, sRedirect = [], sCertDir = [], sSocksBind = []\<rparr>"

definition demo_config :: "string \<Rightarrow> string \<Rightarrow> JsonConfigImpl" where
  "demo_config cert key = \<lparr>cfgServer = [demo_server\<lparr>sCert := cert, sPrivateKey := key\<rparr>], cfgClient = []\<rparr>"

theorem certificates_survive_restart_witness:
  "\<exists>cert key. usable_cert (demo_server\<lparr>sCert := cert, sPrivateKey := key\<rparr>) \<and>
    ensureServerCerts (\<lambda>i. Inl EOF) (\<lambda>c. Inr [1]) (\<lambda>_. None) ''c'' (demo_config cert key) [''c'' \<mapsto> [1]]
      = Proceed (demo_config cert key, [''c'' \<mapsto> [1]])"
proof -
  let ?cert = "encodeObfs4Cert (replicate 20 1) (replicate 32 2)"
  let ?read = "\<lambda>bs. if bs = [1] then Inr (demo_config ?cert ''ab'') else Inr (demo_config [] [])"
  let ?node = "\<lambda>x. if length x = NodeIDLength then Inr x else Inl EOF"
  have h1: "Load ?read ''c'' [''c'' \<mapsto> [0]] = Proceed (demo_config [] [])"
    by (simp add: Load_def)
  have h2: "ensureServerCerts (\<lambda>i. GenerateIdentity ((\<lambda>_. Inr (replicate 20 1)) i) ?node ((\<lambda>_. Inr (replicate 32 2, ''ab'')) i))
      (\<lambda>c. Inr [1]) (\<lambda>_. None) ''c'' (demo_config [] []) [''c'' \<mapsto> [0]] = Proceed (demo_config ?cert ''ab'', [''c'' \<mapsto> [1]])"
    by (simp add: ensureServerCerts_def demo_config_def demo_server_def GenerateIdentity_def NodeIDLength_def Save_def)
  have h3: "\<forall>x y. ?node x = Inr y \<longrightarrow> length y = NodeIDLength"
    by auto
  have h4: "\<forall>i pub priv. (\<lambda>_ :: nat. Inr (replicate 32 2, ''ab'') :: error + bytes \<times> string) i = Inr (pub, priv) \<longrightarrow>
      length pub = PublicKeyLength \<and> priv \<noteq> []"
    by (auto simp: PublicKeyLength_def)
  have h5: "\<forall>bs. (\<lambda>c. Inr [1]) (demo_config ?cert ''ab'') = Inr bs \<longrightarrow> ?read bs = Inr (demo_config ?cert ''ab'')"
    by auto
  note c = certificates_survive_restart [OF h1 h2 h3 h4 h5, THEN conjunct2, THEN conjunct2]
  from c [THEN conjunct1, THEN spec [of _ 0]] have "usable_cert (demo_server\<lparr>sCert := ?cert, sPrivateKey := ''ab''\<rparr>)"
    by (simp add: demo_config_def demo_server_def)
  then show ?thesis
    using c [THEN conjunct2, THEN conjunct2, THEN spec] by (intro exI [of _ ?cert] exI [of _ "''ab''"] conjI)
qed


text \<open>Surroundings in which every step succeeds; the \<open>i\<close>-th entry would draw the port \<open>1025 + i\<close>.\<close>

definition demo_main_env :: "nat \<Rightarrow> main_env" where
  "demo_main_env i =
     \<lparr>me_obfs = demo_obfs_env, me_listen = \<lambda>_. None, me_bound = Inr, me_tls = \<lambda>_. Inl EOF, me_encryptor = None,
      me_urlParse = \<lambda>_. Inl EOF, me_lookup = \<lambda>_. Inl EOF, me_resolveTCP = \<lambda>_. None, me_kcpServer = None,
      me_kcp = None, me_smux = None, me_proxyDialer = \<lambda>_. DirectDial, me_socksDraws = \<lambda>_. i\<rparr>"

lemma demo_addresses:
  "SplitHostPort ''1.1.1.1:5'' = Inr (''1.1.1.1'', ''5'')" "split_on CHR '':'' ''1.1.1.1:5'' = [''1.1.1.1'', ''5'']"
  "ResolveAddr ''1.1.1.1:5'' = Inr (the (To16 [1, 1, 1, 1]), 5)" "ResolveAddr ''1.1.1.1:6'' = Inr (the (To16 [1, 1, 1, 1]), 6)"
  "ResolveAddr ''127.0.0.1:1026'' = Inr (the (To16 [127, 0, 0, 1]), 1026)"
proof -
  show "SplitHostPort ''1.1.1.1:5'' = Inr (''1.1.1.1'', ''5'')" "split_on CHR '':'' ''1.1.1.1:5'' = [''1.1.1.1'', ''5'']"
    by code_simp+
  have "''1.1.1.1:5'' = IP_String [1, 1, 1, 1] @ '':'' @ Itoa 5" "''1.1.1.1:6'' = IP_String [1, 1, 1, 1] @ '':'' @ Itoa 6"
    "''127.0.0.1:1026'' = IP_String [127, 0, 0, 1] @ '':'' @ Itoa 1026"
    by code_simp+
  moreover have "ResolveAddr (IP_String [a, b, c, d] @ '':'' @ Itoa p) = Inr (the (To16 [a, b, c, d]), p)" if "p < 65536" for a b c d p
    by (rule ResolveAddr_printed [OF _ that split_addr_plain]) simp_all
  ultimately show "ResolveAddr ''1.1.1.1:5'' = Inr (the (To16 [1, 1, 1, 1]), 5)" "ResolveAddr ''1.1.1.1:6'' = Inr (the (To16 [1, 1, 1, 1]), 6)"
    "ResolveAddr ''127.0.0.1:1026'' = Inr (the (To16 [127, 0, 0, 1]), 1026)"
    by simp_all
qed

lemma demo_server_Setup:
  assumes "server_options demo_obfs_env s = Inr opts" "sListen s = ''1.1.1.1:5''" "ResolveAddr (sExternalServiceAddress s) = Inr orAddr"
  shows "server_Setup demo_obfs_env s =
    Proceed (\<lparr>bind_addr = (the (To16 [1, 1, 1, 1]), 5), MethodName = sType s, Options = opts, OrAddr = orAddr\<rparr>, None)"
  using assms by (simp add: server_Setup_def getPtServerInfo_def demo_addresses demo_obfs_env_def IsTcpOpen_def)

text \<open>Three entries: a DPI server that cannot start, and two obfs servers without an external service.\<close>

definition demo_entries :: "JsonServerConfigImpl list" where
  "demo_entries = [demo_server\<lparr>sType := ''dpi''\<rparr>, demo_server\<lparr>sUseExternalService := False\<rparr>, demo_server\<lparr>sUseExternalService := False\<rparr>]"

lemma demo_internal: "runInternalSocks (dialable demo_obfs_env) (\<lambda>_. 1) = Some ''127.0.0.1:1026''"
proof -
  have "GetRandomPort 1 = 1026"
    by (simp add: GetRandomPort_def)
  moreover have "Itoa 1026 = ''1026''"
    by code_simp
  ultimately show ?thesis
    by (simp add: runInternalSocks_def pick_port.simps [of _ _ 0] IsTcpOpen_def demo_obfs_env_def)
qed

lemma demo_run:
  "\<exists>m. main_servers demo_main_env demo_entries main_start = Some (Proceed m) \<and> internalSocksAddress m = ''127.0.0.1:1026'' \<and>
     launches m ! 0 = DpiServerLaunch ''dpi-5'' False"
proof -
  let ?s = "demo_server\<lparr>sUseExternalService := False\<rparr>"
  have dpi: "\<not> start_dpi_server (demo_main_env 0) (demo_server\<lparr>sType := ''dpi''\<rparr>)"
    by (simp add: start_dpi_server_def launchDpiServer_def dpi_server_config_def demo_server_def)
  have "server_options demo_obfs_env (?s\<lparr>sExternalServiceAddress := ''127.0.0.1:1026''\<rparr>) = Inr []"
    by (simp add: server_options_def demo_server_def)
  then have ok: "\<exists>info. server_Setup demo_obfs_env (?s\<lparr>sExternalServiceAddress := ''127.0.0.1:1026''\<rparr>) = Proceed (info, None)"
    using demo_server_Setup [of "?s\<lparr>sExternalServiceAddress := ''127.0.0.1:1026''\<rparr>" "[]"]
    by (auto simp: demo_server_def demo_addresses)
  have w: "with_service (demo_main_env 1) [] ?s = Some (''127.0.0.1:1026'', ?s\<lparr>sExternalServiceAddress := ''127.0.0.1:1026''\<rparr>)"
    "with_service (demo_main_env 2) ''127.0.0.1:1026'' ?s = Some (''127.0.0.1:1026'', ?s\<lparr>sExternalServiceAddress := ''127.0.0.1:1026''\<rparr>)"
    using demo_internal by (simp_all add: with_service_def demo_main_env_def demo_server_def)
  have tag: "buildTag t ''1.1.1.1:5'' n = (t @ ''-5'', n)" for t n
    by (simp add: buildTag_def demo_addresses)
  have demo: "sListen demo_server = ''1.1.1.1:5''" "sType demo_server = ''obfs4''" "me_obfs (demo_main_env i) = demo_obfs_env" for i
    by (simp_all add: demo_server_def demo_main_env_def)
  show ?thesis
    using dpi ok w by (auto simp: demo_entries_def main_start_def server_entry_def tag demo numeral_2_eq_2)
qed


text \<open>
  When a DPI server can start.  With every listen succeeding, there are certificate files or a
  generator that make the launcher report success if and only if an address is configured and, for
  HTTPS, the protocol is valid and the entry is self-signed, has both ACME fields or has both
  certificate files.  (The launcher's own guard asks for less: one ACME or certificate field.)
\<close>

theorem dpi_server_starts_iff:
  "(\<exists>load generate ls. launchDpiServer None (\<lambda>_. None) (buildTLSConfig exeDir load generate) c = (True, ls)) \<longleftrightarrow>
   sHttpsAddr c = [] \<and> sHttpAddr c \<noteq> [] \<or>
   sHttpsAddr c \<noteq> [] \<and> (\<exists>p. normalizeAppProtocol (dpiOrDefault (sProtocol c) dpiDefaultProtocol) = Inr p) \<and>
     (sSelfSigned c \<or> sAcmeEmail c \<noteq> [] \<and> sAcmeDomain c \<noteq> [] \<or> sTlsCertFile c \<noteq> [] \<and> sTlsKeyFile c \<noteq> [])"
  (is "?starts \<longleftrightarrow> ?r")
proof
  assume ?starts
  then obtain load generate ls where
    l: "launchDpiServer None (\<lambda>_. None) (buildTLSConfig exeDir load generate) c = (True, ls)"
    by blast
  then have "sHttpsAddr c \<noteq> [] \<longrightarrow> (\<exists>tc. buildTLSConfig exeDir load generate (dpi_server_config c) = Inr tc)"
    by (auto simp: launchDpiServer_def Run_def Let_def dpi_server_config_def split: if_splits prod.splits option.splits sum.splits)
  moreover have "sHttpsAddr c \<noteq> [] \<or> sHttpAddr c \<noteq> []"
    using l by (auto simp: launchDpiServer_def Let_def dpi_server_config_def split: if_splits)
  ultimately show ?r
    by (auto simp: buildTLSConfig_def dpi_server_config_def split: if_splits sum.splits)
next
  assume r: ?r
  have http: "\<exists>ls. run_http (\<lambda>_. None) (dpi_server_config c) = (None, ls)"
    by (auto simp: run_http_def)
  have "\<exists>tc. buildTLSConfig exeDir (\<lambda>_ _. Inr []) (Inr []) (dpi_server_config c) = Inr tc" if "sHttpsAddr c \<noteq> []"
    using r that by (auto simp: buildTLSConfig_def dpi_server_config_def)
  then have "\<exists>ls. launchDpiServer None (\<lambda>_. None) (buildTLSConfig exeDir (\<lambda>_ _. Inr []) (Inr [])) c = (True, ls)"
    using r http by (auto simp: launchDpiServer_def Run_def Let_def dpi_server_config_def)
  then show ?starts
    by blast
qed

end
