(* ===== verification/Term_Monitor.thy ===== *)
theory Term_Monitor
  imports Go_Source
begin

text \<open>
  The terminal monitor (\<^verbatim>\<open>common/termon\<close>).  \<open>Wait\<close> and the two \<^verbatim>\<open>LaunchTermMonitorFor\<close> functions are
  functions of the events they receive.  The same loop turn of \<open>Wait\<close> drives a step relation in which
  the launching function runs among everything that sends such events: \<^verbatim>\<open>signal.Notify\<close>, which drops a signal when nobody receives from the unbuffered
  channel, the goroutine that polls the parent process id, whose send blocks until it is received,
  the parent-death signal of \<^verbatim>\<open>prctl\<close>, and the handlers.
\<close>

datatype os_signal = SIGINT | SIGTERM

datatype mon_event = Handlers int | Signal os_signal

definition OnHandlerStart :: mon_event where
  "OnHandlerStart = Handlers 1"

definition OnHandlerFinish :: mon_event where
  "OnHandlerFinish = Handlers (- 1)"

text \<open>
  One turn of the loop in \<^verbatim>\<open>Wait\<close>, with the number of handlers before: the signal if it returns, and
  the number of handlers after.
\<close>

fun Wait_turn :: "bool \<Rightarrow> int \<Rightarrow> mon_event \<Rightarrow> os_signal option \<times> int" where
  "Wait_turn termOnNoHandlers n (Signal sig) = (Some sig, n)"
| "Wait_turn termOnNoHandlers n (Handlers k) = (if termOnNoHandlers \<and> n + k = 0 then Some SIGTERM else None, n + k)"

text \<open>
  \<^verbatim>\<open>Wait\<close> over the events that arrive: the signal, the number of handlers after and the events left,
  or \<open>None\<close> when it still waits.
\<close>

fun Wait :: "bool \<Rightarrow> int \<Rightarrow> mon_event list \<Rightarrow> (os_signal \<times> int \<times> mon_event list) option" where
  "Wait termOnNoHandlers n [] = None"
| "Wait termOnNoHandlers n (ev # es) =
     (case Wait_turn termOnNoHandlers n ev of
        (Some sig, n') \<Rightarrow> Some (sig, n', es)
      | (None, n') \<Rightarrow> Wait termOnNoHandlers n' es)"

text \<open>Closing the listeners in order, up to the first error.\<close>

fun close_until_error :: "error option list \<Rightarrow> nat \<times> bool" where
  "close_until_error [] = (0, True)"
| "close_until_error (Some e # es) = (1, False)"
| "close_until_error (None # es) = (case close_until_error es of (n, b) \<Rightarrow> (Suc n, b))"

text \<open>Whether the monitor returns, and the number of listeners it has closed by then.\<close>

definition LaunchTermMonitorForListeners :: "error option list \<Rightarrow> mon_event list \<Rightarrow> bool \<times> nat" where
  "LaunchTermMonitorForListeners closing events =
     (case Wait False 0 events of
        None \<Rightarrow> (False, 0)
      | Some (sig, n, es) \<Rightarrow>
          if sig = SIGTERM then (True, 0)
          else
            (case close_until_error closing of
               (k, False) \<Rightarrow> (True, k)
             | (k, True) \<Rightarrow> (Wait True n es \<noteq> None, k)))"

definition LaunchTermMonitorForServers :: "error option list \<Rightarrow> mon_event list \<Rightarrow> bool \<times> nat" where
  "LaunchTermMonitorForServers closing events =
     (case Wait False 0 events of
        None \<Rightarrow> (False, 0)
      | Some (sig, n, es) \<Rightarrow>
          if sig = SIGTERM then (True, 0)
          else
            (case close_until_error closing of
               (k, False) \<Rightarrow> (True, k)
             | (k, True) \<Rightarrow> (Wait True n es \<noteq> None, k)))"

text \<open>
  \<^verbatim>\<open>termOnStdinClose\<close>: the event it sends once the copy from standard input ends, with any error.
  No code starts it.
\<close>

definition termOnStdinClose :: "nat \<Rightarrow> reader \<Rightarrow> mon_event option" where
  "termOnStdinClose n stdin = map_option (\<lambda>_. Signal SIGTERM) (io_Copy go_Read n stdin)"

subsection \<open>The monitor and its senders\<close>

text \<open>
  Where the launching function stands (before its first \<open>Wait\<close>, in it, closing the listeners that
  are left, in the second \<open>Wait\<close>, returned), and where the goroutine of \<^verbatim>\<open>termOnPPIDChange\<close> stands.
\<close>

datatype mon_pc = MonStart | MonFirst | MonClosing "error option list" | MonLast | MonReturned

datatype poll_pc = NoPoller | Polling | PollSend | PollDone

text \<open>
  \<open>start_ppid\<close> is the argument of \<^verbatim>\<open>termOnPPIDChange\<close> and \<open>parent\<close> what \<^verbatim>\<open>os.Getppid\<close> returns now.
  \<open>received\<close> and \<open>dropped\<close> record the events the monitor took from its channels and the signals
  that were delivered to nobody.
\<close>

record TermMonitor =
  mon_pc :: mon_pc
  numHandlers :: int
  nclosed :: nat
  poller :: poll_pc
  start_ppid :: int
  parent :: int
  pdeathsig :: bool
  received :: "mon_event list"
  dropped :: "os_signal list"

definition termMonitorInitLinux :: "nat \<Rightarrow> error option" where
  "termMonitorInitLinux errno =
     (if errno \<noteq> 0 then Some (Errorf ''prctl(PR_SET_PDEATHSIG, SIGTERM) returned'') else None)"

text \<open>\<open>osInit\<close> is \<open>None\<close> where \<^verbatim>\<open>termMonitorOSInit\<close> is nil, and otherwise its result.\<close>

definition NewTermMonitor :: "error option option \<Rightarrow> string \<Rightarrow> int \<Rightarrow> TermMonitor" where
  "NewTermMonitor osInit goos ppid =
     \<lparr>mon_pc = MonStart, numHandlers = 0, nclosed = 0,
      poller = (if osInit = Some None then NoPoller else if goos \<noteq> ''windows'' then Polling else NoPoller),
      start_ppid = ppid, parent = ppid, pdeathsig = (osInit = Some None), received = [], dropped = []\<rparr>"

definition waiting :: "TermMonitor \<Rightarrow> bool" where
  "waiting m \<longleftrightarrow> mon_pc m = MonFirst \<or> mon_pc m = MonLast"

text \<open>
  An event received: a turn of the first or the second \<^verbatim>\<open>Wait\<close> and, when it returns, what the launching
  function does with the signal.
\<close>

definition mon_receive :: "error option list \<Rightarrow> mon_event \<Rightarrow> TermMonitor \<Rightarrow> TermMonitor" where
  "mon_receive closing ev m =
     (case Wait_turn (mon_pc m = MonLast) (numHandlers m) ev of
        (r, n) \<Rightarrow>
          m\<lparr>mon_pc := (case r of
                          None \<Rightarrow> mon_pc m
                        | Some sig \<Rightarrow> if mon_pc m = MonLast \<or> sig = SIGTERM then MonReturned else MonClosing closing),
            numHandlers := n,
            received := received m @ [ev]\<rparr>)"

text \<open>A signal that arrives for a channel given to \<^verbatim>\<open>signal.Notify\<close>: taken by a waiting receiver or dropped.\<close>

definition notify :: "error option list \<Rightarrow> os_signal \<Rightarrow> TermMonitor \<Rightarrow> TermMonitor" where
  "notify closing sig m =
     (if waiting m then mon_receive closing (Signal sig) m else m\<lparr>dropped := dropped m @ [sig]\<rparr>)"

text \<open>The steps of the launching function between the events it receives.\<close>

inductive launch_step :: "TermMonitor \<Rightarrow> TermMonitor \<Rightarrow> bool" where
  mon_begin: "mon_pc m = MonStart \<Longrightarrow> launch_step m (m\<lparr>mon_pc := MonFirst\<rparr>)"
| mon_close: "mon_pc m = MonClosing (None # es) \<Longrightarrow>
    launch_step m (m\<lparr>mon_pc := MonClosing es, nclosed := Suc (nclosed m)\<rparr>)"
| mon_close_fails: "mon_pc m = MonClosing (Some e # es) \<Longrightarrow>
    launch_step m (m\<lparr>mon_pc := MonReturned, nclosed := Suc (nclosed m)\<rparr>)"
| mon_close_done: "mon_pc m = MonClosing [] \<Longrightarrow> launch_step m (m\<lparr>mon_pc := MonLast\<rparr>)"

text \<open>The steps of the polling goroutine; its send is received by a waiting monitor.\<close>

inductive poll_step :: "error option list \<Rightarrow> TermMonitor \<Rightarrow> TermMonitor \<Rightarrow> bool"
  for closing :: "error option list" where
  poll_change: "\<lbrakk>poller m = Polling; start_ppid m \<noteq> parent m\<rbrakk> \<Longrightarrow> poll_step closing m (m\<lparr>poller := PollSend\<rparr>)"
| poll_send: "\<lbrakk>poller m = PollSend; waiting m\<rbrakk> \<Longrightarrow>
    poll_step closing m ((mon_receive closing (Signal SIGTERM) m)\<lparr>poller := PollDone\<rparr>)"

text \<open>The steps of the program itself.\<close>

inductive mon_step :: "error option list \<Rightarrow> TermMonitor \<Rightarrow> TermMonitor \<Rightarrow> bool"
  for closing :: "error option list" where
  by_launch: "launch_step m m' \<Longrightarrow> mon_step closing m m'"
| by_poll: "poll_step closing m m' \<Longrightarrow> mon_step closing m m'"

lemmas mon_steps = launch_step.intros [THEN by_launch] poll_step.intros [THEN by_poll]

text \<open>The steps of its surroundings: signals, handlers, and the end of the parent process.\<close>

inductive mon_env :: "error option list \<Rightarrow> TermMonitor \<Rightarrow> TermMonitor \<Rightarrow> bool"
  for closing :: "error option list" where
  env_signal: "mon_pc m \<noteq> MonReturned \<Longrightarrow> mon_env closing m (notify closing sig m)"
| env_handler: "\<lbrakk>waiting m; ev = OnHandlerStart \<or> ev = OnHandlerFinish\<rbrakk> \<Longrightarrow> mon_env closing m (mon_receive closing ev m)"
| env_parent_exits: "\<lbrakk>p \<noteq> parent m; \<not> pdeathsig m\<rbrakk> \<Longrightarrow> mon_env closing m (m\<lparr>parent := p\<rparr>)"
| env_parent_signals: "\<lbrakk>p \<noteq> parent m; pdeathsig m\<rbrakk> \<Longrightarrow> mon_env closing m (notify closing SIGTERM (m\<lparr>parent := p\<rparr>))"

inductive mon_reach :: "error option list \<Rightarrow> TermMonitor \<Rightarrow> TermMonitor \<Rightarrow> bool"
  for closing :: "error option list" and m\<^sub>0 :: TermMonitor where
  mon_init: "mon_reach closing m\<^sub>0 m\<^sub>0"
| mon_prog: "\<lbrakk>mon_reach closing m\<^sub>0 m; mon_step closing m m'\<rbrakk> \<Longrightarrow> mon_reach closing m\<^sub>0 m'"
| mon_envs: "\<lbrakk>mon_reach closing m\<^sub>0 m; mon_env closing m m'\<rbrakk> \<Longrightarrow> mon_reach closing m\<^sub>0 m'"

inductive_cases launch_stepE: "launch_step m m'"

inductive_cases poll_stepE: "poll_step closing m m'"

subsection \<open>Facts\<close>

lemma Wait_False: "Wait False n (map Handlers ks @ Signal sig # es) = Some (sig, n + sum_list ks, es)"
  by (induction ks arbitrary: n) (auto simp: algebra_simps)

lemma Wait_False_waits: "Wait False n (map Handlers ks) = None"
  by (induction ks arbitrary: n) auto

lemma SIGTERM_closes_nothing: "LaunchTermMonitorForListeners closing (Signal SIGTERM # es) = (True, 0)"
  by (simp add: LaunchTermMonitorForListeners_def)

lemma close_until_error_ok: "close_until_error (replicate n None) = (n, True)"
  by (induction n) auto

lemma close_until_error_fails: "close_until_error (replicate n None @ Some e # es) = (Suc n, False)"
  by (induction n) auto

text \<open>With no handlers reported, one \<open>SIGINT\<close> closes the listeners but the process goes on waiting.\<close>

lemma one_SIGINT_waits: "LaunchTermMonitorForListeners (replicate n None) [Signal SIGINT] = (False, n)"
  by (simp add: LaunchTermMonitorForListeners_def close_until_error_ok)

lemma termOnStdinClose_sends:
  "reads stdin bs e \<Longrightarrow> length bs < n \<Longrightarrow> termOnStdinClose n stdin = Some (Signal SIGTERM)"
  by (simp add: termOnStdinClose_def body.io_Copy_all)

subsection \<open>The contract\<close>

text \<open>
  Handlers that come and go, \<open>n\<close> running before, without their number being zero after any of the
  reports.
\<close>

definition stays_busy :: "int \<Rightarrow> int list \<Rightarrow> bool" where
  "stays_busy n js \<longleftrightarrow> (\<forall>i \<in> {1..length js}. n + sum_list (take i js) \<noteq> 0)"

text \<open>
  The events after which the monitor may have returned, with the number of listeners it has tried to
  close: a first signal \<open>SIGTERM\<close>, and nothing closed; a first signal \<open>SIGINT\<close>, and a listener that does not
  close, the first such; or \<open>SIGINT\<close>, all listeners closed, and then a second signal or a report that
  leaves no handler, the first such.
\<close>

definition may_return :: "error option list \<Rightarrow> mon_event list \<Rightarrow> nat \<Rightarrow> bool" where
  "may_return closing evs n \<longleftrightarrow>
     (\<exists>ks. evs = map Handlers ks @ [Signal SIGTERM] \<and> n = 0) \<or>
     (\<exists>ks i. evs = map Handlers ks @ [Signal SIGINT] \<and> n = Suc i \<and>
        i < length closing \<and> closing ! i \<noteq> None \<and> (\<forall>j < i. closing ! j = None)) \<or>
     (\<exists>ks js ev. evs = map Handlers ks @ [Signal SIGINT] @ map Handlers js @ [ev] \<and>
        n = length closing \<and> (\<forall>x \<in> set closing. x = None) \<and> stays_busy (sum_list ks) js \<and>
        (\<forall>j. ev = Handlers j \<longrightarrow> sum_list ks + sum_list js + j = 0))"

text \<open>The events after which it still waits: no signal yet, or \<open>SIGINT\<close> and all listeners closed.\<close>

definition may_wait :: "error option list \<Rightarrow> mon_event list \<Rightarrow> nat \<Rightarrow> bool" where
  "may_wait closing evs n \<longleftrightarrow>
     (\<exists>ks. evs = map Handlers ks \<and> n = 0) \<or>
     (\<exists>ks js. evs = map Handlers ks @ [Signal SIGINT] @ map Handlers js \<and>
        n = length closing \<and> (\<forall>x \<in> set closing. x = None) \<and> stays_busy (sum_list ks) js)"

lemma stays_busy_snoc: "stays_busy n (js @ [j]) \<longleftrightarrow> stays_busy n js \<and> n + sum_list js + j \<noteq> 0"
proof -
  have "{1..Suc (length js)} = insert (Suc (length js)) {1..length js}"
    by auto
  then show ?thesis
    by (auto simp: stays_busy_def algebra_simps)
qed

lemma stays_busy_Nil [simp]: "stays_busy n []"
  by (simp add: stays_busy_def)

subsection \<open>The invariant\<close>

text \<open>In each place of the launching function, the events received so far.\<close>

definition mon_inv :: "error option list \<Rightarrow> TermMonitor \<Rightarrow> bool" where
  "mon_inv closing m \<longleftrightarrow>
     (case mon_pc m of
        MonStart \<Rightarrow> received m = [] \<and> numHandlers m = 0 \<and> nclosed m = 0
      | MonFirst \<Rightarrow> (\<exists>ks. received m = map Handlers ks \<and> numHandlers m = sum_list ks) \<and> nclosed m = 0
      | MonClosing rest \<Rightarrow>
          (\<exists>ks. received m = map Handlers ks @ [Signal SIGINT] \<and> numHandlers m = sum_list ks) \<and>
          closing = replicate (nclosed m) None @ rest
      | MonLast \<Rightarrow>
          (\<exists>ks js. received m = map Handlers ks @ [Signal SIGINT] @ map Handlers js \<and>
             numHandlers m = sum_list ks + sum_list js \<and> stays_busy (sum_list ks) js) \<and>
          closing = replicate (nclosed m) None
      | MonReturned \<Rightarrow> may_return closing (received m) (nclosed m))"

lemma mon_inv_frame:
  "mon_inv closing (m\<lparr>poller := x\<rparr>) = mon_inv closing m" "mon_inv closing (m\<lparr>parent := y\<rparr>) = mon_inv closing m"
  "mon_inv closing (m\<lparr>dropped := z\<rparr>) = mon_inv closing m"
  "waiting (m\<lparr>parent := y\<rparr>) = waiting m"
  by (simp_all add: mon_inv_def waiting_def cong: mon_pc.case_cong)

lemma mon_inv_lastI:
  assumes "mon_pc m = MonLast" "received m = map Handlers ks @ [Signal SIGINT] @ map Handlers js"
    "numHandlers m = sum_list ks + sum_list js" "stays_busy (sum_list ks) js" "closing = replicate (nclosed m) None"
  shows "mon_inv closing m"
  using assms unfolding mon_inv_def by auto

lemma receive_first_inv:
  assumes "mon_inv closing m" "mon_pc m = MonFirst"
  shows "mon_inv closing (mon_receive closing ev m)"
proof -
  obtain ks where ks: "received m = map Handlers ks" "numHandlers m = sum_list ks" "nclosed m = 0"
    using assms by (auto simp: mon_inv_def)
  show ?thesis
  proof (cases ev)
    case (Handlers k)
    then show ?thesis
      using assms(2) ks by (auto simp: mon_inv_def mon_receive_def intro!: exI [of _ "ks @ [k]"])
  next
    case (Signal sig)
    then show ?thesis
      using assms(2) ks by (cases sig) (auto simp: mon_inv_def mon_receive_def may_return_def)
  qed
qed

lemma receive_last_inv:
  assumes "mon_inv closing m" "mon_pc m = MonLast"
  shows "mon_inv closing (mon_receive closing ev m)"
proof -
  obtain ks js where r: "received m = map Handlers ks @ [Signal SIGINT] @ map Handlers js"
    "numHandlers m = sum_list ks + sum_list js" "stays_busy (sum_list ks) js" "closing = replicate (nclosed m) None"
    using assms by (auto simp: mon_inv_def)
  have fin: "mon_inv closing (mon_receive closing ev m)" if "\<forall>j. ev = Handlers j \<longrightarrow> sum_list ks + sum_list js + j = 0"
  proof -
    have "mon_pc (mon_receive closing ev m) = MonReturned"
      using that assms(2) r(2) by (cases ev) (auto simp: mon_receive_def)
    moreover have "received (mon_receive closing ev m) = received m @ [ev]" "nclosed (mon_receive closing ev m) = nclosed m"
      by (simp_all add: mon_receive_def split: prod.splits)
    moreover have "may_return closing (received m @ [ev]) (nclosed m)"
      unfolding may_return_def using r that by (intro disjI2 exI [of _ ks] exI [of _ js] exI [of _ ev]) (auto simp del: replicate_Suc)
    ultimately show ?thesis
      by (simp add: mon_inv_def)
  qed
  show ?thesis
  proof (cases "\<exists>j. ev = Handlers j \<and> sum_list ks + sum_list js + j \<noteq> 0")
    case True
    then obtain j where "ev = Handlers j" "sum_list ks + sum_list js + j \<noteq> 0"
      by blast
    then show ?thesis
      using assms(2) r by (intro mon_inv_lastI [of _ ks "js @ [j]"]) (simp_all add: mon_receive_def stays_busy_snoc)
  qed (use fin in blast)
qed

lemma mon_receive_inv: "mon_inv closing m \<Longrightarrow> waiting m \<Longrightarrow> mon_inv closing (mon_receive closing ev m)"
  using receive_first_inv receive_last_inv by (auto simp: waiting_def)

lemma launch_step_inv: "launch_step m m' \<Longrightarrow> mon_inv closing m \<Longrightarrow> mon_inv closing m'"
proof (induction rule: launch_step.induct)
  case (mon_close_fails m e es)
  then obtain ks where "received m = map Handlers ks @ [Signal SIGINT]" "closing = replicate (nclosed m) None @ Some e # es"
    by (auto simp: mon_inv_def)
  then show ?case
    by (auto simp: mon_inv_def may_return_def nth_append intro!: exI [of _ "nclosed m"])
next
  case (mon_close m es)
  then show ?case
    by (auto simp: mon_inv_def replicate_append_same)
next
  case (mon_close_done m)
  then obtain ks where "received m = map Handlers ks @ [Signal SIGINT]" "numHandlers m = sum_list ks" "closing = replicate (nclosed m) None"
    by (auto simp: mon_inv_def)
  then show ?case
    by (intro mon_inv_lastI [of _ ks "[]"]) simp_all
qed (auto simp: mon_inv_def)

lemma poll_step_inv: "poll_step closing m m' \<Longrightarrow> mon_inv closing m \<Longrightarrow> mon_inv closing m'"
  by (induction rule: poll_step.induct) (simp_all add: mon_inv_frame mon_receive_inv)

lemma mon_step_inv: "mon_step closing m m' \<Longrightarrow> mon_inv closing m \<Longrightarrow> mon_inv closing m'"
  by (induction rule: mon_step.induct) (simp_all add: launch_step_inv poll_step_inv)

lemma notify_inv: "mon_inv closing m \<Longrightarrow> mon_inv closing (notify closing sig m)"
  by (simp add: notify_def mon_receive_inv mon_inv_frame)

lemma mon_env_inv: "mon_env closing m m' \<Longrightarrow> mon_inv closing m \<Longrightarrow> mon_inv closing m'"
  by (induction rule: mon_env.induct) (simp_all add: notify_inv mon_receive_inv mon_inv_frame)

lemma mon_reach_inv: "mon_reach closing (NewTermMonitor osInit goos p) m \<Longrightarrow> mon_inv closing m"
proof (induction rule: mon_reach.induct)
  case mon_init
  then show ?case
    by (simp add: mon_inv_def NewTermMonitor_def)
qed (auto intro: mon_step_inv mon_env_inv)

lemma mon_inv_returned: "mon_inv closing m \<Longrightarrow> mon_pc m = MonReturned \<Longrightarrow> may_return closing (received m) (nclosed m)"
  by (simp add: mon_inv_def)

lemma mon_inv_waits: "mon_inv closing m \<Longrightarrow> waiting m \<Longrightarrow> may_wait closing (received m) (nclosed m)"
  unfolding waiting_def mon_inv_def may_wait_def by (elim disjE; simp) (metis in_set_replicate length_replicate)+

text \<open>The functions keep the same contract, so they describe the monitor among its senders.\<close>

lemma Wait_True:
  "stays_busy n js \<Longrightarrow> Wait True n (map Handlers js @ es) = Wait True (n + sum_list js) es"
proof (induction js arbitrary: n es rule: rev_induct)
  case (snoc j js)
  then show ?case
    using snoc.IH [of n "Handlers j # es"] by (auto simp: stays_busy_snoc algebra_simps)
qed simp

lemma closing_replicate: "\<forall>x \<in> set closing. x = None \<Longrightarrow> closing = replicate (length closing) None"
  by (simp add: list_eq_iff_nth_eq)

lemma closing_first_error:
  assumes "i < length closing" "closing ! i \<noteq> None" "\<forall>j < i. closing ! j = None"
  shows "close_until_error closing = (Suc i, False)"
proof -
  obtain e where e: "closing ! i = Some e"
    using assms(2) by auto
  have "take i closing = replicate i None"
    using assms(1,3) by (simp add: list_eq_iff_nth_eq)
  then have "closing = replicate i None @ Some e # drop (Suc i) closing"
    using id_take_nth_drop [OF assms(1)] e by simp
  then show ?thesis
    using close_until_error_fails [of i e "drop (Suc i) closing"] by simp
qed

lemma Launch_may_return:
  assumes "may_return closing evs n"
  shows "LaunchTermMonitorForListeners closing evs = (True, n)"
  using assms unfolding may_return_def
proof (elim disjE exE conjE)
  fix ks i
  assume "evs = map Handlers ks @ [Signal SIGINT]" "n = Suc i" "i < length closing" "closing ! i \<noteq> None" "\<forall>j < i. closing ! j = None"
  then show ?thesis
    using closing_first_error [of i closing] by (simp add: LaunchTermMonitorForListeners_def Wait_False)
next
  fix ks js ev
  assume a: "evs = map Handlers ks @ [Signal SIGINT] @ map Handlers js @ [ev]" "n = length closing" "\<forall>x \<in> set closing. x = None"
    "stays_busy (sum_list ks) js" "\<forall>j. ev = Handlers j \<longrightarrow> sum_list ks + sum_list js + j = 0"
  have "Wait True (sum_list ks) (map Handlers js @ [ev]) \<noteq> None"
    using Wait_True [OF a(4), of "[ev]"] a(5) by (cases ev) auto
  then show ?thesis
    using close_until_error_ok [of "length closing"] closing_replicate [OF a(3)] a(1,2)
    by (simp add: LaunchTermMonitorForListeners_def Wait_False)
qed (simp add: LaunchTermMonitorForListeners_def Wait_False)

lemma Launch_may_wait:
  assumes "may_wait closing evs n"
  shows "LaunchTermMonitorForListeners closing evs = (False, n)"
  using assms unfolding may_wait_def
proof (elim disjE exE conjE)
  fix ks js
  assume a: "evs = map Handlers ks @ [Signal SIGINT] @ map Handlers js" "n = length closing" "\<forall>x \<in> set closing. x = None"
    "stays_busy (sum_list ks) js"
  then show ?thesis
    using close_until_error_ok [of "length closing"] closing_replicate [OF a(3)] Wait_True [OF a(4), of "[]"]
    by (simp add: LaunchTermMonitorForListeners_def Wait_False)
qed (simp add: LaunchTermMonitorForListeners_def Wait_False_waits)

subsection \<open>The parent process\<close>

definition poller_inv :: "int \<Rightarrow> TermMonitor \<Rightarrow> bool" where
  "poller_inv p m \<longleftrightarrow> start_ppid m = p \<and> poller m \<noteq> NoPoller \<and> \<not> pdeathsig m \<and> (poller m = PollDone \<longrightarrow> mon_pc m = MonReturned)"

lemma receive_SIGTERM_returns: "waiting m \<Longrightarrow> mon_pc (mon_receive closing (Signal SIGTERM) m) = MonReturned"
  by (auto simp: mon_receive_def waiting_def)

lemma poller_inv_receive: "poller_inv p m \<Longrightarrow> waiting m \<Longrightarrow> poller_inv p (mon_receive closing ev m)"
  by (auto simp: poller_inv_def mon_receive_def waiting_def split: prod.splits)

lemma poller_inv_notify: "poller_inv p m \<Longrightarrow> poller_inv p (notify closing sig m)"
  by (simp add: notify_def poller_inv_receive) (simp add: poller_inv_def)

lemma poller_inv_launch: "launch_step m m' \<Longrightarrow> poller_inv p m \<Longrightarrow> poller_inv p m'"
  by (induction rule: launch_step.induct) (auto simp: poller_inv_def)

lemma poller_inv_poll: "poll_step closing m m' \<Longrightarrow> poller_inv p m \<Longrightarrow> poller_inv p m'"
proof (induction rule: poll_step.induct)
  case (poll_send m)
  then show ?case
    by (simp add: poller_inv_def receive_SIGTERM_returns) (simp add: mon_receive_def)
qed (auto simp: poller_inv_def)

lemma mon_reach_poller:
  assumes "mon_reach closing (NewTermMonitor osInit goos p) m" "osInit \<noteq> Some None" "goos \<noteq> ''windows''"
  shows "poller_inv p m"
  using assms(1)
proof (induction rule: mon_reach.induct)
  case mon_init
  then show ?case
    using assms(2,3) by (simp add: poller_inv_def NewTermMonitor_def)
next
  case (mon_prog m m')
  from mon_prog.hyps(2) mon_prog.IH show ?case
    by (induction rule: mon_step.induct) (simp_all add: poller_inv_launch poller_inv_poll)
next
  case (mon_envs m m')
  from mon_envs.hyps(2) mon_envs.IH show ?case
    by (induction rule: mon_env.induct) (auto simp: poller_inv_receive poller_inv_notify, auto simp: poller_inv_def)
qed

lemma closing_ends:
  "mon_pc m = MonClosing es \<Longrightarrow>
     \<exists>m'. (mon_step closing)\<^sup>*\<^sup>* m m' \<and> (mon_pc m' = MonLast \<or> mon_pc m' = MonReturned) \<and> poller m' = poller m"
proof (induction es arbitrary: m)
  case Nil
  then show ?case
    using mon_steps(4) [of m closing] by (intro exI [of _ "m\<lparr>mon_pc := MonLast\<rparr>"]) auto
next
  case (Cons e es)
  show ?case
  proof (cases e)
    case None
    let ?m = "m\<lparr>mon_pc := MonClosing es, nclosed := Suc (nclosed m)\<rparr>"
    have "mon_step closing m ?m"
      using Cons.prems None by (auto intro: mon_steps(2))
    then show ?thesis
      using Cons.IH [of ?m] by (auto intro: converse_rtranclp_into_rtranclp)
  next
    case (Some x)
    then show ?thesis
      using Cons.prems mon_steps(3) [of m x es closing]
      by (intro exI [of _ "m\<lparr>mon_pc := MonReturned, nclosed := Suc (nclosed m)\<rparr>"]) auto
  qed
qed

lemma sender_returns:
  assumes "poller m = PollSend"
  shows "\<exists>m'. (mon_step closing)\<^sup>*\<^sup>* m m' \<and> mon_pc m' = MonReturned"
proof -
  have send: "\<exists>m''. (mon_step closing)\<^sup>*\<^sup>* m' m'' \<and> mon_pc m'' = MonReturned" if "waiting m'" "poller m' = PollSend" for m'
    using mon_steps(6) [OF that(2,1), of closing] receive_SIGTERM_returns [OF that(1), of closing]
    by (intro exI [of _ "(mon_receive closing (Signal SIGTERM) m')\<lparr>poller := PollDone\<rparr>"]) auto
  show ?thesis
  proof (cases "mon_pc m")
    case MonStart
    then have "mon_step closing m (m\<lparr>mon_pc := MonFirst\<rparr>)"
      by (rule mon_steps(1))
    then show ?thesis
      using send [of "m\<lparr>mon_pc := MonFirst\<rparr>"] assms by (auto simp: waiting_def intro: converse_rtranclp_into_rtranclp)
  next
    case (MonClosing es)
    then show ?thesis
      using closing_ends [of m es closing] send assms by (metis waiting_def rtranclp_trans)
  qed (use send [of m] assms in \<open>auto simp: waiting_def\<close>)
qed

lemma missed_parent_death:
  assumes "p \<noteq> q"
  shows "\<exists>k. mon_reach [] (NewTermMonitor (Some None) ''linux'' p) k \<and> parent k = q \<and> dropped k = [SIGTERM] \<and>
    mon_pc k = MonLast \<and> (\<forall>k'. \<not> mon_step [] k k')"
proof -
  let ?m0 = "NewTermMonitor (Some None) ''linux'' p"
  let ?m1 = "?m0\<lparr>mon_pc := MonFirst\<rparr>"
  let ?m2 = "notify [] SIGINT ?m1"
  let ?m3 = "notify [] SIGTERM (?m2\<lparr>parent := q\<rparr>)"
  let ?m4 = "?m3\<lparr>mon_pc := MonLast\<rparr>"
  have eval: "mon_pc ?m0 = MonStart" "mon_pc ?m1 = MonFirst" "pdeathsig ?m2" "parent ?m2 = p" "mon_pc ?m3 = MonClosing []"
    "parent ?m3 = q" "dropped ?m3 = [SIGTERM]" "poller ?m3 = NoPoller"
    by (simp_all add: NewTermMonitor_def notify_def mon_receive_def waiting_def)
  have "mon_reach [] ?m0 ?m1"
    using mon_reach.mon_init mon_steps(1) [OF eval(1)] by (rule mon_reach.mon_prog)
  then have "mon_reach [] ?m0 ?m2"
    by (rule mon_reach.mon_envs) (rule mon_env.env_signal, simp)
  then have "mon_reach [] ?m0 ?m3"
    by (rule mon_reach.mon_envs) (rule mon_env.env_parent_signals, use eval assms in auto)
  then have "mon_reach [] ?m0 ?m4"
    by (rule mon_reach.mon_prog) (rule mon_steps(4), rule eval(5))
  moreover have "\<not> mon_step [] ?m4 m'" for m'
    using eval(8) by (auto elim!: mon_step.cases launch_stepE poll_stepE)
  ultimately show ?thesis
    using eval(6,7) by (intro exI [of _ ?m4]) simp
qed

subsection \<open>Properties\<close>

text \<open>
  C28: What the monitor does with the events it receives, whatever signals, handlers and the parent
  process do around it.  A monitor that has returned received, after reports of handlers only,
  either \<open>SIGTERM\<close>, and closed nothing; or \<open>SIGINT\<close>, and stopped at the first listener that does not close;
  or \<open>SIGINT\<close>, closed every listener, and then received a second signal or the first report that left
  no handler running.  One that waits has received no signal and closed nothing, or has received one
  \<open>SIGINT\<close>, closed every listener, and had no report since that left no handler running.
\<close>

theorem monitor_contract:
  assumes "mon_reach closing (NewTermMonitor osInit goos p) m"
  shows "(mon_pc m = MonReturned \<longrightarrow>
      (\<exists>ks. received m = map Handlers ks @ [Signal SIGTERM] \<and> nclosed m = 0) \<or>
      (\<exists>ks i. received m = map Handlers ks @ [Signal SIGINT] \<and> nclosed m = Suc i \<and>
         i < length closing \<and> closing ! i \<noteq> None \<and> (\<forall>j < i. closing ! j = None)) \<or>
      (\<exists>ks js ev. received m = map Handlers ks @ [Signal SIGINT] @ map Handlers js @ [ev] \<and>
         nclosed m = length closing \<and> (\<forall>x \<in> set closing. x = None) \<and>
         (\<forall>i \<in> {1..length js}. sum_list ks + sum_list (take i js) \<noteq> 0) \<and>
         (\<forall>j. ev = Handlers j \<longrightarrow> sum_list ks + sum_list js + j = 0))) \<and>
    (waiting m \<longrightarrow>
      (\<exists>ks. received m = map Handlers ks \<and> nclosed m = 0) \<or>
      (\<exists>ks js. received m = map Handlers ks @ [Signal SIGINT] @ map Handlers js \<and>
         nclosed m = length closing \<and> (\<forall>x \<in> set closing. x = None) \<and>
         (\<forall>i \<in> {1..length js}. sum_list ks + sum_list (take i js) \<noteq> 0)))"
proof -
  have "mon_pc m = MonReturned \<longrightarrow> may_return closing (received m) (nclosed m)" "waiting m \<longrightarrow> may_wait closing (received m) (nclosed m)"
    using mon_reach_inv [OF assms] mon_inv_returned mon_inv_waits by blast+
  then show ?thesis
    unfolding may_return_def may_wait_def stays_busy_def ..
qed

theorem monitor_contract_witness:
  "\<exists>m. mon_reach [Some EOF, None] (NewTermMonitor (Some None) ''linux'' 7) m \<and> mon_pc m = MonReturned \<and>
     received m = [Handlers 1, Signal SIGINT] \<and> nclosed m = 1"
proof -
  let ?cs = "[Some EOF, None]"
  let ?m0 = "NewTermMonitor (Some None) ''linux'' 7"
  let ?m1 = "?m0\<lparr>mon_pc := MonFirst\<rparr>"
  let ?m2 = "mon_receive ?cs (Handlers 1) ?m1"
  let ?m3 = "notify ?cs SIGINT ?m2"
  let ?m4 = "?m3\<lparr>mon_pc := MonReturned, nclosed := Suc (nclosed ?m3)\<rparr>"
  have eval: "mon_pc ?m2 = MonFirst" "mon_pc ?m3 = MonClosing ?cs" "received ?m4 = [Handlers 1, Signal SIGINT]"
    by (simp_all add: NewTermMonitor_def notify_def mon_receive_def waiting_def)
  have "mon_reach ?cs ?m0 ?m1"
    by (rule mon_reach.mon_prog [OF mon_reach.mon_init mon_steps(1)]) (simp add: NewTermMonitor_def)
  then have "mon_reach ?cs ?m0 ?m2"
    by (rule mon_reach.mon_envs) (rule mon_env.env_handler, simp_all add: waiting_def OnHandlerStart_def)
  then have "mon_reach ?cs ?m0 ?m3"
    by (rule mon_reach.mon_envs) (rule mon_env.env_signal, simp add: eval)
  then have r: "mon_reach ?cs ?m0 ?m4"
    by (rule mon_reach.mon_prog) (rule mon_steps(3), rule eval(2))
  have "nclosed ?m4 = 1"
    using monitor_contract [OF r] eval(3) by (auto simp: Cons_eq_append_conv append_eq_Cons_conv less_Suc_eq_0_disj)
  then show ?thesis
    using r eval(3) by (intro exI [of _ ?m4] conjI) simp_all
qed

text \<open>In these terms the monitor among its senders does what the function does on the events received.\<close>

lemma monitor_refines_launch:
  assumes "mon_reach closing (NewTermMonitor osInit goos p) m"
  shows "mon_pc m = MonReturned \<Longrightarrow> LaunchTermMonitorForListeners closing (received m) = (True, nclosed m)"
    and "waiting m \<Longrightarrow> LaunchTermMonitorForListeners closing (received m) = (False, nclosed m)"
  using mon_reach_inv [OF assms] mon_inv_returned mon_inv_waits Launch_may_return Launch_may_wait by blast+

text \<open>
  C34: The end of the parent process.  With the polling goroutine it is never missed: a monitor that has
  not returned when the parent changed can return by its own steps alone, in every reachable state,
  and the goroutine's signal is only ever taken by a monitor that then returns.  With the
  parent-death signal of \<^verbatim>\<open>prctl\<close> it can be missed: the signal finds the unbuffered channel without a
  receiver while listeners are closed, and the monitor is left in its second wait with no step of
  its own, the parent gone.
\<close>

theorem parent_death_seen_or_missed:
  assumes "mon_reach closing (NewTermMonitor (Some (Some e)) ''linux'' p) m" "parent m \<noteq> p"
  shows "(poller m = PollDone \<longrightarrow> mon_pc m = MonReturned) \<and>
    (\<exists>m'. (mon_step closing)\<^sup>*\<^sup>* m m' \<and> mon_pc m' = MonReturned) \<and>
    (\<exists>k. mon_reach [] (NewTermMonitor (Some None) ''linux'' p) k \<and> parent k = parent m \<and>
       dropped k = [SIGTERM] \<and> mon_pc k = MonLast \<and> (\<forall>k'. \<not> mon_step [] k k'))"
proof -
  have i: "poller_inv p m"
    using assms(1) by (rule mon_reach_poller) simp_all
  have "\<exists>m'. (mon_step closing)\<^sup>*\<^sup>* m m' \<and> mon_pc m' = MonReturned"
  proof (cases "poller m")
    case Polling
    then have "mon_step closing m (m\<lparr>poller := PollSend\<rparr>)"
      using i assms(2) by (auto simp: poller_inv_def intro: mon_steps(5))
    then show ?thesis
      using sender_returns [of "m\<lparr>poller := PollSend\<rparr>" closing] by (auto intro: converse_rtranclp_into_rtranclp)
  qed (use i sender_returns [of m closing] in \<open>auto simp: poller_inv_def\<close>)
  then show ?thesis
    using i missed_parent_death [of p "parent m"] assms(2) by (simp add: poller_inv_def)
qed

theorem parent_death_seen_or_missed_witness:
  "\<exists>m'. (mon_step [None])\<^sup>*\<^sup>* ((NewTermMonitor (Some (Some EOF)) ''linux'' 7)\<lparr>parent := 1\<rparr>) m' \<and> mon_pc m' = MonReturned"
proof -
  let ?m = "NewTermMonitor (Some (Some EOF)) ''linux'' 7"
  have "mon_env [None] ?m (?m\<lparr>parent := 1\<rparr>)"
    by (rule mon_env.env_parent_exits) (simp_all add: NewTermMonitor_def)
  then have "mon_reach [None] ?m (?m\<lparr>parent := 1\<rparr>)"
    by (rule mon_reach.mon_envs [OF mon_reach.mon_init])
  from parent_death_seen_or_missed [OF this] show ?thesis
    by simp
qed

end
