(* ===== verification/Entry_Point.thy ===== *)
theory Entry_Point
  imports Launch Term_Monitor
begin

text \<open>
  The process from its arguments to its end (\<^verbatim>\<open>main/ptbridge.go\<close>): the four flags as \<^verbatim>\<open>flag.Parse\<close> reads
  them, the two modes that print and exit, the internal SOCKS service, and the listeners that \<^verbatim>\<open>main\<close>
  hands to the terminal monitor.
\<close>

subsection \<open>Flags\<close>

record flags =
  f_version :: bool
  f_genCert :: bool
  f_configPath :: string
  f_workingDirectory :: string

definition default_flags :: flags where
  "default_flags = \<lparr>f_version = False, f_genCert = False, f_configPath = ''./config.json'', f_workingDirectory = ''./''\<rparr>"

definition ParseBool :: "string \<Rightarrow> bool option" where
  "ParseBool s =
     (if s \<in> {''1'', ''t'', ''T'', ''true'', ''TRUE'', ''True''} then Some True
      else if s \<in> {''0'', ''f'', ''F'', ''false'', ''FALSE'', ''False''} then Some False
      else None)"

text \<open>The name and the value of a flag word without its dashes; an equals sign cannot be first.\<close>

definition flag_word :: "string \<Rightarrow> string \<times> string option" where
  "flag_word s =
     (case s of
        [] \<Rightarrow> ([], None)
      | c # cs \<Rightarrow> (case split_first CHR ''='' cs of None \<Rightarrow> (c # cs, None) | Some (n, v) \<Rightarrow> (c # n, Some v)))"

definition set_bool :: "string \<Rightarrow> bool \<Rightarrow> flags \<Rightarrow> flags" where
  "set_bool name b f = (if name = ''version'' then f\<lparr>f_version := b\<rparr> else f\<lparr>f_genCert := b\<rparr>)"

definition set_string :: "string \<Rightarrow> string \<Rightarrow> flags \<Rightarrow> flags" where
  "set_string name v f = (if name = ''c'' then f\<lparr>f_configPath := v\<rparr> else f\<lparr>f_workingDirectory := v\<rparr>)"

text \<open>
  \<^verbatim>\<open>flag.Parse\<close> with \<^verbatim>\<open>ExitOnError\<close>: the flags, or the exit code, which is 0 for a request for help and 2
  for an error.
\<close>

fun parse_flags :: "string list \<Rightarrow> flags \<Rightarrow> nat + flags" where
  "parse_flags [] f = Inr f"
| "parse_flags (s # args) f =
     (if length s < 2 \<or> hd s \<noteq> CHR ''-'' then Inr f
      else if s = ''--'' then Inr f
      else
        let body = drop (if s ! 1 = CHR ''-'' then 2 else 1) s in
        if body = [] \<or> hd body = CHR ''-'' \<or> hd body = CHR ''='' then Inl 2
        else
          (case flag_word body of (name, val) \<Rightarrow>
             if name \<in> {''version'', ''gencert''} then
               (case val of
                  None \<Rightarrow> parse_flags args (set_bool name True f)
                | Some v \<Rightarrow> (case ParseBool v of None \<Rightarrow> Inl 2 | Some b \<Rightarrow> parse_flags args (set_bool name b f)))
             else if name \<in> {''c'', ''d''} then
               (case val of
                  Some v \<Rightarrow> parse_flags args (set_string name v f)
                | None \<Rightarrow> (case args of [] \<Rightarrow> Inl 2 | v # args' \<Rightarrow> parse_flags args' (set_string name v f)))
             else if name \<in> {''help'', ''h''} then Inl 0
             else Inl 2))"

subsection \<open>Printing an identity\<close>

abbreviation dquote :: char where "dquote \<equiv> CHR 0x22"

abbreviation backslash :: char where "backslash \<equiv> CHR 0x5C"

text \<open>
  \<^verbatim>\<open>strconv.Quote\<close> on ASCII text; \<open>None\<close> beyond it, where the result depends on the Unicode tables.
\<close>

definition quote_char :: "char \<Rightarrow> string option" where
  "quote_char c =
     (let n = of_char c :: nat in
      if c = dquote \<or> c = backslash then Some [backslash, c]
      else if 32 \<le> n \<and> n < 127 then Some [c]
      else if n = 7 then Some (backslash # ''a'')
      else if n = 8 then Some (backslash # ''b'')
      else if n = 12 then Some (backslash # ''f'')
      else if n = 10 then Some (backslash # ''n'')
      else if n = 13 then Some (backslash # ''r'')
      else if n = 9 then Some (backslash # ''t'')
      else if n = 11 then Some (backslash # ''v'')
      else if n < 128 then Some (backslash # ''x'' @ [digit_char (n div 16), digit_char (n mod 16)])
      else None)"

fun quote_chars :: "string \<Rightarrow> string option" where
  "quote_chars [] = Some []"
| "quote_chars (c # s) =
     (case quote_char c of None \<Rightarrow> None | Some q \<Rightarrow> map_option (\<lambda>r. q @ r) (quote_chars s))"

definition Quote :: "string \<Rightarrow> string option" where
  "Quote s = map_option (\<lambda>q. [dquote] @ q @ [dquote]) (quote_chars s)"

text \<open>The exit code and the lines printed; \<open>None\<close> where \<open>Quote\<close> is.\<close>

definition printGeneratedCert :: "error + string \<times> string \<Rightarrow> (nat \<times> string list) option" where
  "printGeneratedCert gen =
     (case gen of
        Inl e \<Rightarrow> Some (1, [''Failed to generate certificate:''])
      | Inr (cert, privateKey) \<Rightarrow>
          (case (Quote cert, Quote privateKey) of
             (Some qc, Some qk) \<Rightarrow>
               Some (0, [''New obfs4 certificate generated. Add these fields to a server entry:'',
                         ''  '' @ [dquote] @ ''cert'' @ [dquote] @ '': '' @ qc @ '','',
                         ''  '' @ [dquote] @ ''private-key'' @ [dquote] @ '': '' @ qk])
           | _ \<Rightarrow> None))"

definition APP_VERSION :: string where "APP_VERSION = ''1.4.3''"

definition version_lines :: "string list" where
  "version_lines =
     [''PT Bridge - obfs2-4 standalone proxy.'', ''Version: '' @ APP_VERSION, ''github: https://github.com/lord-aali/pt-bridge'']"

subsection \<open>The process\<close>

text \<open>How a run of the process up to the monitor ends; \<open>Monitors\<close> has the value of \<^verbatim>\<open>PWD\<close> as well.\<close>

datatype process_state = Exits nat "string list" | Monitors string main_state files

text \<open>
  \<^verbatim>\<open>main\<close> on its arguments.  \<open>run\<close> is what follows the flags, on the path of the configuration file
  (\<^const>\<open>main\<close> of the launchers); \<open>None\<close> is a run that does not get that far.
\<close>

definition process :: "(string \<Rightarrow> (main_state \<times> files) outcome option) \<Rightarrow> error + string \<times> string \<Rightarrow> string list \<Rightarrow> process_state option" where
  "process run gen args =
     (case parse_flags args default_flags of
        Inl code \<Rightarrow> Some (Exits code [])
      | Inr f \<Rightarrow>
          if f_version f then Some (Exits 0 version_lines)
          else if f_genCert f then map_option (\<lambda>(code, ls). Exits code ls) (printGeneratedCert gen)
          else
            map_option (\<lambda>r. case r of Fatal m \<Rightarrow> Exits 1 [m] | Proceed (ms, fs) \<Rightarrow> Monitors (f_workingDirectory f) ms fs)
              (run (f_configPath f)))"

text \<open>
  \<^verbatim>\<open>ServeSocks5\<close> on the address \<^verbatim>\<open>runInternalSocks\<close> chose: the SOCKS library listens and serves until an
  error, and the error ends the process.
\<close>

definition ServeSocks5 :: "(string \<Rightarrow> error option) \<Rightarrow> string \<Rightarrow> unit outcome" where
  "ServeSocks5 listenAndServe address =
     (case listenAndServe address of Some e \<Rightarrow> Fatal ''Socks5 server listen err:'' | None \<Rightarrow> Proceed ())"

text \<open>
  The proxy server of a DPI client, and its SOCKS side: the SOCKS library serves on the configured
  address with the tunnelled resolver and dials through the transport; an error of listening or
  serving ends the process.
\<close>

record ProxyServer =
  ps_transport :: Transport
  ps_socksAddr :: string
  ps_httpAddr :: string
  ps_dnsUpstream :: string
  ps_dnsNetwork :: string

definition NewProxyServer :: "dpi_client \<Rightarrow> ProxyServer" where
  "NewProxyServer cfg =
     \<lparr>ps_transport = dc_transport cfg, ps_socksAddr = dc_socksAddr cfg, ps_httpAddr = dc_httpAddr cfg,
      ps_dnsUpstream = dc_dnsUpstream cfg, ps_dnsNetwork = dc_dnsNetwork cfg\<rparr>"

definition serveSOCKS :: "(tunneledResolver \<Rightarrow> Transport \<Rightarrow> string \<Rightarrow> error option) \<Rightarrow> ProxyServer \<Rightarrow> unit outcome" where
  "serveSOCKS listenAndServe p =
     (let resolver = newTunneledResolver (ps_dnsNetwork p) (ps_dnsUpstream p)
      in case listenAndServe resolver (ps_transport p) (ps_socksAddr p) of
           Some e \<Rightarrow> Fatal ''[Client] SOCKS5''
         | None \<Rightarrow> Proceed ())"

text \<open>
  The listeners that \<^verbatim>\<open>main\<close> collects, as the error of binding each, and what closing each returns:
  the nil listener left by a failed bind is an invalid argument, one whose accept loop has ended is
  closed already, and an open one closes.
\<close>

fun listeners_of :: "launch \<Rightarrow> error option list" where
  "listeners_of (ObfsServerLaunch tag info e) = [e]"
| "listeners_of (ObfsClientLaunch tag loops) = map (\<lambda>_. None) loops"
| "listeners_of _ = []"

definition main_listeners :: "main_state \<Rightarrow> error option list" where
  "main_listeners ms = concat (map listeners_of (launches ms))"

definition EINVAL :: error where "EINVAL = NetErr False ''invalid argument''"

definition close_listener :: "error option \<Rightarrow> bool \<Rightarrow> error option" where
  "close_listener bind loopEnded = (if bind \<noteq> None then Some EINVAL else if loopEnded then Some ErrClosed else None)"

definition closings :: "bool list \<Rightarrow> main_state \<Rightarrow> error option list" where
  "closings ended ms = map (\<lambda>(b, e). close_listener b e) (zip (main_listeners ms) ended)"

subsection \<open>Facts\<close>

lemma parse_config_flag:
  "parse_flags [''-c'', path] f = Inr (f\<lparr>f_configPath := path\<rparr>)"
  "parse_flags [''-c='' @ path] f = Inr (f\<lparr>f_configPath := path\<rparr>)"
  by (simp_all add: flag_word_def set_string_def)

text \<open>The flag \<^verbatim>\<open>-d\<close> sets a variable of the environment and nothing else: no path is resolved against it.\<close>

lemma working_directory_only_sets_PWD:
  "process run gen [''-d'', dir] =
     map_option (\<lambda>p. case p of Monitors pwd ms fs \<Rightarrow> Monitors dir ms fs | Exits code ls \<Rightarrow> Exits code ls) (process run gen [])"
  by (auto simp: process_def flag_word_def set_string_def default_flags_def option.map_comp comp_def
      split: outcome.splits intro!: option.map_cong)

text \<open>
  A DPI client whose SOCKS port is taken is reported as started, since only the HTTP listener is
  opened before \<^verbatim>\<open>Run\<close> returns, and then ends the process.
\<close>

lemma taken_socks_port_ends_process:
  assumes "launchDpiClient parse lookup enc listen c = Some d" "dc_httpAddr d \<noteq> dc_socksAddr d"
  shows "launchDpiClient parse lookup enc (listen(dc_socksAddr d := Some e)) c = Some d \<and>
    serveSOCKS (\<lambda>r t. listen(dc_socksAddr d := Some e)) (NewProxyServer d) = Fatal ''[Client] SOCKS5''"
  using assms
  by (auto simp: launchDpiClient_def serveSOCKS_def NewProxyServer_def run_proxy_def Let_def split: if_splits sum.splits option.splits)

definition json_plain :: "char \<Rightarrow> bool" where
  "json_plain c \<longleftrightarrow> c \<noteq> dquote \<and> c \<noteq> backslash \<and> 32 \<le> (of_char c :: nat) \<and> (of_char c :: nat) < 127"

lemma quote_chars_plain: "list_all json_plain s \<Longrightarrow> quote_chars s = Some s"
  by (induction s) (auto simp: quote_char_def json_plain_def Let_def)

lemma Quote_plain: "list_all json_plain s \<Longrightarrow> Quote s = Some ([dquote] @ s @ [dquote])"
  by (simp add: Quote_def quote_chars_plain)

definition hex_digits :: string where "hex_digits = ''0123456789abcdef''"

lemma plain_alphabets: "list_all json_plain (CHR ''='' # alphabet @ hex_digits)"
  by code_simp

lemma cert_plain: "c \<in> set (encodeObfs4Cert nodeID public) \<Longrightarrow> json_plain c"
proof -
  assume "c \<in> set (encodeObfs4Cert nodeID public)"
  then have "c \<in> set (EncodeToString (nodeID @ public))"
    by (auto simp: encodeObfs4Cert_def TrimSuffix_def split: if_splits dest: in_set_takeD)
  then show ?thesis
    using set_EncodeToString [of "nodeID @ public"] plain_alphabets by (auto simp: list_all_iff)
qed

subsection \<open>Properties\<close>

text \<open>
  C27: What \<^verbatim>\<open>-gencert\<close> prints can be used as it stands.  Run with that flag, the process prints the generated
  certificate and key as JSON fields and exits with code 0; the quoted texts contain nothing that
  JSON or \<^verbatim>\<open>strconv.Quote\<close> would escape, so the fields denote exactly the identity, and a server entry
  with them gets the transport arguments of the generated node id and private key.
\<close>

theorem gencert_output_usable:
  assumes "parse_flags args default_flags = Inr f" "f_genCert f" "\<not> f_version f"
    and "newNodeID rawID = Inr nodeID" "length nodeID = NodeIDLength" "length public = PublicKeyLength"
    and "private \<noteq> []" "set private \<subseteq> set hex_digits"
  shows "\<exists>cert. process run (GenerateIdentity (Inr rawID) newNodeID (Inr (public, private))) args =
      Some (Exits 0
        [''New obfs4 certificate generated. Add these fields to a server entry:'',
         ''  '' @ [dquote] @ ''cert'' @ [dquote] @ '': '' @ [dquote] @ cert @ [dquote] @ '','',
         ''  '' @ [dquote] @ ''private-key'' @ [dquote] @ '': '' @ [dquote] @ private @ [dquote]]) \<and>
    list_all json_plain (cert @ private) \<and> cert \<noteq> [] \<and>
    obfs4ArgsFromConfig (Inr seed) cert private =
      Inr [(''node-id'', hex_string nodeID), (''private-key'', private), (''drbg-seed'', seed), (''iat-mode'', ''0'')]"
proof -
  let ?cert = "encodeObfs4Cert nodeID public"
  have "list_all json_plain ?cert" "list_all json_plain private"
    using cert_plain plain_alphabets assms(8) by (auto simp: list_all_iff)
  then have "process run (GenerateIdentity (Inr rawID) newNodeID (Inr (public, private))) args =
      Some (Exits 0
        [''New obfs4 certificate generated. Add these fields to a server entry:'',
         ''  '' @ [dquote] @ ''cert'' @ [dquote] @ '': '' @ [dquote] @ ?cert @ [dquote] @ '','',
         ''  '' @ [dquote] @ ''private-key'' @ [dquote] @ '': '' @ [dquote] @ private @ [dquote]]) \<and> list_all json_plain (?cert @ private)"
    using assms(1-4) by (simp add: process_def GenerateIdentity_def printGeneratedCert_def Quote_plain)
  then show ?thesis
    using obfs4Args_of_cert [OF assms(5-7)] encodeObfs4Cert_nonempty [OF assms(5,6)] by (intro exI [of _ ?cert]) simp
qed

theorem gencert_output_usable_witness:
  "\<exists>cert ls. process (\<lambda>_. None) (GenerateIdentity (Inr (replicate 20 1)) Inr (Inr (replicate 32 2, ''ab''))) [''--gencert=true''] = Some (Exits 0 ls) \<and>
     cert \<noteq> [] \<and> ls ! 1 = ''  '' @ [dquote] @ ''cert'' @ [dquote] @ '': '' @ [dquote] @ cert @ [dquote] @ '',''"
proof -
  have f: "parse_flags [''--gencert=true''] default_flags = Inr (default_flags\<lparr>f_genCert := True\<rparr>)"
    by (simp add: flag_word_def ParseBool_def set_bool_def)
  obtain cert where "process (\<lambda>_. None) (GenerateIdentity (Inr (replicate 20 1)) Inr (Inr (replicate 32 2, ''ab''))) [''--gencert=true''] =
      Some (Exits 0
        [''New obfs4 certificate generated. Add these fields to a server entry:'',
         ''  '' @ [dquote] @ ''cert'' @ [dquote] @ '': '' @ [dquote] @ cert @ [dquote] @ '','',
         ''  '' @ [dquote] @ ''private-key'' @ [dquote] @ '': '' @ [dquote] @ ''ab'' @ [dquote]])" "cert \<noteq> []"
    using gencert_output_usable [OF f, of Inr "replicate 20 1" "replicate 20 1" "replicate 32 2" "''ab''" "\<lambda>_. None" "[]"]
    by (auto simp: default_flags_def NodeIDLength_def PublicKeyLength_def hex_digits_def)
  then show ?thesis
    by (intro exI conjI) auto
qed

text \<open>
  What one interrupt does to a running process.  When the monitor over the listeners that
  \<^verbatim>\<open>main\<close> collected has received a single \<open>SIGINT\<close> and dealt with it, the process has ended exactly if some listener
  does not close, because its port could not be bound or its accept loop has ended; it then stopped
  at the first such listener.  Otherwise every listener is closed and the process waits on.
\<close>

theorem interrupt_ends_process_iff:
  assumes "length ended = length (main_listeners ms)"
    and "mon_reach (closings ended ms) (NewTermMonitor osInit goos p) m" "received m = [Signal SIGINT]"
      "mon_pc m = MonLast \<or> mon_pc m = MonReturned"
  shows "(mon_pc m = MonReturned \<longleftrightarrow> (\<exists>i < length ended. main_listeners ms ! i \<noteq> None \<or> ended ! i)) \<and>
    nclosed m \<le> length ended \<and> (mon_pc m = MonLast \<longrightarrow> nclosed m = length ended) \<and>
    (mon_pc m = MonReturned \<longrightarrow> main_listeners ms ! (nclosed m - 1) \<noteq> None \<or> ended ! (nclosed m - 1))"
proof -
  let ?cs = "closings ended ms"
  have len: "length ?cs = length ended"
    using assms(1) by (simp add: closings_def)
  have bad: "?cs ! i \<noteq> None \<longleftrightarrow> main_listeners ms ! i \<noteq> None \<or> ended ! i" if "i < length ended" for i
    using assms(1) that by (simp add: closings_def close_listener_def)
  have inv: "mon_inv ?cs m"
    using assms(2) by (rule mon_reach_inv)
  show ?thesis
  proof (cases "mon_pc m = MonReturned")
    case True
    then obtain i where "i < length ?cs" "?cs ! i \<noteq> None" "nclosed m = Suc i"
      using mon_inv_returned [OF inv] assms(3) by (auto simp: may_return_def Cons_eq_append_conv)
    then show ?thesis
      using True bad [of i] len by auto
  next
    case False
    then have "mon_pc m = MonLast"
      using assms(4) by simp
    then have n: "?cs = replicate (nclosed m) None"
      using inv by (simp add: mon_inv_def)
    then have "length ended = nclosed m" "?cs ! i = None" if "i < length ended" for i
      using len that by (metis length_replicate, metis length_replicate nth_replicate)
    then show ?thesis
      using False bad n len by (metis diff_is_0_eq length_replicate order_refl)
  qed
qed

theorem interrupt_ends_process_iff_witness:
  "\<exists>m. mon_reach [None] (NewTermMonitor (Some None) ''linux'' 7) m \<and> received m = [Signal SIGINT] \<and> mon_pc m = MonLast \<and> nclosed m = 1"
proof -
  let ?ms = "\<lparr>noTagCounter = 0, internalSocksAddress = [], launches = [ObfsClientLaunch ''obfs4-80'' [\<lparr>loop_addr = ''127.0.0.1:80'', loop_internal = True, loop_middle = None\<rparr>]]\<rparr>"
  let ?m0 = "NewTermMonitor (Some None) ''linux'' 7"
  let ?m1 = "?m0\<lparr>mon_pc := MonFirst\<rparr>"
  let ?m2 = "notify [None] SIGINT ?m1"
  let ?m3 = "?m2\<lparr>mon_pc := MonClosing [], nclosed := Suc (nclosed ?m2)\<rparr>"
  let ?m4 = "?m3\<lparr>mon_pc := MonLast\<rparr>"
  have cs: "closings [False] ?ms = [None]" "length [False] = length (main_listeners ?ms)"
    by (simp_all add: closings_def main_listeners_def close_listener_def)
  have "mon_reach [None] ?m0 ?m1"
    by (rule mon_reach.mon_prog [OF mon_reach.mon_init mon_steps(1)]) (simp add: NewTermMonitor_def)
  then have "mon_reach [None] ?m0 ?m2"
    by (rule mon_reach.mon_envs) (rule mon_env.env_signal, simp)
  then have "mon_reach [None] ?m0 ?m3"
    by (rule mon_reach.mon_prog) (rule mon_steps(2), simp add: NewTermMonitor_def notify_def mon_receive_def waiting_def)
  then have r: "mon_reach [None] ?m0 ?m4"
    by (rule mon_reach.mon_prog) (rule mon_steps(4), simp)
  have m: "received ?m4 = [Signal SIGINT]" "mon_pc ?m4 = MonLast \<or> mon_pc ?m4 = MonReturned" "mon_pc ?m4 = MonLast"
    by (simp_all add: NewTermMonitor_def notify_def mon_receive_def waiting_def)
  have "mon_reach (closings [False] ?ms) ?m0 ?m4"
    unfolding cs(1) by (rule r)
  from interrupt_ends_process_iff [OF cs(2) this m(1,2)] have "nclosed ?m4 = 1"
    using m(3) by simp
  then show ?thesis
    using r m(1,3) by (intro exI conjI)
qed

end
