(* ===== verification/Spec2Isabelle.thy ===== *)
theory Spec2Isabelle
  imports Encapsulation Redial_Packet_Conn Relay Snowflake_Server Dpi_Certs Dpi_Http_Client Entry_Point
begin

text \<open>
  A verification library for PTBridge, a Go program that carries TCP connections through networks
  that inspect or block them.  One process runs any number of servers and clients of three kinds:

  \<^item> \<^bold>\<open>obfs\<close> (\<^verbatim>\<open>obfs/\<close>): a relay behind one of the obfs transports;
  \<^item> \<^bold>\<open>DPI\<close> (\<^verbatim>\<open>dpi/\<close>): connections cut into encrypted HTTP requests and one streamed download each;
  \<^item> \<^bold>\<open>snowflake\<close> (\<^verbatim>\<open>snowflake/\<close>): KCP packets over WebSockets, with multiplexed streams inside.

  \<^bold>\<open>Method.\<close>  Pure Go functions are HOL functions; state is passed explicitly as records; Go errors
  are values (\<open>error + 'a\<close>), run-time panics a third outcome (\<open>'a go\<close>) and \<^verbatim>\<open>PTLog.Fatal\<close> an \<open>outcome\<close>;
  goroutines are step relations with reachability, and pointers that are shared (connections,
  queues, sessions) are indices into a store.  Fixed-width integers are words wherever the code
  computes with them.  A reader delivers its bytes in arbitrary pieces, and the theorems hold for
  all of them.  Third-party code and the operating system (AEAD and key derivation, the HTTP client,
  the WebSocket, KCP, smux, obfs4 and SOCKS libraries, DNS message packing, JSON, sockets, time,
  randomness) are arguments; what is used of them is a named hypothesis of the theorem, and its
  witness instantiates it.

  \<^bold>\<open>The Go library.\<close>  \<open>Go_Prelude\<close> (words, errors, slices, big-endian codecs), \<open>Go_IO\<close> (readers,
  writers, \<^verbatim>\<open>io.ReadFull\<close>, \<^verbatim>\<open>io.CopyN\<close>, \<^verbatim>\<open>bufio.Writer\<close>; locales \<open>exact_reader\<close> and \<open>byte_sink\<close>),
  \<open>Go_Source\<close> (locale \<open>byte_source\<close> and \<^verbatim>\<open>io.Copy\<close>), \<open>Go_Conn\<close> (connections, the sequencing combinators
  and the locale \<open>duplex\<close> that reduces a connection to a wire), \<open>Go_Strings\<close>, \<open>Go_Net\<close> (IP addresses
  and host-port pairs, with their print-parse round trips), \<open>Go_Base64\<close> and \<open>Go_Pem\<close> (\<^verbatim>\<open>encoding/pem\<close>,
  both directions).

  \<^bold>\<open>Snowflake.\<close>  \<open>Encapsulation\<close> (\<^verbatim>\<open>encapsulation.go\<close>): the packet format as an executable
  specification, the reader's equivalence to it, the writers' round trips and size budgets.
  \<open>Client_Map\<close> (\<^verbatim>\<open>clientmap.go\<close>, with the \<^verbatim>\<open>container/heap\<close> algorithms): the heap with its index map
  refines a finite map with time stamps, and expiry removes exactly the expired clients (locale
  \<open>expiring_registry\<close>).  \<open>Queue_Packet_Conn\<close> (\<^verbatim>\<open>queuepacketconn.go\<close>): over every sequence of
  operations clients are isolated, reads are in order and a close is final (locale \<open>close_once\<close>,
  shared with the next).  \<open>Redial_Packet_Conn\<close> (\<^verbatim>\<open>redialpacketconn.go\<close>): the dial loop and the two
  copying goroutines per connection as one step relation with its invariant.  \<open>Web_Socket\<close>
  (\<^verbatim>\<open>websocketconn.go\<close>) and \<open>Snowflake_Carrier\<close> (\<^verbatim>\<open>encap.go\<close>, \<^verbatim>\<open>WrapWebSocketDial\<close>, \<^verbatim>\<open>serveHTTP\<close>): packets
  between the client's packet connection and the server's queues, both ways.  \<open>Socks5_Server\<close> (\<^verbatim>\<open>socks5.go\<close>),
  \<open>Standalone_Stream\<close> (\<^verbatim>\<open>stream.go\<close>) and \<open>Snowflake_Session\<close> (\<^verbatim>\<open>session.go\<close>, \<^verbatim>\<open>client.go\<close>, the session table
  of \<^verbatim>\<open>handler.go\<close>): requests, stream headers and the way from a local SOCKS request to the server's
  dial.  \<open>Snowflake_Server\<close> (\<^verbatim>\<open>handler.go\<close>) runs WebSocket handlers, packet connection, KCP listener and
  session table interleaved and traces every session to an admitted client.  \<open>Relay\<close>: both copy loops of
  the program as a step relation over two endpoints whose reads and writes may block or fail, with
  order, closing, and exactly when a relay ends or hangs.

  \<^bold>\<open>DPI.\<close>  \<open>Dpi_Common\<close> (sealing, stream header, connect request), \<open>Dpi_Server\<close> (\<^verbatim>\<open>handler.go\<close>,
  \<^verbatim>\<open>server.go\<close>: the handlers, the reading goroutine and the registry), \<open>Dpi_Transport\<close>
  (\<^verbatim>\<open>transport.go\<close>), \<open>Dpi_Tunnel\<close> (client and server composed: the HTTP client is instantiated with the
  server's handlers), \<open>Dpi_Conn\<close> (the batching connection of \<^verbatim>\<open>proxy.go\<close> with its two pumps), \<open>Dpi_Proxy\<close>
  (the CONNECT proxy, credentials, \<^verbatim>\<open>tunnel_conn.go\<close>), \<open>Dpi_Dns\<close> (\<^verbatim>\<open>dns_resolver.go\<close>), \<open>Dpi_Certs\<close>
  (\<^verbatim>\<open>certs.go\<close>: the self-signed pair through PEM and \<^verbatim>\<open>tls.X509KeyPair\<close>) and \<open>Dpi_Http_Client\<close> (the HTTP
  client \<^verbatim>\<open>NewTransport\<close> configures: protocols and redirect policy).

  \<^bold>\<open>Obfs, proxies and start-up.\<close>  \<open>Configuration\<close> (\<^verbatim>\<open>common/\<close>: configuration records, address parsing,
  INI files, port probing), \<open>Term_Monitor\<close> (\<^verbatim>\<open>common/termon\<close>: the monitor as functions of its events and as
  a step relation among everything that sends them, both against one contract over event histories), \<open>Upstream_Proxy\<close> (HTTP CONNECT and SOCKS4 dialers),
  \<open>Obfs\<close> (identities, set-up and handlers of both ends), \<open>Launch\<close> (\<^verbatim>\<open>main/\<close>: the launchers,
  certificates and the loops of \<^verbatim>\<open>main\<close>) and \<open>Entry_Point\<close> (flags, printing modes, and the listeners
  between \<^verbatim>\<open>main\<close> and the monitor).  This theory holds the property that spans them.

  \<^bold>\<open>What the theorems show.\<close>  Formats: readers and writers are inverse and total, with their errors
  characterised (encapsulation, stream headers, connect requests, addresses, credentials,
  identities).  State: invariants of every reachable state of the client map, the packet
  connections, the DPI server and connection, the Snowflake server, the relays and the terminal
  monitor.  Composition: packets across the WebSocket, a SOCKS request through a session, uploads and
  downloads through the DPI handlers, identities from generation to the running server and to the
  next start.  Several theorems state what
  the code does where it fails its purpose: colliding connection ids, unregistered live
  connections, stalled writes, a client mode that bypasses its transport, lost early bytes, redirects that defeat a
  connect, a lost signal.

  \<^bold>\<open>Bounds and fuel.\<close>  Loops that end are total functions with termination proofs.  \<open>io_Copy\<close> and the
  unbatched tunnel take fuel, and one more than the number of bytes to come is shown to be enough.
  \<^verbatim>\<open>Connect\<close>, which recurses on redirects, and the search for a free port are partial functions:
  \<open>None\<close> is not returning, and the theorems about results show \<open>Some\<close>.  The number of redirects left
  in \<open>client_Do\<close> is the HTTP client's own limit.

  \<^bold>\<open>Not modelled.\<close>  Log output (\<^verbatim>\<open>ptlog.go\<close> but for \<^verbatim>\<open>Fatal\<close>); the inside of third-party libraries and of
  \<^verbatim>\<open>crypto/x509\<close>; \<^verbatim>\<open>TunnelConn.Run\<close>, which nothing calls; the time-outs and keep-alive settings passed to
  \<^verbatim>\<open>http.Server\<close> and \<^verbatim>\<open>net.Dialer\<close>; \<^verbatim>\<open>strconv.Quote\<close> beyond ASCII (\<^verbatim>\<open>strings.ToLower\<close> beyond ASCII is an
  argument); readers that return bytes and an error in one call; memory use and scheduling fairness
  (liveness is stated as the existence of a continuation or as an enabled step).
\<close>

subsection \<open>Properties that span components\<close>

text \<open>
  C24: The identity served is the identity saved.  When a run of \<^verbatim>\<open>main\<close> reaches the terminal monitor,
  loading the configuration file then on disk gives the configuration of the run, with a certificate
  for every obfs4 server entry, and each such server has been set up with exactly the transport
  arguments that certificate and its private key stand for; it serves with them unless its listener
  failed, an error that is recorded and otherwise ignored.  Every later run from that file, whatever
  identities it could generate, leaves the file alone and sets up each server with the same
  certificate and key.  (The JSON codec is only assumed to read back the one configuration saved.)
\<close>

theorem identity_served_is_identity_saved:
  assumes "main unmarshal (\<lambda>i. GenerateIdentity (raw i) newNodeID (keypair i)) marshal writeErr tr env path fs = Some (Proceed (ms, fs'))"
    and "Load unmarshal path fs = Proceed config"
    and "ensureServerCerts (\<lambda>i. GenerateIdentity (raw i) newNodeID (keypair i)) marshal writeErr path config fs = Proceed (saved, fs'')"
    and "\<forall>x y. newNodeID x = Inr y \<longrightarrow> length y = NodeIDLength"
    and "\<forall>i pub priv. keypair i = Inr (pub, priv) \<longrightarrow> length pub = PublicKeyLength \<and> priv \<noteq> []"
    and "\<forall>bs. marshal saved = Inr bs \<longrightarrow> unmarshal bs = Inr saved"
  shows "Load unmarshal path fs' = Proceed saved \<and>
    (\<forall>k < length (cfgServer saved). sType (cfgServer saved ! k) = ''obfs4'' \<longrightarrow>
       sCert (cfgServer saved ! k) \<noteq> [] \<and>
       (\<exists>tag info. launches ms ! k = ObfsServerLaunch tag info (listen_tcp_err (me_obfs (env k)) (bind_addr info)) \<and>
          obfs4ArgsFromConfig (newSeed (me_obfs (env k))) (sCert (cfgServer saved ! k)) (sPrivateKey (cfgServer saved ! k)) = Inr (Options info))) \<and>
    (\<forall>gen env2 ms2 fs2. main unmarshal gen marshal writeErr tr env2 path fs' = Some (Proceed (ms2, fs2)) \<longrightarrow>
       fs2 = fs' \<and>
       (\<forall>k < length (cfgServer saved). sType (cfgServer saved ! k) = ''obfs4'' \<longrightarrow>
          (\<exists>tag info. launches ms2 ! k = ObfsServerLaunch tag info (listen_tcp_err (me_obfs (env2 k)) (bind_addr info)) \<and>
             obfs4ArgsFromConfig (newSeed (me_obfs (env2 k))) (sCert (cfgServer saved ! k)) (sPrivateKey (cfgServer saved ! k)) = Inr (Options info))))"
proof -
  have certs: "\<forall>s\<in>set (cfgServer saved). sType s = ''obfs4'' \<longrightarrow> sCert s \<noteq> []" and load: "Load unmarshal path fs'' = Proceed saved"
    using ensureServerCerts_saved [OF assms(2-6)] by blast+
  note run = main_serves [OF assms(1-3) certs]
  have again: "ensureServerCerts gen marshal writeErr path saved fs' = Proceed (saved, fs')" for gen
    using certs by (simp add: ensureServerCerts_def fill_certs_done)
  have load': "Load unmarshal path fs' = Proceed saved"
    using load run by simp
  have "sCert (cfgServer saved ! k) \<noteq> []" if "k < length (cfgServer saved)" "sType (cfgServer saved ! k) = ''obfs4''" for k
    using certs that by simp
  then show ?thesis
    using run load' main_serves [OF _ load' again certs] by blast
qed

theorem identity_served_is_identity_saved_witness:
  "\<exists>unmarshal saved ms fs'.
    main unmarshal (\<lambda>i. GenerateIdentity (Inr (replicate 20 1)) (\<lambda>x. if length x = NodeIDLength then Inr x else Inl EOF) (Inr (replicate 32 2, ''ab'')))
      (\<lambda>c. Inr [1]) (\<lambda>_. None) None demo_main_env ''c'' [''c'' \<mapsto> [0]] = Some (Proceed (ms, fs')) \<and>
    Load unmarshal ''c'' fs' = Proceed saved \<and> sCert (cfgServer saved ! 0) \<noteq> [] \<and>
    (\<exists>tag info. launches ms ! 0 = ObfsServerLaunch tag info None)"
proof -
  define cert where "cert = encodeObfs4Cert (replicate 20 1) (replicate 32 2)"
  define node :: "bytes \<Rightarrow> error + bytes" where "node = (\<lambda>x. if length x = NodeIDLength then Inr x else Inl EOF)"
  let ?pair = "Inr (replicate 32 2, ''ab'')"
  let ?gen = "\<lambda>i::nat. GenerateIdentity (Inr (replicate 20 1)) node ?pair"
  let ?saved = "demo_config cert ''ab''"
  let ?dec = "\<lambda>bs. if bs = [1] then Inr ?saved else Inr (demo_config [] [])"
  let ?enc = "\<lambda>c :: JsonConfigImpl. Inr [1] :: error + bytes"
  let ?s = "demo_server\<lparr>sCert := cert, sPrivateKey := ''ab''\<rparr>"
  have gen: "?gen i = Inr (cert, ''ab'')" and cert: "cert \<noteq> []" for i
    using encodeObfs4Cert_nonempty [of "replicate 20 1" "replicate 32 2"]
    by (simp_all add: GenerateIdentity_def node_def cert_def NodeIDLength_def PublicKeyLength_def)
  obtain opts where "server_options demo_obfs_env ?s = Inr opts"
    using obfs4Args_of_cert [of "replicate 20 1" "replicate 32 2" "''ab''"] cert
    by (simp add: server_options_def demo_server_def demo_obfs_env_def cert_def NodeIDLength_def PublicKeyLength_def)
  then have info: "\<exists>info. server_Setup demo_obfs_env ?s = Proceed (info, None)"
    using demo_server_Setup [of ?s opts] by (auto simp: demo_server_def demo_addresses)
  have load: "Load ?dec ''c'' [''c'' \<mapsto> [0]] = Proceed (demo_config [] [])"
    by (simp add: Load_def)
  have e: "ensureServerCerts ?gen ?enc (\<lambda>_. None) ''c'' (demo_config [] []) [''c'' \<mapsto> [0]] = Proceed (?saved, [''c'' \<mapsto> [1]])"
    unfolding ensureServerCerts_def by (simp add: gen demo_config_def demo_server_def Save_def)
  have "\<exists>ms. main ?dec ?gen ?enc (\<lambda>_. None) None demo_main_env ''c'' [''c'' \<mapsto> [0]] = Some (Proceed (ms, [''c'' \<mapsto> [1]]))"
    unfolding main_def using load e info
    by (auto simp: demo_config_def demo_main_env_def with_service_def demo_server_def buildTag_def demo_addresses server_entry_def main_start_def)
  then obtain ms where m: "main ?dec ?gen ?enc (\<lambda>_. None) None demo_main_env ''c'' [''c'' \<mapsto> [0]] = Some (Proceed (ms, [''c'' \<mapsto> [1]]))" ..
  have h: "\<forall>x y. node x = Inr y \<longrightarrow> length y = NodeIDLength" "\<forall>i::nat. \<forall>pub priv. ?pair = Inr (pub, priv) \<longrightarrow> length pub = PublicKeyLength \<and> priv \<noteq> []"
    "\<forall>bs. ?enc ?saved = Inr bs \<longrightarrow> ?dec bs = Inr ?saved"
    by (auto simp: node_def PublicKeyLength_def)
  note served = identity_served_is_identity_saved [OF m load e h]
  obtain tag info where "launches ms ! 0 = ObfsServerLaunch tag info None"
    using served [THEN conjunct2, THEN conjunct1, THEN spec, of 0]
    by (auto simp: demo_config_def demo_server_def demo_main_env_def demo_obfs_env_def)
  moreover have "sCert (cfgServer ?saved ! 0) \<noteq> []"
    using cert by (simp add: demo_config_def)
  ultimately show ?thesis
    using m served [THEN conjunct1] unfolding node_def by (intro exI conjI)
qed

end
